(* ===== verification/Prelude.thy ===== *)
theory Prelude
  imports Main "HOL-Library.Word"
begin

text \<open>
  What the components share: the machine types, the bytes of an integer in the memory of the
  little-endian host the library runs on, \<open>htons\<close> and its kin, results that may be a memory
  fault, the heap of \<open>new\<close> and \<open>delete\<close>, and the interface of a packed struct that the code
  lays over a byte buffer with a pointer cast.
\<close>

unbundle bit_operations_syntax

named_theorems layout \<open>sizes and fields of packed structs\<close>
named_theorems wire \<open>bytes of an integer in memory and on the wire\<close>
named_theorems mem \<open>allocation and release\<close>

section \<open>Machine types\<close>

type_synonym byte = "8 word"
type_synonym u16 = "16 word"
type_synonym u24 = "24 word"
type_synonym u32 = "32 word"
type_synonym u64 = "64 word"

section \<open>Integers in memory\<close>

text \<open>The bytes of an integer at increasing addresses (little-endian host).\<close>

definition le16 :: "u16 \<Rightarrow> byte list" where
  "le16 w = [ucast w, ucast (drop_bit 8 w)]"

definition le24 :: "u24 \<Rightarrow> byte list" where
  "le24 w = [ucast w, ucast (drop_bit 8 w), ucast (drop_bit 16 w)]"

definition le32 :: "u32 \<Rightarrow> byte list" where
  "le32 w = [ucast w, ucast (drop_bit 8 w), ucast (drop_bit 16 w), ucast (drop_bit 24 w)]"

text \<open>Reading an integer at an offset of a buffer.\<close>

definition rd16 :: "byte list \<Rightarrow> nat \<Rightarrow> u16" where
  "rd16 bs i = ucast (bs ! i) OR push_bit 8 (ucast (bs ! (i + 1)))"

definition rd24 :: "byte list \<Rightarrow> nat \<Rightarrow> u24" where
  "rd24 bs i = ucast (bs ! i) OR push_bit 8 (ucast (bs ! (i + 1)))
     OR push_bit 16 (ucast (bs ! (i + 2)))"

definition rd32 :: "byte list \<Rightarrow> nat \<Rightarrow> u32" where
  "rd32 bs i = ucast (bs ! i) OR push_bit 8 (ucast (bs ! (i + 1)))
     OR push_bit 16 (ucast (bs ! (i + 2))) OR push_bit 24 (ucast (bs ! (i + 3)))"

lemma length_le [simp, layout]:
  "length (le16 a) = 2" "length (le24 b) = 3" "length (le32 c) = 4"
  by (simp_all add: le16_def le24_def le32_def)

lemma join16 [simp, wire]:
  "ucast (ucast w :: byte) OR push_bit 8 (ucast (ucast (drop_bit 8 w) :: byte)) = (w :: u16)"
  by (rule bit_word_eqI) (auto simp: bit_simps)

lemma join24 [simp, wire]:
  "ucast (ucast w :: byte) OR push_bit 8 (ucast (ucast (drop_bit 8 w) :: byte))
     OR push_bit 16 (ucast (ucast (drop_bit 16 w) :: byte)) = (w :: u24)"
proof (rule bit_word_eqI)
  fix n assume "n < LENGTH(24)"
  then consider "n < 8" | "8 \<le> n \<and> n < 16" | "16 \<le> n \<and> n < 24" by force
  then show "bit (ucast (ucast w :: byte) OR push_bit 8 (ucast (ucast (drop_bit 8 w) :: byte))
     OR push_bit 16 (ucast (ucast (drop_bit 16 w) :: byte)) :: u24) n = bit w n"
    by cases (auto simp: bit_simps)
qed

lemma join32 [simp, wire]:
  "ucast (ucast w :: byte) OR push_bit 8 (ucast (ucast (drop_bit 8 w) :: byte))
     OR push_bit 16 (ucast (ucast (drop_bit 16 w) :: byte))
     OR push_bit 24 (ucast (ucast (drop_bit 24 w) :: byte)) = (w :: u32)"
proof (rule bit_word_eqI)
  fix n assume "n < LENGTH(32)"
  then consider "n < 8" | "8 \<le> n \<and> n < 16" | "16 \<le> n \<and> n < 24" | "24 \<le> n \<and> n < 32" by force
  then show "bit (ucast (ucast w :: byte) OR push_bit 8 (ucast (ucast (drop_bit 8 w) :: byte))
     OR push_bit 16 (ucast (ucast (drop_bit 16 w) :: byte))
     OR push_bit 24 (ucast (ucast (drop_bit 24 w) :: byte)) :: u32) n = bit w n"
    by cases (auto simp: bit_simps)
qed

lemma byte_bit_high [simp]: "8 \<le> n \<Longrightarrow> \<not> bit (b :: byte) n"
  using bit_imp_le_length [of b n] by auto

lemma le16_rd16 [wire]: "le16 (rd16 bs i) = [bs ! i, bs ! (i + 1)]"
  by (simp add: le16_def rd16_def) (auto intro!: bit_word_eqI simp: bit_simps)

lemma le24_rd24 [wire]: "le24 (rd24 bs i) = [bs ! i, bs ! (i + 1), bs ! (i + 2)]"
  by (simp add: le24_def rd24_def) (auto intro!: bit_word_eqI simp: bit_simps)

lemma le32_rd32 [wire]:
  "le32 (rd32 bs i) = [bs ! i, bs ! (i + 1), bs ! (i + 2), bs ! (i + 3)]"
  by (simp add: le32_def rd32_def) (auto intro!: bit_word_eqI simp: bit_simps)

lemma rd16_le16 [simp, wire]: "rd16 (le16 w @ bs) 0 = w"
  by (simp add: rd16_def le16_def)

lemma rd32_le32 [simp, wire]: "rd32 (le32 w @ bs) 0 = w"
  by (simp add: rd32_def le32_def nth_Cons')

section \<open>Host and network byte order\<close>

text \<open>On the little-endian host \<open>htons\<close> and \<open>htonl\<close> reverse the bytes of the object.\<close>

definition bswap16 :: "u16 \<Rightarrow> u16" where
  "bswap16 w = rd16 (rev (le16 w)) 0"

definition bswap32 :: "u32 \<Rightarrow> u32" where
  "bswap32 w = rd32 (rev (le32 w)) 0"

abbreviation htons :: "u16 \<Rightarrow> u16" where "htons \<equiv> bswap16"
abbreviation ntohs :: "u16 \<Rightarrow> u16" where "ntohs \<equiv> bswap16"
abbreviation htonl :: "u32 \<Rightarrow> u32" where "htonl \<equiv> bswap32"

lemma le16_htons [wire]: "le16 (htons w) = rev (le16 w)"
  by (simp add: bswap16_def le16_rd16) (simp add: le16_def)

lemma le32_htonl [wire]: "le32 (htonl w) = rev (le32 w)"
  by (simp add: bswap32_def le32_rd32) (simp add: le32_def nth_Cons')

lemma bswap16_bswap16 [simp]: "bswap16 (bswap16 w) = w"
  by (metis append_Nil2 bswap16_def le16_htons rd16_le16 rev_rev_ident)

lemma bswap16_0 [simp]: "bswap16 0 = 0"
  by (simp add: bswap16_def rd16_def le16_def)

lemma bswap16_eq_iff [simp]: "bswap16 v = bswap16 w \<longleftrightarrow> v = w"
  by (metis bswap16_bswap16)

lemma bswap16_eq_0_iff [simp]: "bswap16 w = 0 \<longleftrightarrow> w = 0"
  using bswap16_eq_iff [of w 0] by simp

text \<open>The value of a field on the wire, most significant byte first.\<close>

fun net_val :: "byte list \<Rightarrow> nat" where
  "net_val [] = 0"
| "net_val (b # bs) = unat b * 256 ^ length bs + net_val bs"

lemma unat_drop_bit_div: "unat (drop_bit n (w :: 'a::len word)) = unat w div 2 ^ n"
  by (simp only: unat_drop_bit_eq) (simp only: drop_bit_eq_div)

lemma unat_hi_lo:
  "unat (ucast (drop_bit 8 w) :: byte) * 256 + unat (ucast w :: byte) = unat (w :: u16)"
proof -
  have w: "unat w < 65536" using unsigned_less [of w, where ?'a = nat] by simp
  then have "unat (ucast (drop_bit 8 w) :: byte) = unat w div 256"
    by (simp add: unsigned_ucast_eq unat_drop_bit_eq take_bit_eq_mod) (simp add: drop_bit_eq_div)
  moreover have "unat (ucast w :: byte) = unat w mod 256"
    by (simp add: unsigned_ucast_eq take_bit_eq_mod)
  ultimately show ?thesis by simp
qed

lemma net_val_htons [simp, wire]: "net_val (le16 (htons w)) = unat w"
  using unat_hi_lo [of w] by (simp only: le16_htons) (simp add: le16_def)

lemma net_val_append: "net_val (xs @ ys) = net_val xs * 256 ^ length ys + net_val ys"
  by (induction xs) (simp_all add: algebra_simps power_add)

lemma net_val_less: "net_val bs < 256 ^ length bs"
proof (induction bs)
  case (Cons b bs)
  have "unat b < 256" using unsigned_less [of b, where ?'a = nat] by simp
  then have "unat b + 1 \<le> 256" by simp
  from mult_le_mono1 [OF this, of "256 ^ length bs"]
  have "unat b * 256 ^ length bs + 256 ^ length bs \<le> 256 * 256 ^ length bs"
    by (simp only: add_mult_distrib mult_1)
  moreover have "256 ^ length (b # bs) = (256::nat) * 256 ^ length bs" by simp
  ultimately show ?case using Cons by (simp only: net_val.simps)
qed simp

section \<open>Faults and results\<close>

text \<open>
  What the C++ code leaves undefined or ends with: a null or dangling pointer dereferenced, a read
  or write outside the object, and \<open>exit\<close>. An operation that may do one of these returns a sum;
  \<open>Inl\<close> is the first fault it runs into.
\<close>

datatype fault =
    NullDeref
  | UseAfterFree
  | OutOfBounds
  | ProcessExit int

type_synonym 'a res = "fault + 'a"

definition bind_res :: "'a res \<Rightarrow> ('a \<Rightarrow> 'b res) \<Rightarrow> 'b res" where
  "bind_res m f = (case m of Inl e \<Rightarrow> Inl e | Inr x \<Rightarrow> f x)"

lemma bind_res_simps [simp]:
  "bind_res (Inl e) f = Inl e"
  "bind_res (Inr x) f = f x"
  by (simp_all add: bind_res_def)

lemma bind_res_Inr_iff:
  "bind_res m f = Inr y \<longleftrightarrow> (\<exists>x. m = Inr x \<and> f x = Inr y)"
  by (cases m) simp_all

lemma bind_res_assoc:
  "bind_res (bind_res m f) g = bind_res m (\<lambda>x. bind_res (f x) g)"
  by (cases m) simp_all

definition guard_res :: "bool \<Rightarrow> fault \<Rightarrow> unit res" where
  "guard_res b e = (if b then Inr () else Inl e)"

lemma guard_res_simps [simp]:
  "guard_res True e = Inr ()"
  "guard_res False e = Inl e"
  "guard_res b e = Inr u \<longleftrightarrow> b"
  by (simp_all add: guard_res_def)

text \<open>\<open>memcpy(dst, src, n)\<close>: the new contents of the destination object.\<close>

definition memcpy :: "byte list \<Rightarrow> byte list \<Rightarrow> nat \<Rightarrow> byte list res" where
  "memcpy dst src n =
     (if n \<le> length src \<and> n \<le> length dst then Inr (take n src @ drop n dst)
      else Inl OutOfBounds)"

lemma memcpy_full [simp]:
  "length src = n \<Longrightarrow> length dst = n \<Longrightarrow> memcpy dst src n = Inr src"
  by (simp add: memcpy_def)

lemma memcpy_length: "memcpy dst src n = Inr r \<Longrightarrow> length r = length dst"
  by (auto simp: memcpy_def split: if_splits)

section \<open>The heap of new and delete\<close>

text \<open>
  Addresses are natural numbers, 0 is the null pointer. \<open>live\<close> holds the allocated objects;
  deleting or reading an address that is not allocated is a fault.
\<close>

record 'a heap =
  fresh :: nat
  live :: "nat \<rightharpoonup> 'a"

definition heap_ok :: "'a heap \<Rightarrow> bool" where
  "heap_ok h \<longleftrightarrow> 0 < fresh h \<and> (\<forall>a \<in> dom (live h). 0 < a \<and> a < fresh h)"

definition heap_new :: "'a \<Rightarrow> 'a heap \<Rightarrow> nat \<times> 'a heap" where
  "heap_new x h = (fresh h, h\<lparr>fresh := Suc (fresh h), live := (live h)(fresh h \<mapsto> x)\<rparr>)"

definition heap_read :: "nat \<Rightarrow> 'a heap \<Rightarrow> 'a res" where
  "heap_read a h = (if a = 0 then Inl NullDeref
     else case live h a of None \<Rightarrow> Inl UseAfterFree | Some x \<Rightarrow> Inr x)"

definition heap_write :: "nat \<Rightarrow> 'a \<Rightarrow> 'a heap \<Rightarrow> 'a heap res" where
  "heap_write a x h = bind_res (heap_read a h) (\<lambda>_. Inr (h\<lparr>live := (live h)(a \<mapsto> x)\<rparr>))"

text \<open>\<open>delete\<close> of the null pointer does nothing.\<close>

definition heap_delete :: "nat \<Rightarrow> 'a heap \<Rightarrow> 'a heap res" where
  "heap_delete a h = (if a = 0 then Inr h
     else bind_res (heap_read a h) (\<lambda>_. Inr (h\<lparr>live := (live h)(a := None)\<rparr>)))"

lemma heap_ok_new [mem]: "heap_ok h \<Longrightarrow> heap_new x h = (a, h') \<Longrightarrow> heap_ok h'"
  by (auto simp: heap_ok_def heap_new_def less_Suc_eq split: if_splits)

lemma heap_new_fresh [mem]:
  "heap_ok h \<Longrightarrow> heap_new x h = (a, h') \<Longrightarrow>
     live h a = None \<and> 0 < a \<and> live h' = (live h)(a \<mapsto> x)"
  by (auto simp: heap_ok_def heap_new_def dom_def)

lemma heap_read_live [mem]: "heap_ok h \<Longrightarrow> live h a = Some x \<Longrightarrow> heap_read a h = Inr x"
  by (auto simp: heap_ok_def heap_read_def dom_def)

lemma heap_delete_live [mem]:
  "heap_ok h \<Longrightarrow> live h a = Some x \<Longrightarrow>
     heap_delete a h = Inr (h\<lparr>live := (live h)(a := None)\<rparr>)"
  by (auto simp: heap_ok_def heap_read_def heap_delete_def dom_def)

lemma heap_write_live [mem]:
  "heap_ok h \<Longrightarrow> live h a = Some x \<Longrightarrow>
     heap_write a y h = Inr (h\<lparr>live := (live h)(a \<mapsto> y)\<rparr>)"
  by (auto simp: heap_write_def heap_read_live)

lemma heap_ok_upd [mem]:
  "heap_ok h \<Longrightarrow> heap_ok (h\<lparr>live := (live h)(a := None)\<rparr>)"
  "heap_ok h \<Longrightarrow> live h a = Some x \<Longrightarrow> heap_ok (h\<lparr>live := (live h)(a \<mapsto> y)\<rparr>)"
  by (auto simp: heap_ok_def dom_def split: if_splits)

text \<open>
  \<open>new char[n]\<close> leaves the bytes indeterminate: \<open>junk a i\<close> is whatever byte \<open>i\<close> of the block at
  \<open>a\<close> happens to hold. Every theorem is about an arbitrary \<open>junk\<close>.
\<close>

definition new_chars :: "(nat \<Rightarrow> nat \<Rightarrow> byte) \<Rightarrow> nat \<Rightarrow> byte list heap \<Rightarrow> nat \<times> byte list heap" where
  "new_chars junk n h = heap_new (map (junk (fresh h)) [0..<n]) h"

section \<open>Packed structs laid over a buffer\<close>

text \<open>
  The code casts a \<open>char*\<close> to a pointer to a packed struct and assigns its fields in place.
  A struct is modelled as a record with its \<open>pack\<close>, the bytes of the object in memory, and its
  \<open>unpack\<close>, the object read from the first bytes of a buffer. \<open>overlay\<close> is the cast followed by
  the assignments \<open>f\<close>: only the first \<open>sz\<close> bytes change.
\<close>

definition overlay ::
  "('s \<Rightarrow> byte list) \<Rightarrow> (byte list \<Rightarrow> 's) \<Rightarrow> nat \<Rightarrow> ('s \<Rightarrow> 's) \<Rightarrow> byte list \<Rightarrow> byte list res" where
  "overlay pack unpack sz f buf =
     (if sz \<le> length buf then Inr (pack (f (unpack buf)) @ drop sz buf) else Inl OutOfBounds)"

locale packed_struct =
  fixes pack :: "'s \<Rightarrow> byte list"
    and unpack :: "byte list \<Rightarrow> 's"
    and valid :: "'s \<Rightarrow> bool"
    and sz :: nat
  assumes length_pack: "valid s \<Longrightarrow> length (pack s) = sz"
    and unpack_pack: "valid s \<Longrightarrow> unpack (pack s @ bs) = s"
    and valid_unpack: "sz \<le> length bs \<Longrightarrow> valid (unpack bs)"
    and pack_unpack: "sz \<le> length bs \<Longrightarrow> pack (unpack bs) = take sz bs"
begin

lemma unpack_pack_exact: "valid s \<Longrightarrow> unpack (pack s) = s"
  using unpack_pack [of s "[]"] by simp

lemma pack_inject: "valid s \<Longrightarrow> valid t \<Longrightarrow> pack s = pack t \<longleftrightarrow> s = t"
  using unpack_pack_exact by metis

lemma unpack_take: "sz \<le> length bs \<Longrightarrow> unpack (take sz bs @ cs) = unpack bs"
  using pack_unpack [of bs] unpack_pack [OF valid_unpack, of bs cs] by simp

lemma overlay_pack:
  "valid s \<Longrightarrow> overlay pack unpack sz f (pack s @ bs) = Inr (pack (f s) @ bs)"
  by (simp add: overlay_def length_pack unpack_pack)

lemma overlay_length:
  assumes "overlay pack unpack sz f buf = Inr buf'" and "\<And>s. valid s \<Longrightarrow> valid (f s)"
  shows "length buf' = length buf"
proof -
  from assms(1) have sz: "sz \<le> length buf"
    and buf': "buf' = pack (f (unpack buf)) @ drop sz buf"
    by (auto simp: overlay_def split: if_splits)
  from sz have "valid (f (unpack buf))" by (intro assms(2) valid_unpack)
  with sz buf' show ?thesis by (simp add: length_pack)
qed

lemma overlay_overlay:
  assumes "\<And>s. valid s \<Longrightarrow> valid (f s)"
  shows "bind_res (overlay pack unpack sz f buf) (overlay pack unpack sz g)
    = overlay pack unpack sz (g \<circ> f) buf"
proof (cases "sz \<le> length buf")
  case True
  then have "valid (f (unpack buf))" by (intro assms valid_unpack)
  with True show ?thesis by (simp add: overlay_def length_pack unpack_pack)
qed (simp add: overlay_def)

end

text \<open>The bytes of a struct read back one by one.\<close>

lemma take_nths: "n \<le> length bs \<Longrightarrow> take n bs = map ((!) bs) [0..<n]"
  by (rule nth_equalityI) simp_all

section \<open>Decimal numerals\<close>

definition digit :: "nat \<Rightarrow> char" where
  "digit n = ''0123456789'' ! n"

fun show_nat :: "nat \<Rightarrow> string" where
  "show_nat n = (if n < 10 then [digit n] else show_nat (n div 10) @ [digit (n mod 10)])"

declare show_nat.simps [simp del]

fun dec_val :: "nat \<Rightarrow> string \<Rightarrow> nat" where
  "dec_val acc [] = acc"
| "dec_val acc (c # cs) = dec_val (10 * acc + (of_char c - 48)) cs"

lemma digit_props:
  assumes "n < 10"
  shows "of_char (digit n) = n + 48" "digit n \<in> set ''0123456789''"
proof -
  have "n \<in> set [0..<10]" using assms by simp
  also have "[0..<10] = [0, 1, 2, 3, 4, 5, 6, 7, 8, 9 :: nat]" by (simp add: upt_rec)
  finally show "of_char (digit n) = n + 48" "digit n \<in> set ''0123456789''"
    by (auto simp: digit_def)
qed

lemma dec_val_append: "dec_val acc (xs @ ys) = dec_val (dec_val acc xs) ys"
  by (induction xs arbitrary: acc) simp_all

lemma dec_val_show_nat [simp]: "dec_val 0 (show_nat n) = n"
proof (induction n rule: show_nat.induct)
  case (1 n)
  then show ?case
    by (subst show_nat.simps) (simp add: digit_props dec_val_append)
qed

lemma show_nat_inject [simp]: "show_nat m = show_nat n \<longleftrightarrow> m = n"
  using dec_val_show_nat by metis

lemma show_nat_digits: "set (show_nat n) \<subseteq> set ''0123456789''"
proof (induction n rule: show_nat.induct)
  case (1 n)
  then show ?case
    using digit_props(2) [of n] digit_props(2) [of "n mod 10"]
    by (subst show_nat.simps) auto
qed

lemma show_nat_length: "n < 10 ^ Suc k \<Longrightarrow> length (show_nat n) \<le> Suc k"
proof (induction k arbitrary: n)
  case 0
  then show ?case by (subst show_nat.simps) simp
next
  case (Suc k)
  show ?case
  proof (cases "n < 10")
    case False
    have "n div 10 < 10 ^ Suc k" using Suc.prems by (simp add: less_mult_imp_div_less mult.commute)
    from Suc.IH [OF this] False show ?thesis by (subst show_nat.simps) simp
  qed (subst show_nat.simps, simp)
qed

text \<open>Two strings cut at the first occurrence of a separator.\<close>

lemma cut_unique:
  "c \<notin> set xs \<Longrightarrow> c \<notin> set xs' \<Longrightarrow> xs @ c # ys = xs' @ c # ys' \<longleftrightarrow> xs = xs' \<and> ys = ys'"
proof (induction xs arbitrary: xs')
  case Nil
  then show ?case by (cases xs') auto
next
  case (Cons x xs)
  then show ?case by (cases xs') auto
qed

section \<open>Calls that may not return\<close>

text \<open>
  A call that may not return (a busy loop, a blocking push) gives an \<open>option\<close>: \<open>None\<close> when it does
  not return, otherwise its result or fault.
\<close>

definition bind_call :: "'a res option \<Rightarrow> ('a \<Rightarrow> 'b res option) \<Rightarrow> 'b res option" where
  "bind_call m f = (case m of None \<Rightarrow> None | Some (Inl e) \<Rightarrow> Some (Inl e) | Some (Inr x) \<Rightarrow> f x)"

lemma bind_call_simps [simp]:
  "bind_call None f = None"
  "bind_call (Some (Inl e)) f = Some (Inl e)"
  "bind_call (Some (Inr x)) f = f x"
  by (simp_all add: bind_call_def)

end
