(* ===== verification/Network.thy ===== *)
theory Network
  imports Prelude
begin

text \<open>
  \<open>structs/Network.h\<close>: the packed Ethernet, IPv4, UDP and ARP headers of a frame, field by field
  in the order of the structs, with their object representation on the little-endian host
  (\<open>pack_\<close>, \<open>unpack_\<close>), and the methods of \<open>UDP_HDR\<close>. Every struct is an instance of the
  interface \<open>packed_struct\<close> of the prelude.
\<close>

section \<open>Headers of the system: Ethernet, IPv4, UDP, ARP\<close>

record ether_header =
  ether_dhost :: "byte list"
  ether_shost :: "byte list"
  ether_type :: u16

definition valid_ether_header :: "ether_header \<Rightarrow> bool" where
  "valid_ether_header h \<longleftrightarrow> length (ether_dhost h) = 6 \<and> length (ether_shost h) = 6"

definition pack_ether_header :: "ether_header \<Rightarrow> byte list" where
  "pack_ether_header h = ether_dhost h @ ether_shost h @ le16 (ether_type h)"

definition unpack_ether_header :: "byte list \<Rightarrow> ether_header" where
  "unpack_ether_header bs =
     \<lparr>ether_dhost = take 6 bs, ether_shost = take 6 (drop 6 bs), ether_type = rd16 bs 12\<rparr>"

text \<open>The first byte of \<open>iphdr\<close> holds two bit-fields: \<open>ihl\<close> in the low half, \<open>version\<close> above it.\<close>

record iphdr =
  ihl :: "4 word"
  version :: "4 word"
  tos :: byte
  tot_len :: u16
  ip_id :: u16
  frag_off :: u16
  ttl :: byte
  protocol :: byte
  ip_check :: u16
  saddr :: u32
  daddr :: u32

definition pack_iphdr :: "iphdr \<Rightarrow> byte list" where
  "pack_iphdr h =
     [ucast (ihl h) OR push_bit 4 (ucast (version h)), tos h] @ le16 (tot_len h)
     @ le16 (ip_id h) @ le16 (frag_off h) @ [ttl h, protocol h] @ le16 (ip_check h)
     @ le32 (saddr h) @ le32 (daddr h)"

definition unpack_iphdr :: "byte list \<Rightarrow> iphdr" where
  "unpack_iphdr bs =
     \<lparr>ihl = ucast (bs ! 0), version = ucast (drop_bit 4 (bs ! 0)), tos = bs ! 1,
      tot_len = rd16 bs 2, ip_id = rd16 bs 4, frag_off = rd16 bs 6, ttl = bs ! 8,
      protocol = bs ! 9, ip_check = rd16 bs 10, saddr = rd32 bs 12, daddr = rd32 bs 16\<rparr>"

record udphdr =
  source :: u16
  dest :: u16
  udp_len :: u16
  udp_check :: u16

definition pack_udphdr :: "udphdr \<Rightarrow> byte list" where
  "pack_udphdr h = le16 (source h) @ le16 (dest h) @ le16 (udp_len h) @ le16 (udp_check h)"

definition unpack_udphdr :: "byte list \<Rightarrow> udphdr" where
  "unpack_udphdr bs =
     \<lparr>source = rd16 bs 0, dest = rd16 bs 2, udp_len = rd16 bs 4, udp_check = rd16 bs 6\<rparr>"

record arphdr =
  ar_hrd :: u16
  ar_pro :: u16
  ar_hln :: byte
  ar_pln :: byte
  ar_op :: u16

definition pack_arphdr :: "arphdr \<Rightarrow> byte list" where
  "pack_arphdr h = le16 (ar_hrd h) @ le16 (ar_pro h) @ [ar_hln h, ar_pln h] @ le16 (ar_op h)"

definition unpack_arphdr :: "byte list \<Rightarrow> arphdr" where
  "unpack_arphdr bs =
     \<lparr>ar_hrd = rd16 bs 0, ar_pro = rd16 bs 2, ar_hln = bs ! 4, ar_pln = bs ! 5, ar_op = rd16 bs 6\<rparr>"

lemmas pack_defs = pack_ether_header_def pack_iphdr_def pack_udphdr_def pack_arphdr_def
lemmas unpack_defs = unpack_ether_header_def unpack_iphdr_def unpack_udphdr_def unpack_arphdr_def

lemma nibbles:
  "ucast (ucast i OR push_bit 4 (ucast v) :: byte) = (i :: 4 word)"
  "ucast (drop_bit 4 (ucast i OR push_bit 4 (ucast v) :: byte)) = (v :: 4 word)"
  "ucast (drop_bit 4 (ucast i) OR drop_bit 4 (push_bit 4 (ucast v) :: byte)) = (v :: 4 word)"
  "ucast (ucast b :: 4 word) OR push_bit 4 (ucast (ucast (drop_bit 4 b) :: 4 word)) = (b :: byte)"
proof -
  show "ucast (ucast i OR push_bit 4 (ucast v) :: byte) = (i :: 4 word)"
    by (rule bit_word_eqI) (auto simp: bit_simps)
  show "ucast (drop_bit 4 (ucast i OR push_bit 4 (ucast v) :: byte)) = (v :: 4 word)"
    by (rule bit_word_eqI) (auto simp: bit_simps dest: bit_imp_le_length)
  show "ucast (drop_bit 4 (ucast i) OR drop_bit 4 (push_bit 4 (ucast v) :: byte)) = (v :: 4 word)"
    by (rule bit_word_eqI) (auto simp: bit_simps dest: bit_imp_le_length)
  show "ucast (ucast b :: 4 word) OR push_bit 4 (ucast (ucast (drop_bit 4 b) :: 4 word)) = (b :: byte)"
    by (rule bit_word_eqI) (auto simp: bit_simps)
qed

lemma upt_numerals:
  "[0..<2] = [0, 1 :: nat]"
  "[0..<4] = [0, 1, 2, 3 :: nat]"
  "[0..<8] = [0, 1, 2, 3, 4, 5, 6, 7 :: nat]"
  "[0..<12] = [0, 1, 2, 3, 4, 5, 6, 7, 8, 9, 10, 11 :: nat]"
  "[0..<20] = [0, 1, 2, 3, 4, 5, 6, 7, 8, 9, 10, 11, 12, 13, 14, 15, 16, 17, 18, 19 :: nat]"
  by (simp_all add: upt_rec)

interpretation ether: packed_struct pack_ether_header unpack_ether_header valid_ether_header 14
proof
  fix bs :: "byte list" assume len: "14 \<le> length bs"
  have "take 2 (drop 12 bs) = [bs ! 12, bs ! 13]"
    using len take_nths [of 2 "drop 12 bs"] by (simp add: upt_numerals)
  then show "pack_ether_header (unpack_ether_header bs) = take 14 bs"
    using take_add [of 6 8 bs] take_add [of 6 2 "drop 6 bs"]
    by (simp add: pack_defs unpack_defs le16_rd16)
qed (auto simp: pack_defs unpack_defs valid_ether_header_def rd16_def le16_def nth_append)

interpretation iph: packed_struct pack_iphdr unpack_iphdr "\<lambda>_. True" 20
proof
  fix bs :: "byte list" assume "20 \<le> length bs"
  then show "pack_iphdr (unpack_iphdr bs) = take 20 bs"
    using take_nths [of 20 bs]
    by (simp add: pack_defs unpack_defs le16_rd16 le32_rd32 nibbles upt_numerals)
qed (simp_all add: pack_defs unpack_defs rd16_def le16_def rd32_def le32_def nibbles)

interpretation udph: packed_struct pack_udphdr unpack_udphdr "\<lambda>_. True" 8
proof
  fix bs :: "byte list" assume "8 \<le> length bs"
  then show "pack_udphdr (unpack_udphdr bs) = take 8 bs"
    using take_nths [of 8 bs] by (simp add: pack_defs unpack_defs le16_rd16 upt_numerals)
qed (simp_all add: pack_defs unpack_defs rd16_def le16_def)

interpretation arph: packed_struct pack_arphdr unpack_arphdr "\<lambda>_. True" 8
proof
  fix bs :: "byte list" assume "8 \<le> length bs"
  then show "pack_arphdr (unpack_arphdr bs) = take 8 bs"
    using take_nths [of 8 bs] by (simp add: pack_defs unpack_defs le16_rd16 upt_numerals)
qed (simp_all add: pack_defs unpack_defs rd16_def le16_def)

section \<open>UDP_HDR, UDP_PSEUDOHDR, ARP_HDR and EOB_FULL_FRAME\<close>

record UDP_HDR =
  eth :: ether_header
  ip :: iphdr
  udp :: udphdr

definition valid_UDP_HDR :: "UDP_HDR \<Rightarrow> bool" where
  "valid_UDP_HDR h \<longleftrightarrow> valid_ether_header (eth h)"

definition pack_UDP_HDR :: "UDP_HDR \<Rightarrow> byte list" where
  "pack_UDP_HDR h = pack_ether_header (eth h) @ pack_iphdr (ip h) @ pack_udphdr (udp h)"

definition unpack_UDP_HDR :: "byte list \<Rightarrow> UDP_HDR" where
  "unpack_UDP_HDR bs =
     \<lparr>eth = unpack_ether_header bs, ip = unpack_iphdr (drop 14 bs), udp = unpack_udphdr (drop 34 bs)\<rparr>"

record UDP_PSEUDOHDR =
  ph_saddr :: u32
  ph_daddr :: u32
  ph_reserved :: byte
  ph_protocol :: byte
  ph_udp_length :: u16

definition pack_UDP_PSEUDOHDR :: "UDP_PSEUDOHDR \<Rightarrow> byte list" where
  "pack_UDP_PSEUDOHDR h =
     le32 (ph_saddr h) @ le32 (ph_daddr h) @ [ph_reserved h, ph_protocol h] @ le16 (ph_udp_length h)"

definition unpack_UDP_PSEUDOHDR :: "byte list \<Rightarrow> UDP_PSEUDOHDR" where
  "unpack_UDP_PSEUDOHDR bs =
     \<lparr>ph_saddr = rd32 bs 0, ph_daddr = rd32 bs 4, ph_reserved = bs ! 8, ph_protocol = bs ! 9,
      ph_udp_length = rd16 bs 10\<rparr>"

record ARP_HDR =
  arp_eth :: ether_header
  arp :: arphdr
  sourceHardwAddr :: "byte list"
  sourceIPAddr :: u32
  targetHardwAddr :: "byte list"
  targetIPAddr :: u32

definition valid_ARP_HDR :: "ARP_HDR \<Rightarrow> bool" where
  "valid_ARP_HDR h \<longleftrightarrow> valid_ether_header (arp_eth h)
     \<and> length (sourceHardwAddr h) = 6 \<and> length (targetHardwAddr h) = 6"

definition pack_ARP_HDR :: "ARP_HDR \<Rightarrow> byte list" where
  "pack_ARP_HDR h = pack_ether_header (arp_eth h) @ pack_arphdr (arp h) @ sourceHardwAddr h
     @ le32 (sourceIPAddr h) @ targetHardwAddr h @ le32 (targetIPAddr h)"

definition unpack_ARP_HDR :: "byte list \<Rightarrow> ARP_HDR" where
  "unpack_ARP_HDR bs =
     \<lparr>arp_eth = unpack_ether_header bs, arp = unpack_arphdr (drop 14 bs),
      sourceHardwAddr = take 6 (drop 22 bs), sourceIPAddr = rd32 (drop 28 bs) 0,
      targetHardwAddr = take 6 (drop 32 bs), targetIPAddr = rd32 (drop 38 bs) 0\<rparr>"

record EOB_FULL_FRAME =
  eob_udp :: UDP_HDR
  finishedBurstID :: u32
  lastEventNum :: u24
  eob_reserved :: byte

definition pack_EOB_FULL_FRAME :: "EOB_FULL_FRAME \<Rightarrow> byte list" where
  "pack_EOB_FULL_FRAME h = pack_UDP_HDR (eob_udp h) @ le32 (finishedBurstID h)
     @ le24 (lastEventNum h) @ [eob_reserved h]"

definition unpack_EOB_FULL_FRAME :: "byte list \<Rightarrow> EOB_FULL_FRAME" where
  "unpack_EOB_FULL_FRAME bs =
     \<lparr>eob_udp = unpack_UDP_HDR bs, finishedBurstID = rd32 (drop 42 bs) 0,
      lastEventNum = rd24 (drop 42 bs) 4, eob_reserved = drop 42 bs ! 7\<rparr>"

lemmas struct_sizes [layout] =
  ether.length_pack iph.length_pack udph.length_pack arph.length_pack
lemmas struct_unpacks [layout] =
  ether.unpack_pack iph.unpack_pack udph.unpack_pack arph.unpack_pack
lemmas struct_packs [layout] =
  ether.pack_unpack iph.pack_unpack udph.pack_unpack arph.pack_unpack

interpretation udp_hdr: packed_struct pack_UDP_HDR unpack_UDP_HDR valid_UDP_HDR 42
proof
  fix bs :: "byte list" assume "42 \<le> length bs"
  then show "pack_UDP_HDR (unpack_UDP_HDR bs) = take 42 bs"
    using take_add [of 14 28 bs] take_add [of 20 8 "drop 14 bs"]
    by (simp add: pack_UDP_HDR_def unpack_UDP_HDR_def layout)
qed (simp_all add: pack_UDP_HDR_def unpack_UDP_HDR_def valid_UDP_HDR_def layout ether.valid_unpack)

interpretation pseudo: packed_struct pack_UDP_PSEUDOHDR unpack_UDP_PSEUDOHDR "\<lambda>_. True" 12
proof
  fix bs :: "byte list" assume "12 \<le> length bs"
  then show "pack_UDP_PSEUDOHDR (unpack_UDP_PSEUDOHDR bs) = take 12 bs"
    using take_nths [of 12 bs]
    by (simp add: pack_UDP_PSEUDOHDR_def unpack_UDP_PSEUDOHDR_def le16_rd16 le32_rd32 upt_numerals
        numeral_2_eq_2)
qed (simp_all add: pack_UDP_PSEUDOHDR_def unpack_UDP_PSEUDOHDR_def
    rd16_def le16_def rd32_def le32_def)

interpretation arp_hdr: packed_struct pack_ARP_HDR unpack_ARP_HDR valid_ARP_HDR 42
proof
  fix bs :: "byte list" assume len: "42 \<le> length bs"
  have le: "4 \<le> length xs \<Longrightarrow> le32 (rd32 xs 0) = take 4 xs" for xs
    using take_nths [of 4 xs] by (simp add: le32_rd32 upt_numerals numeral_2_eq_2)
  show "pack_ARP_HDR (unpack_ARP_HDR bs) = take 42 bs"
    using len take_add [of 14 28 bs] take_add [of 8 20 "drop 14 bs"] take_add [of 6 14 "drop 22 bs"]
      take_add [of 4 10 "drop 28 bs"] take_add [of 6 4 "drop 32 bs"]
    by (simp add: pack_ARP_HDR_def unpack_ARP_HDR_def layout le)
qed (simp_all add: pack_ARP_HDR_def unpack_ARP_HDR_def valid_ARP_HDR_def layout ether.valid_unpack)

interpretation eob: packed_struct pack_EOB_FULL_FRAME unpack_EOB_FULL_FRAME
  "\<lambda>h. valid_UDP_HDR (eob_udp h)" 50
proof
  fix bs :: "byte list" assume len: "50 \<le> length bs"
  then have "take 8 (drop 42 bs) = map ((!) (drop 42 bs)) [0..<8]"
    by (intro take_nths) simp
  with len show "pack_EOB_FULL_FRAME (unpack_EOB_FULL_FRAME bs) = take 50 bs"
    using take_add [of 42 8 bs]
    by (simp add: pack_EOB_FULL_FRAME_def unpack_EOB_FULL_FRAME_def udp_hdr.pack_unpack
        le24_rd24 le32_rd32 upt_numerals)
qed (simp_all add: pack_EOB_FULL_FRAME_def unpack_EOB_FULL_FRAME_def udp_hdr.length_pack
    udp_hdr.unpack_pack udp_hdr.valid_unpack rd24_def le24_def rd32_def le32_def nth_append)

section \<open>The methods of UDP_HDR\<close>

definition IP_OFFMASK :: u16 where "IP_OFFMASK = 0x1fff"
definition IP_MF :: u16 where "IP_MF = 0x2000"
definition IP_DF :: u16 where "IP_DF = 0x4000"

text \<open>
  \<open>sizeof\<close> is a 64-bit \<open>size_t\<close>, so the sums are computed at 64 bits and narrowed to the 16 bits
  of \<open>htons\<close>.
\<close>

definition setPayloadSize :: "u32 \<Rightarrow> UDP_HDR \<Rightarrow> UDP_HDR" where
  "setPayloadSize dataLength h =
     h\<lparr>ip := (ip h)\<lparr>tot_len := htons (ucast (20 + 8 + ucast dataLength :: u64))\<rparr>,
       udp := (udp h)\<lparr>udp_len := htons (ucast (8 + ucast dataLength :: u64))\<rparr>\<rparr>"

definition isFragment :: "UDP_HDR \<Rightarrow> bool" where
  "isFragment h \<longleftrightarrow> ntohs (frag_off (ip h)) AND (IP_OFFMASK OR IP_MF) \<noteq> 0"

definition getFragmentOffsetInBytes :: "UDP_HDR \<Rightarrow> u64" where
  "getFragmentOffsetInBytes h = ucast (ntohs (frag_off (ip h)) AND IP_OFFMASK) * 8"

definition isMoreFragments :: "UDP_HDR \<Rightarrow> bool" where
  "isMoreFragments h \<longleftrightarrow> ntohs (frag_off (ip h)) AND IP_MF \<noteq> 0"

lemma valid_setPayloadSize [simp, layout]:
  "valid_UDP_HDR (setPayloadSize n h) = valid_UDP_HDR h"
  by (simp add: setPayloadSize_def valid_UDP_HDR_def)

lemma eth_setPayloadSize [simp]: "eth (setPayloadSize n h) = eth h"
  by (simp add: setPayloadSize_def)

lemma unat_narrow16: "unat (ucast (k + ucast n :: u64) :: u16) = (unat k + unat (n :: u32)) mod 65536"
proof -
  have "unat (k + ucast n :: u64) mod 65536 = (unat k + unat n) mod 65536"
    using unsigned_less [of n, where ?'a = nat]
    by (simp add: unat_word_ariths unsigned_ucast_eq mod_mod_cancel take_bit_eq_mod)
  then show ?thesis by (simp add: unsigned_ucast_eq take_bit_eq_mod)
qed

lemma unat_tot_len:
  "unat (ntohs (tot_len (ip (setPayloadSize n h)))) = (28 + unat n) mod 65536"
  using unat_narrow16 [of 28 n] by (simp add: setPayloadSize_def)

lemma unat_udp_len:
  "unat (ntohs (udp_len (udp (setPayloadSize n h)))) = (8 + unat n) mod 65536"
  using unat_narrow16 [of 8 n] by (simp add: setPayloadSize_def)

text \<open>Where the fields \<open>setPayloadSize\<close> writes lie on the wire.\<close>

lemma pack_UDP_HDR_cut:
  assumes "valid_UDP_HDR h"
  obtains A M Z where "length A = 16" and "length M = 20" and "length Z = 2"
    and "\<And>t u. pack_UDP_HDR (h\<lparr>ip := (ip h)\<lparr>tot_len := t\<rparr>, udp := (udp h)\<lparr>udp_len := u\<rparr>\<rparr>)
          = A @ le16 t @ M @ le16 u @ Z"
proof
  show "length (pack_ether_header (eth h)
      @ [ucast (ihl (ip h)) OR push_bit 4 (ucast (version (ip h))), tos (ip h)]) = 16"
    using assms by (simp add: valid_UDP_HDR_def layout)
  show "length (le16 (ip_id (ip h)) @ le16 (frag_off (ip h)) @ [ttl (ip h), protocol (ip h)]
      @ le16 (ip_check (ip h)) @ le32 (saddr (ip h)) @ le32 (daddr (ip h))
      @ le16 (source (udp h)) @ le16 (dest (udp h))) = 20"
    by simp
qed (simp_all add: pack_UDP_HDR_def pack_iphdr_def pack_udphdr_def)

text \<open>
  \<open>UDP_HDR::setPayloadSize(n)\<close> writes, in network byte order, the IP total length
  \<open>20 + 8 + n\<close> at bytes 16 and 17 of the frame and the UDP length \<open>8 + n\<close> at bytes 38 and 39, both
  modulo \<open>2^16\<close>, and changes no other byte of the 42-byte header.
\<close>

theorem setPayloadSize_on_wire:
  assumes "valid_UDP_HDR h"
  shows "length (pack_UDP_HDR (setPayloadSize n h)) = 42
    \<and> net_val (take 2 (drop 16 (pack_UDP_HDR (setPayloadSize n h)))) = (28 + unat n) mod 65536
    \<and> net_val (take 2 (drop 38 (pack_UDP_HDR (setPayloadSize n h)))) = (8 + unat n) mod 65536
    \<and> (\<forall>i < 42. i \<notin> {16, 17, 38, 39}
          \<longrightarrow> pack_UDP_HDR (setPayloadSize n h) ! i = pack_UDP_HDR h ! i)"
proof -
  obtain A M Z where len: "length A = 16" "length M = 20" "length Z = 2"
    and cut: "\<And>t u. pack_UDP_HDR (h\<lparr>ip := (ip h)\<lparr>tot_len := t\<rparr>, udp := (udp h)\<lparr>udp_len := u\<rparr>\<rparr>)
          = A @ le16 t @ M @ le16 u @ Z"
    by (rule pack_UDP_HDR_cut [OF assms]) blast
  have old: "pack_UDP_HDR h = A @ le16 (tot_len (ip h)) @ M @ le16 (udp_len (udp h)) @ Z"
    using cut [where t = "tot_len (ip h)" and u = "udp_len (udp h)"] by simp
  show ?thesis
  proof (intro conjI allI impI)
    fix i :: nat assume "i < 42" and i: "i \<notin> {16, 17, 38, 39}"
    then consider "i < 16" | "18 \<le> i \<and> i < 38" | "40 \<le> i" by force
    then show "pack_UDP_HDR (setPayloadSize n h) ! i = pack_UDP_HDR h ! i"
      unfolding setPayloadSize_def cut old using len by cases (auto simp: nth_append)
  qed (simp_all add: setPayloadSize_def cut len unat_narrow16)
qed

definition example_UDP_HDR :: UDP_HDR where
  "example_UDP_HDR =
     \<lparr>eth = \<lparr>ether_dhost = [1, 0, 0x5e, 1, 2, 3], ether_shost = [2, 4, 6, 8, 10, 12],
             ether_type = htons 0x0800\<rparr>,
      ip = \<lparr>ihl = 5, version = 4, tos = 0, tot_len = 0, ip_id = 0, frag_off = htons 0x4000,
            ttl = 128, protocol = 17, ip_check = 0, saddr = 0x0100000a, daddr = 0x030201e0\<rparr>,
      udp = \<lparr>source = htons 58913, dest = htons 58915, udp_len = 0, udp_check = 0\<rparr>\<rparr>"

lemma valid_example_UDP_HDR: "valid_UDP_HDR example_UDP_HDR"
  by (simp add: example_UDP_HDR_def valid_UDP_HDR_def valid_ether_header_def)

theorem setPayloadSize_on_wire_witness:
  "net_val (take 2 (drop 16 (pack_UDP_HDR (setPayloadSize 24 example_UDP_HDR)))) = 52
   \<and> net_val (take 2 (drop 38 (pack_UDP_HDR (setPayloadSize 24 example_UDP_HDR)))) = 32"
  using setPayloadSize_on_wire [OF valid_example_UDP_HDR, of 24] by simp

lemma unat_offmask: "unat (w AND IP_OFFMASK) = unat w mod 8192"
proof -
  have "w AND IP_OFFMASK = take_bit 13 w"
    by (simp add: IP_OFFMASK_def take_bit_eq_mask mask_eq_exp_minus_1)
  then have "unat (w AND IP_OFFMASK) = take_bit 13 (unat w)"
    by (simp only: unsigned_take_bit_eq)
  then show ?thesis by (simp add: take_bit_eq_mod)
qed

text \<open>
  A header is a fragment exactly when more fragments follow it or it does not start at offset 0;
  its byte offset is eight times the 13-bit offset field, so it is a multiple of 8 and at most 65528.
\<close>

theorem fragment_fields:
  "isFragment h = (isMoreFragments h \<or> 0 < unat (getFragmentOffsetInBytes h))
   \<and> unat (getFragmentOffsetInBytes h) = 8 * (unat (ntohs (frag_off (ip h))) mod 8192)
   \<and> unat (getFragmentOffsetInBytes h) \<le> 65528"
proof -
  let ?w = "ntohs (frag_off (ip h))"
  have m: "unat ?w mod 8192 < 8192" by simp
  then have off: "unat (getFragmentOffsetInBytes h) = 8 * (unat ?w mod 8192)"
    by (simp add: getFragmentOffsetInBytes_def unat_word_ariths unsigned_ucast_eq take_bit_eq_mod
        unat_offmask)
  have "?w AND IP_OFFMASK = 0 \<longleftrightarrow> unat ?w mod 8192 = 0"
    by (metis unat_offmask unsigned_eq_0_iff)
  then have "getFragmentOffsetInBytes h = 0 \<longleftrightarrow> ?w AND IP_OFFMASK = 0"
    by (metis off mult_eq_0_iff unsigned_eq_0_iff zero_neq_numeral)
  then have "0 < unat (getFragmentOffsetInBytes h) \<longleftrightarrow> ?w AND IP_OFFMASK \<noteq> 0"
    by (metis neq0_conv unsigned_eq_0_iff)
  moreover have "?w AND (IP_OFFMASK OR IP_MF) = 0 \<longleftrightarrow> ?w AND IP_OFFMASK = 0 \<and> ?w AND IP_MF = 0"
    by (simp add: bit.conj_disj_distrib or_eq_0_iff)
  ultimately show ?thesis
    using off m by (auto simp: isFragment_def isMoreFragments_def less_Suc_eq_le)
qed

end
