(* ===== verification/MRP.thy ===== *)
theory MRP
  imports Network
begin

text \<open>
  \<open>l1/MRP.h\<close>, in the configuration the header itself selects
  (\<open>__USE_BIG_ENDIAN_FOR_MRP\<close> is defined in it): the trigger element, the header of a multi request
  packet (MRP) and the frame header, with \<open>SetNumberOfTriggers\<close>. The other branch of the header, which
  the preprocessor switches off, is in \<open>MRPLittleEndian\<close>.
\<close>

section \<open>Structs\<close>

record TRIGGER_RAW_HDR =
  timestamp :: u32
  fineTime :: byte
  requestZeroSuppressed :: byte
  triggerTypeWord :: u16
  reserved2 :: byte
  eventNumber :: u24

definition pack_TRIGGER_RAW_HDR :: "TRIGGER_RAW_HDR \<Rightarrow> byte list" where
  "pack_TRIGGER_RAW_HDR t =
     le32 (timestamp t) @ [fineTime t, requestZeroSuppressed t] @ le16 (triggerTypeWord t)
     @ [reserved2 t] @ le24 (eventNumber t)"

definition unpack_TRIGGER_RAW_HDR :: "byte list \<Rightarrow> TRIGGER_RAW_HDR" where
  "unpack_TRIGGER_RAW_HDR bs =
     \<lparr>timestamp = rd32 bs 0, fineTime = bs ! 4, requestZeroSuppressed = bs ! 5,
      triggerTypeWord = rd16 bs 6, reserved2 = bs ! 8, eventNumber = rd24 bs 9\<rparr>"

record MRP_RAW_HDR =
  numberOfTriggers :: u16
  MRPLength :: u16
  ipAddress :: u32
  reserved :: u32

definition pack_MRP_RAW_HDR :: "MRP_RAW_HDR \<Rightarrow> byte list" where
  "pack_MRP_RAW_HDR m =
     le16 (numberOfTriggers m) @ le16 (MRPLength m) @ le32 (ipAddress m) @ le32 (reserved m)"

definition unpack_MRP_RAW_HDR :: "byte list \<Rightarrow> MRP_RAW_HDR" where
  "unpack_MRP_RAW_HDR bs =
     \<lparr>numberOfTriggers = rd16 bs 0, MRPLength = rd16 bs 2, ipAddress = rd32 bs 4,
      reserved = rd32 bs 8\<rparr>"

record MRP_FRAME_HDR =
  frame_udp :: UDP_HDR
  MRP_HDR :: MRP_RAW_HDR

definition valid_MRP_FRAME_HDR :: "MRP_FRAME_HDR \<Rightarrow> bool" where
  "valid_MRP_FRAME_HDR f \<longleftrightarrow> valid_UDP_HDR (frame_udp f)"

definition pack_MRP_FRAME_HDR :: "MRP_FRAME_HDR \<Rightarrow> byte list" where
  "pack_MRP_FRAME_HDR f = pack_UDP_HDR (frame_udp f) @ pack_MRP_RAW_HDR (MRP_HDR f)"

definition unpack_MRP_FRAME_HDR :: "byte list \<Rightarrow> MRP_FRAME_HDR" where
  "unpack_MRP_FRAME_HDR bs =
     \<lparr>frame_udp = unpack_UDP_HDR bs, MRP_HDR = unpack_MRP_RAW_HDR (drop 42 bs)\<rparr>"

interpretation trigger: packed_struct pack_TRIGGER_RAW_HDR unpack_TRIGGER_RAW_HDR "\<lambda>_. True" 12
proof
  fix bs :: "byte list" assume "12 \<le> length bs"
  then show "pack_TRIGGER_RAW_HDR (unpack_TRIGGER_RAW_HDR bs) = take 12 bs"
    using take_nths [of 12 bs]
    by (simp add: pack_TRIGGER_RAW_HDR_def unpack_TRIGGER_RAW_HDR_def le16_rd16 le24_rd24 le32_rd32
        upt_numerals numeral_2_eq_2 numeral_3_eq_3)
qed (simp_all add: pack_TRIGGER_RAW_HDR_def unpack_TRIGGER_RAW_HDR_def
    rd16_def le16_def rd24_def le24_def rd32_def le32_def)

interpretation mrp_raw: packed_struct pack_MRP_RAW_HDR unpack_MRP_RAW_HDR "\<lambda>_. True" 12
proof
  fix bs :: "byte list" assume "12 \<le> length bs"
  then show "pack_MRP_RAW_HDR (unpack_MRP_RAW_HDR bs) = take 12 bs"
    using take_nths [of 12 bs]
    by (simp add: pack_MRP_RAW_HDR_def unpack_MRP_RAW_HDR_def le16_rd16 le32_rd32 upt_numerals
        numeral_2_eq_2 numeral_3_eq_3)
qed (simp_all add: pack_MRP_RAW_HDR_def unpack_MRP_RAW_HDR_def rd16_def le16_def rd32_def le32_def)

interpretation mrp_frame: packed_struct pack_MRP_FRAME_HDR unpack_MRP_FRAME_HDR valid_MRP_FRAME_HDR 54
proof
  fix bs :: "byte list" assume "54 \<le> length bs"
  then show "pack_MRP_FRAME_HDR (unpack_MRP_FRAME_HDR bs) = take 54 bs"
    using take_add [of 42 12 bs]
    by (simp add: pack_MRP_FRAME_HDR_def unpack_MRP_FRAME_HDR_def udp_hdr.pack_unpack
        mrp_raw.pack_unpack)
qed (simp_all add: pack_MRP_FRAME_HDR_def unpack_MRP_FRAME_HDR_def valid_MRP_FRAME_HDR_def
    udp_hdr.length_pack udp_hdr.unpack_pack udp_hdr.valid_unpack
    mrp_raw.length_pack mrp_raw.unpack_pack)

section \<open>SetNumberOfTriggers and the getters\<close>

text \<open>
  \<open>sizeof(MRP_RAW_HDR) + triggerNum * sizeof(TRIGGER_RAW_HDR)\<close> is a 64-bit \<open>size_t\<close>, stored in a
  \<open>uint16_t\<close>.
\<close>

definition mrp_length :: "u16 \<Rightarrow> u16" where
  "mrp_length triggerNum = ucast (12 + ucast triggerNum * 12 :: u64)"

definition MRP_RAW_SetNumberOfTriggers :: "u16 \<Rightarrow> MRP_RAW_HDR \<Rightarrow> MRP_RAW_HDR" where
  "MRP_RAW_SetNumberOfTriggers triggerNum m =
     m\<lparr>numberOfTriggers := htons triggerNum, MRPLength := htons (mrp_length triggerNum)\<rparr>"

definition getNumberOfTriggers :: "MRP_RAW_HDR \<Rightarrow> u16" where
  "getNumberOfTriggers m = ntohs (numberOfTriggers m)"

definition getSize :: "MRP_RAW_HDR \<Rightarrow> u16" where
  "getSize m = ntohs (MRPLength m)"

definition SetNumberOfTriggers :: "u16 \<Rightarrow> MRP_FRAME_HDR \<Rightarrow> MRP_FRAME_HDR" where
  "SetNumberOfTriggers triggerNum f =
     f\<lparr>MRP_HDR := MRP_RAW_SetNumberOfTriggers triggerNum (MRP_HDR f),
       frame_udp := setPayloadSize (ucast (mrp_length triggerNum)) (frame_udp f)\<rparr>"

lemma valid_SetNumberOfTriggers [simp, layout]:
  "valid_MRP_FRAME_HDR (SetNumberOfTriggers n f) = valid_MRP_FRAME_HDR f"
  by (simp add: SetNumberOfTriggers_def valid_MRP_FRAME_HDR_def)

lemma unat_mrp_length: "unat (mrp_length n) = (12 + 12 * unat n) mod 65536"
proof -
  have "unat n < 65536" using unsigned_less [of n, where ?'a = nat] by simp
  then have "unat (12 + ucast n * 12 :: u64) = 12 + 12 * unat n"
    by (simp add: unat_word_ariths unsigned_ucast_eq take_bit_eq_mod)
  then show ?thesis by (simp add: mrp_length_def unsigned_ucast_eq take_bit_eq_mod)
qed

lemma getters_SetNumberOfTriggers:
  "getNumberOfTriggers (MRP_HDR (SetNumberOfTriggers n f)) = n"
  "getSize (MRP_HDR (SetNumberOfTriggers n f)) = mrp_length n"
  by (simp_all add: getNumberOfTriggers_def getSize_def SetNumberOfTriggers_def
      MRP_RAW_SetNumberOfTriggers_def)

text \<open>
  C26: After \<open>SetNumberOfTriggers(n)\<close> the getters give back \<open>n\<close> and the MRP length, and the three
  nested lengths of the frame agree: for up to 5457 triggers the MRP length is the 12 bytes of its
  header plus 12 per trigger, the UDP length 8 bytes more and the IP total length 20 bytes more
  again, none of them reduced modulo \<open>2^16\<close>.
\<close>

theorem SetNumberOfTriggers_lengths:
  assumes "unat n \<le> 5457"
  shows "getNumberOfTriggers (MRP_HDR (SetNumberOfTriggers n f)) = n
    \<and> unat (getSize (MRP_HDR (SetNumberOfTriggers n f))) = 12 + 12 * unat n
    \<and> unat (ntohs (udp_len (udp (frame_udp (SetNumberOfTriggers n f))))) = 8 + (12 + 12 * unat n)
    \<and> unat (ntohs (tot_len (ip (frame_udp (SetNumberOfTriggers n f))))) = 20 + 8 + (12 + 12 * unat n)"
proof -
  have len: "unat (mrp_length n) = 12 + 12 * unat n"
    using assms by (simp add: unat_mrp_length)
  then have "unat (ucast (mrp_length n) :: u32) = 12 + 12 * unat n"
    using assms by (simp add: unsigned_ucast_eq take_bit_eq_mod)
  then show ?thesis
    using assms len
    by (simp add: getters_SetNumberOfTriggers) (simp add: SetNumberOfTriggers_def unat_tot_len unat_udp_len)
qed

definition example_MRP_FRAME_HDR :: MRP_FRAME_HDR where
  "example_MRP_FRAME_HDR =
     \<lparr>frame_udp = example_UDP_HDR,
      MRP_HDR = \<lparr>numberOfTriggers = 0, MRPLength = 0, ipAddress = 0x0100000a, reserved = 0\<rparr>\<rparr>"

lemma valid_example_MRP_FRAME_HDR: "valid_MRP_FRAME_HDR example_MRP_FRAME_HDR"
  by (simp add: valid_MRP_FRAME_HDR_def example_MRP_FRAME_HDR_def valid_example_UDP_HDR)

theorem SetNumberOfTriggers_lengths_witness:
  "unat (getSize (MRP_HDR (SetNumberOfTriggers 5457 example_MRP_FRAME_HDR))) = 65496"
  using SetNumberOfTriggers_lengths [of 5457 example_MRP_FRAME_HDR] by simp

text \<open>
  The bound is sharp: with 5458 triggers the MRP length still fits 16 bits but the IP total
  length wraps to 0, and with 5461 the MRP length itself wraps, to 8.
\<close>

theorem SetNumberOfTriggers_wraps:
  "tot_len (ip (frame_udp (SetNumberOfTriggers 5458 f))) = 0
   \<and> unat (getSize (MRP_HDR (SetNumberOfTriggers 5458 f))) = 65508
   \<and> unat (getSize (MRP_HDR (SetNumberOfTriggers 5461 f))) = 8"
proof (intro conjI)
  have "unat (ntohs (tot_len (ip (frame_udp (SetNumberOfTriggers 5458 f))))) = 0"
    by (simp add: SetNumberOfTriggers_def unat_tot_len unsigned_ucast_eq unat_mrp_length take_bit_eq_mod)
  then show "tot_len (ip (frame_udp (SetNumberOfTriggers 5458 f))) = 0"
    by (simp add: unsigned_eq_0_iff)
qed (simp_all add: getters_SetNumberOfTriggers unat_mrp_length)

end
