(* ===== verification/Checksum.thy ===== *)
theory Checksum
  imports Network
begin

text \<open>
  The checksums of \<open>socket/EthernetUtils.h\<close>. \<open>DataContainer::GenerateChecksumUnwrapped\<close>,
  \<open>Wrapsum\<close> and \<open>GenerateChecksum\<close> belong to another library (\<open>structs/DataContainer.h\<close> of
  na62-farm-lib) and are the fields of the parameter \<open>checksum_api\<close>. What the networking library
  relies on is the Internet checksum (RFC 1071), the laws of the locale \<open>inet_checksum\<close>.
  \<open>CheckData\<close> is written out in the header itself and modelled in full.
\<close>

section \<open>One's complement sums\<close>

text \<open>The 16-bit words of a byte sequence, added as integers, in network and in host order; a last
  odd byte is padded with 0.\<close>

fun be_sum :: "byte list \<Rightarrow> nat" where
  "be_sum (a # b # bs) = 256 * unat a + unat b + be_sum bs"
| "be_sum [a] = 256 * unat a"
| "be_sum [] = 0"

fun le_sum :: "byte list \<Rightarrow> nat" where
  "le_sum (a # b # bs) = unat a + 256 * unat b + le_sum bs"
| "le_sum [a] = unat a"
| "le_sum [] = 0"

text \<open>The one's complement sum as a value between 1 and 65535, or 0 for the empty sum.\<close>

definition oc_norm :: "nat \<Rightarrow> nat" where
  "oc_norm n = (if n = 0 then 0 else (n - 1) mod 65535 + 1)"

lemma oc_norm_le: "oc_norm n \<le> 65535"
proof -
  have "(n - 1) mod 65535 < 65535" by (rule mod_less_divisor) simp
  moreover have "oc_norm n \<le> (n - 1) mod 65535 + 1" by (simp add: oc_norm_def)
  ultimately show ?thesis by linarith
qed

lemma oc_norm_0_iff [simp]: "oc_norm n = 0 \<longleftrightarrow> n = 0"
  by (simp add: oc_norm_def)

lemma oc_norm_mod: "oc_norm n mod 65535 = n mod 65535"
  by (cases n) (simp_all add: oc_norm_def mod_Suc_eq)

lemma oc_norm_eq_65535_iff: "oc_norm n = 65535 \<longleftrightarrow> n \<noteq> 0 \<and> 65535 dvd n"
proof
  assume h: "oc_norm n = 65535"
  then have "n mod 65535 = 0" using oc_norm_mod [of n] by simp
  with h show "n \<noteq> 0 \<and> 65535 dvd n" by (auto simp: oc_norm_def split: if_splits)
next
  assume h: "n \<noteq> 0 \<and> 65535 dvd n"
  then have "65535 dvd oc_norm n" using oc_norm_mod [of n] by (simp add: dvd_eq_mod_eq_0)
  then obtain k where k: "oc_norm n = 65535 * k" ..
  have "k \<noteq> 0" using h k oc_norm_0_iff [of n] by auto
  moreover have "k \<le> 1" using oc_norm_le [of n] k by simp
  ultimately show "oc_norm n = 65535" using k by simp
qed

lemma oc_norm_add: "oc_norm (oc_norm m + n) = oc_norm (m + n)"
proof (cases "m = 0")
  case False
  then have "oc_norm (oc_norm m + n) = ((m - 1) mod 65535 + n) mod 65535 + 1"
    by (simp add: oc_norm_def)
  also have "\<dots> = (m - 1 + n) mod 65535 + 1" by (simp add: mod_add_left_eq)
  also have "\<dots> = oc_norm (m + n)" using False by (simp add: oc_norm_def)
  finally show ?thesis .
qed (simp add: oc_norm_def)

lemma be_sum_append: "even (length xs) \<Longrightarrow> be_sum (xs @ ys) = be_sum xs + be_sum ys"
  by (induction xs rule: be_sum.induct) simp_all

lemma be_sum_le16_htons: "be_sum (le16 (htons w)) = unat w"
  using net_val_htons [of w] by (simp only: le16_htons) (simp add: le16_def mult.commute)

lemma unat_byte_le: "unat (b :: byte) \<le> 255"
  using unsigned_less [of b, where ?'a = nat] by simp

lemma le_sum_bound: "le_sum bs \<le> 65535 * ((length bs + 1) div 2)"
proof (induction bs rule: le_sum.induct)
  case (1 a b bs)
  then show ?case using unat_byte_le [of a] unat_byte_le [of b] by simp
next
  case (2 a)
  then show ?case using unat_byte_le [of a] by simp
qed simp

text \<open>The sum does not depend on the byte order, up to a factor that is invertible.\<close>

lemma le_sum_be_sum: "le_sum bs mod 65535 = (256 * be_sum bs) mod 65535"
proof (induction bs rule: le_sum.induct)
  case (1 a b bs)
  have "(256 * be_sum (a # b # bs)) mod 65535
      = (65535 * unat a + (unat a + 256 * unat b) + 256 * be_sum bs) mod 65535"
    by (simp add: algebra_simps)
  also have "\<dots> = ((unat a + 256 * unat b) + 256 * be_sum bs) mod 65535"
    by (simp only: add.assoc mod_mult_self4)
  also have "\<dots> = ((unat a + 256 * unat b) + le_sum bs) mod 65535"
    using 1 by (metis mod_add_right_eq)
  finally show ?case by simp
next
  case (2 a)
  have "(256 * be_sum [a]) mod 65535 = (65535 * unat a + unat a) mod 65535"
    by simp
  then show ?case by (simp only: mod_mult_self4) simp
qed simp

lemma le_sum_0_iff: "le_sum bs = 0 \<longleftrightarrow> be_sum bs = 0"
  by (induction bs rule: le_sum.induct) auto

lemma oc_norm_le_be: "oc_norm (le_sum bs) = 65535 \<longleftrightarrow> oc_norm (be_sum bs) = 65535"
proof -
  have "coprime (65535 :: nat) 256" by (simp add: coprime_iff_gcd_eq_1 gcd_non_0_nat)
  then have "65535 dvd 256 * be_sum bs \<longleftrightarrow> 65535 dvd be_sum bs"
    by (simp add: coprime_dvd_mult_right_iff)
  moreover have "65535 dvd le_sum bs \<longleftrightarrow> 65535 dvd 256 * be_sum bs"
    using le_sum_be_sum [of bs] by (simp add: dvd_eq_mod_eq_0)
  ultimately show ?thesis by (simp add: oc_norm_eq_65535_iff le_sum_0_iff)
qed

lemma unat_NOT16: "unat (NOT (w :: u16)) = 65535 - unat w"
proof -
  have "NOT w = - 1 - w" by (simp add: not_eq_complement)
  moreover have "unat (- 1 - w) = unat (- 1 :: u16) - unat w"
    by (rule unat_sub) simp
  moreover have "unat (- 1 :: u16) = 65535"
    by (simp add: unsigned_minus_1_eq_mask mask_eq_exp_minus_1)
  ultimately show ?thesis by simp
qed

section \<open>The interface of DataContainer\<close>

record checksum_api =
  dc_GenerateChecksumUnwrapped :: "byte list \<Rightarrow> u32 \<Rightarrow> u32"
  dc_Wrapsum :: "u32 \<Rightarrow> u16"
  dc_GenerateChecksum :: "byte list \<Rightarrow> u32 \<Rightarrow> u16"

text \<open>
  RFC 1071: the unwrapped sum is the one's complement sum of the initial value and the data in
  network byte order; wrapping it complements it and stores it in network byte order.
\<close>

locale inet_checksum =
  fixes cs :: checksum_api
  assumes unwrapped: "unat s \<le> 65535 \<Longrightarrow> length bs \<le> 65535 \<Longrightarrow>
      unat (dc_GenerateChecksumUnwrapped cs bs s) = oc_norm (unat s + be_sum bs)"
    and wrapsum: "unat s \<le> 65535 \<Longrightarrow> dc_Wrapsum cs s = htons (NOT (ucast s))"
    and generate: "unat s \<le> 65535 \<Longrightarrow> length bs \<le> 65535 \<Longrightarrow>
      dc_GenerateChecksum cs bs s = dc_Wrapsum cs (dc_GenerateChecksumUnwrapped cs bs s)"
begin

lemma unwrapped_le:
  "unat s \<le> 65535 \<Longrightarrow> length bs \<le> 65535 \<Longrightarrow> unat (dc_GenerateChecksumUnwrapped cs bs s) \<le> 65535"
  by (simp add: unwrapped oc_norm_le)

lemma wrapsum_val:
  assumes "unat s \<le> 65535"
  shows "be_sum (le16 (dc_Wrapsum cs s)) = 65535 - unat s"
proof -
  have "unat (ucast s :: u16) = unat s"
    using assms by (simp add: unsigned_ucast_eq take_bit_eq_mod)
  then have "unat (NOT (ucast s :: u16)) = 65535 - unat s"
    by (simp add: unat_NOT16)
  then show ?thesis using assms by (simp add: wrapsum be_sum_le16_htons)
qed

text \<open>Data whose checksum field, 0 at first, is then set to the wrapped sum adds up to \<open>0xFFFF\<close>.\<close>

lemma filled_sum:
  assumes "unat s \<le> 65535" and "unat s + be_sum bs \<noteq> 0" and "length bs \<le> 65535"
  shows "oc_norm (unat s + be_sum bs + be_sum (le16 (dc_Wrapsum cs (dc_GenerateChecksumUnwrapped cs bs s))))
    = 65535"
proof -
  let ?u = "unat (dc_GenerateChecksumUnwrapped cs bs s)"
  have u: "?u = oc_norm (unat s + be_sum bs)" using assms by (simp add: unwrapped)
  have "?u \<le> 65535" using assms by (simp add: unwrapped_le)
  then have c: "be_sum (le16 (dc_Wrapsum cs (dc_GenerateChecksumUnwrapped cs bs s))) = 65535 - ?u"
    by (rule wrapsum_val)
  have "oc_norm (unat s + be_sum bs + (65535 - ?u)) = oc_norm (?u + (65535 - ?u))"
    using oc_norm_add [of "unat s + be_sum bs" "65535 - ?u"] by (simp only: u)
  also have "\<dots> = 65535" using \<open>?u \<le> 65535\<close> by (simp add: oc_norm_def)
  finally show ?thesis by (simp only: c)
qed

end

text \<open>The reference implementation of RFC 1071, which shows that the laws can hold.\<close>

definition rfc1071 :: checksum_api where
  "rfc1071 =
     \<lparr>dc_GenerateChecksumUnwrapped = (\<lambda>bs s. of_nat (oc_norm (unat s + be_sum bs))),
      dc_Wrapsum = (\<lambda>s. htons (NOT (ucast s))),
      dc_GenerateChecksum = (\<lambda>bs s. htons (NOT (ucast (of_nat (oc_norm (unat s + be_sum bs)) :: u32))))\<rparr>"

interpretation rfc1071: inet_checksum rfc1071
proof
  fix s :: u32 and bs :: "byte list"
  have "oc_norm (unat s + be_sum bs) < 2 ^ 32"
    using oc_norm_le [of "unat s + be_sum bs"] by simp
  then show "unat (dc_GenerateChecksumUnwrapped rfc1071 bs s) = oc_norm (unat s + be_sum bs)"
    by (simp add: rfc1071_def unat_of_nat)
qed (simp_all add: rfc1071_def)

section \<open>CheckData\<close>

text \<open>
  The loop \<open>while (len > 0)\<close>: \<open>data\<close> is the memory from the pointer to the end of its object, and
  each iteration reads a 16-bit word in host byte order. Reading past the end is a fault.
\<close>

fun checkdata_sum :: "byte list \<Rightarrow> nat \<Rightarrow> u32 \<Rightarrow> u32 res" where
  "checkdata_sum data 0 acc = Inr acc"
| "checkdata_sum (a # b # data) (Suc len) acc =
     checkdata_sum data len (acc + ucast (rd16 [a, b] 0))"
| "checkdata_sum data (Suc len) acc = Inl OutOfBounds"

definition CheckData :: "byte list \<Rightarrow> u16 \<Rightarrow> bool res" where
  "CheckData data len =
     (let words = (if len AND 1 = 0 then drop_bit 1 len else drop_bit 1 len + 1)
      in bind_res (checkdata_sum data (unat words) 0) (\<lambda>acc.
           let acc = drop_bit 16 acc + (acc AND 0xffff);
               acc = acc + drop_bit 16 acc
           in Inr (acc = 0xFFFF)))"

lemma unat_rd16_0: "unat (rd16 [a, b] 0) = unat a + 256 * unat b"
proof -
  have "le16 (htons (rd16 [a, b] 0)) = [b, a]"
    by (simp only: le16_htons le16_rd16) simp
  then have "net_val [b, a] = unat (rd16 [a, b] 0)"
    by (metis net_val_htons)
  then show ?thesis by simp
qed

lemma checkdata_sum_even:
  assumes "2 * n \<le> length data" and "unat s + 65535 * n < 2 ^ 32"
  shows "\<exists>r. checkdata_sum data n s = Inr r \<and> unat r = unat s + le_sum (take (2 * n) data)"
  using assms
proof (induction data n s rule: checkdata_sum.induct)
  case (2 a b data len acc)
  let ?s = "acc + ucast (rd16 [a, b] 0) :: u32"
  have w: "unat (ucast (rd16 [a, b] 0) :: u32) = unat a + 256 * unat b"
    using unat_byte_le [of a] unat_byte_le [of b]
    by (simp add: unsigned_ucast_eq take_bit_eq_mod unat_rd16_0)
  then have s: "unat ?s = unat acc + (unat a + 256 * unat b)"
    using "2.prems" unat_byte_le [of a] unat_byte_le [of b]
    by (simp add: unat_word_ariths)
  with "2.prems" have "unat ?s + 65535 * len < 2 ^ 32"
    using unat_byte_le [of a] unat_byte_le [of b] by simp
  with "2.prems" obtain r where "checkdata_sum data len ?s = Inr r"
      and "unat r = unat ?s + le_sum (take (2 * len) data)"
    using "2.IH" by auto
  with s show ?case by simp
qed simp_all

lemma fold_twice:
  assumes "unat (s :: u32) < 2 ^ 31"
  shows "(let t = drop_bit 16 s + (s AND 0xffff) in t + drop_bit 16 t) = 0xFFFF
    \<longleftrightarrow> oc_norm (unat s) = 65535"
proof -
  let ?q = "unat s div 65536" and ?r = "unat s mod 65536"
  let ?t = "drop_bit 16 s + (s AND 0xffff) :: u32"
  have q: "?q < 32768" using assms by simp
  have r: "?r < 65536" by simp
  have mask: "s AND 0xffff = take_bit 16 s"
    by (simp add: take_bit_eq_mask mask_eq_exp_minus_1)
  have "unat (drop_bit 16 s) = ?q" by (simp only: unat_drop_bit_eq) (simp add: drop_bit_eq_div)
  moreover have "unat (s AND 0xffff) = ?r"
    by (simp only: mask unsigned_take_bit_eq) (simp add: take_bit_eq_mod)
  ultimately have t: "unat ?t = ?q + ?r" using q r by (simp add: unat_word_ariths)
  have dt: "unat (drop_bit 16 ?t) = (?q + ?r) div 65536"
    by (simp only: unat_drop_bit_eq t) (simp add: drop_bit_eq_div)
  have tt: "unat (?t + drop_bit 16 ?t) = (?q + ?r) + (?q + ?r) div 65536"
  proof -
    have "unat ?t + unat (drop_bit 16 ?t) < 2 ^ LENGTH(32)"
      using q r unfolding t dt by simp
    then have "unat (?t + drop_bit 16 ?t) = unat ?t + unat (drop_bit 16 ?t)"
      by (rule unat_add_lem [THEN iffD1])
    then show ?thesis by (simp only: t dt)
  qed
  have d: "(?q + ?r) div 65536 = (if ?q + ?r < 65536 then 0 else 1)"
    using q r by (auto intro: div_nat_eqI)
  have s: "unat s = 65535 * ?q + (?q + ?r)" by simp
  have "(?t + drop_bit 16 ?t = 0xFFFF) \<longleftrightarrow> unat (?t + drop_bit 16 ?t) = 65535"
    by (simp add: word_unat_eq_iff)
  also have "\<dots> \<longleftrightarrow> ?q + ?r = 65535"
    unfolding tt d by (simp only: split: if_splits) linarith
  also have "\<dots> \<longleftrightarrow> ?q + ?r \<noteq> 0 \<and> 65535 dvd ?q + ?r"
  proof
    assume h: "?q + ?r \<noteq> 0 \<and> 65535 dvd ?q + ?r"
    then obtain k where k: "?q + ?r = 65535 * k" by (auto elim: dvdE)
    with h have "k \<noteq> 0" by (metis mult_0_right)
    moreover have "65535 * k < 2 * 65535" using k q r by linarith
    then have "k < 2" by simp
    ultimately have "k = 1" by simp
    with k show "?q + ?r = 65535" by (simp only: mult_1_right)
  qed (simp only:, simp)
  also have "\<dots> \<longleftrightarrow> unat s \<noteq> 0 \<and> 65535 dvd unat s"
  proof -
    have "65535 dvd 65535 * ?q + (?q + ?r) \<longleftrightarrow> 65535 dvd ?q + ?r"
      by (rule dvd_add_right_iff) (rule dvd_triv_left)
    moreover have "65535 * ?q + (?q + ?r) = 0 \<longleftrightarrow> ?q + ?r = 0" by (simp only: add_is_0 mult_is_0) linarith
    ultimately show ?thesis by (simp only: s [symmetric])
  qed
  finally show ?thesis by (simp only: Let_def oc_norm_eq_65535_iff)
qed

text \<open>What \<open>CheckData\<close> computes on an even length: no wrap-around in the 32-bit sum.\<close>

lemma CheckData_even:
  assumes "even (unat len)" and "unat len \<le> length data"
  shows "CheckData data len = Inr (oc_norm (be_sum (take (unat len) data)) = 65535)"
proof -
  let ?n = "unat len div 2"
  have len: "unat len < 65536" using unsigned_less [of len, where ?'a = nat] by simp
  have n: "2 * ?n = unat len" using assms(1) by simp
  have "len AND 1 = 0"
    using assms(1) by (simp add: and_one_eq even_iff_mod_2_eq_zero word_unat_eq_iff unat_mod_distrib)
  then have words: "unat (if len AND 1 = 0 then drop_bit 1 len else drop_bit 1 len + 1) = ?n"
    by (simp only: simp_thms if_True unat_drop_bit_div power_one_right)
  have "unat (0 :: u32) + 65535 * ?n < 2 ^ 32" using len by simp
  with n obtain r where r: "checkdata_sum data ?n 0 = Inr r" "unat r = le_sum (take (unat len) data)"
    using checkdata_sum_even [of ?n data 0] assms(2) by auto
  have "le_sum (take (unat len) data) \<le> 65535 * ((unat len + 1) div 2)"
    using le_sum_bound [of "take (unat len) data"] assms(2) by simp
  also have "\<dots> \<le> 65535 * 32768" using len by simp
  also have "\<dots> < 2 ^ 31" by simp
  finally have "unat r < 2 ^ 31" by (simp only: r)
  from fold_twice [OF this] r show ?thesis
    by (simp only: CheckData_def words Let_def bind_res_simps r oc_norm_le_be)
qed

text \<open>
  C28: On data of even length that lies inside its object, \<open>CheckData\<close> returns and accepts exactly the
  data whose one's complement sum over 16-bit words, in either byte order, is \<open>0xFFFF\<close>, that is
  whose integer sum is a positive multiple of 65535: the 32-bit accumulator never wraps around, and
  two folds without a final mask are enough.
\<close>

theorem CheckData_correct:
  assumes "even (unat len)" and "unat len \<le> length data"
  shows "CheckData data len = Inr (be_sum (take (unat len) data) \<noteq> 0
            \<and> 65535 dvd be_sum (take (unat len) data))
    \<and> CheckData data len = Inr (le_sum (take (unat len) data) \<noteq> 0
            \<and> 65535 dvd le_sum (take (unat len) data))"
  using CheckData_even [OF assms] oc_norm_le_be [of "take (unat len) data"]
  by (simp only: oc_norm_eq_65535_iff conj_absorb)

theorem CheckData_correct_witness:
  "CheckData [0x12, 0x34, 0xed, 0xcb] 4 = Inr True \<and> CheckData [0x12, 0x34, 0xed, 0xcc, 7] 4 = Inr False"
  using CheckData_correct [of 4 "[0x12, 0x34, 0xed, 0xcb]"]
    CheckData_correct [of 4 "[0x12, 0x34, 0xed, 0xcc, 7]"]
  by simp

lemma checkdata_sum_short:
  "length data < 2 * n \<Longrightarrow> checkdata_sum data n s = Inl OutOfBounds"
  by (induction data n s rule: checkdata_sum.induct) simp_all

text \<open>
  On data of odd length \<open>CheckData\<close> reads a whole word at the last byte: when the object ends
  with the data, the loop runs one byte past its end.
\<close>

theorem CheckData_odd_overread:
  assumes "odd (unat len)" and "length data = unat len"
  shows "CheckData data len = Inl OutOfBounds"
proof -
  have len: "unat len < 65536" using unsigned_less [of len, where ?'a = nat] by simp
  have "len AND 1 \<noteq> 0"
    using assms(1) by (simp add: and_one_eq word_unat_eq_iff unat_mod_distrib) presburger
  moreover have d: "unat (drop_bit 1 len) = unat len div 2"
    by (simp only: unat_drop_bit_div power_one_right)
  moreover have "unat (drop_bit 1 len + 1) = unat len div 2 + 1"
    using len by (simp only: unat_word_ariths d) simp
  ultimately have "unat (if len AND 1 = 0 then drop_bit 1 len else drop_bit 1 len + 1)
      = unat len div 2 + 1"
    by (simp only: if_False)
  moreover have "length data < 2 * (unat len div 2 + 1)" using assms by presburger
  ultimately show ?thesis
    by (simp only: CheckData_def Let_def checkdata_sum_short bind_res_simps)
qed

theorem CheckData_odd_overread_witness: "CheckData [1, 2, 3] 3 = Inl OutOfBounds"
  using CheckData_odd_overread [of 3 "[1, 2, 3]"] by simp

end
