(* ===== verification/EthernetUtils.thy ===== *)
theory EthernetUtils
  imports Checksum
begin

text \<open>
  \<open>socket/EthernetUtils.h\<close> and \<open>socket/EthernetUtils.cpp\<close>: parsing a MAC address, the MAC and IP
  address of an interface, multicast MAC addresses, UDP and ARP frames, and the checksums of a
  frame. MAC addresses returned as \<open>char*\<close> are blocks of the heap that the caller owns. The system
  calls that query an interface are the parameter \<open>interface_api\<close>.
\<close>

section \<open>StringToMAC\<close>

text \<open>
  \<open>sscanf\<close> of the C library on \<open>%02X\<close> (C11 7.21.6.2): leading white space is skipped; the input
  item is the longest prefix of at most two characters that is a prefix of an optionally signed
  hexadecimal number, and it must be a whole number.
\<close>

definition is_space :: "char \<Rightarrow> bool" where
  "is_space c \<longleftrightarrow> (let n = of_char c :: nat in n = 32 \<or> 9 \<le> n \<and> n \<le> 13)"

definition hex_value :: "char \<Rightarrow> nat option" where
  "hex_value c = (let n = of_char c :: nat in
     if 48 \<le> n \<and> n \<le> 57 then Some (n - 48)
     else if 65 \<le> n \<and> n \<le> 70 then Some (n - 55)
     else if 97 \<le> n \<and> n \<le> 102 then Some (n - 87)
     else None)"

definition scan_hex2 :: "string \<Rightarrow> (u32 \<times> string) option" where
  "scan_hex2 s = (case dropWhile is_space s of
       [] \<Rightarrow> None
     | c # r \<Rightarrow>
         if c = CHR ''+'' \<or> c = CHR ''-'' then
           (case r of
              [] \<Rightarrow> None
            | d # r' \<Rightarrow> map_option
                (\<lambda>v. (if c = CHR ''-'' then - of_nat v else of_nat v, r')) (hex_value d))
         else (case hex_value c of
             None \<Rightarrow> None
           | Some v \<Rightarrow>
               (case r of
                  [] \<Rightarrow> Some (of_nat v, [])
                | d # r' \<Rightarrow>
                    if c = CHR ''0'' \<and> (d = CHR ''x'' \<or> d = CHR ''X'') then None
                    else (case hex_value d of
                        None \<Rightarrow> Some (of_nat v, r)
                      | Some w \<Rightarrow> Some (of_nat (16 * v + w), r')))))"

text \<open>The values converted by \<open>n\<close> fields separated by colons, up to the first mismatch.\<close>

fun scan_fields :: "nat \<Rightarrow> string \<Rightarrow> u32 list" where
  "scan_fields 0 s = []"
| "scan_fields (Suc n) s = (case scan_hex2 s of
       None \<Rightarrow> []
     | Some (v, r) \<Rightarrow> v # (if n = 0 then [] else
         (case r of [] \<Rightarrow> [] | c # r' \<Rightarrow> if c = CHR '':'' then scan_fields n r' else [])))"

text \<open>The C string in a \<open>std::string\<close> ends at its first NUL.\<close>

definition c_str :: "string \<Rightarrow> string" where
  "c_str s = takeWhile (\<lambda>c. c \<noteq> CHR 0x00) s"

text \<open>Returns the null pointer, and leaks the block, when fewer than six fields convert.\<close>

definition StringToMAC ::
  "(nat \<Rightarrow> nat \<Rightarrow> byte) \<Rightarrow> string \<Rightarrow> byte list heap \<Rightarrow> (nat \<times> byte list heap) res" where
  "StringToMAC junk address h =
     (let (macAddress, h) = new_chars junk 6 h;
          fields = scan_fields 6 (c_str address)
      in if length fields \<noteq> 6 then Inr (0, h)
         else bind_res (heap_write macAddress (map ucast fields) h) (\<lambda>h. Inr (macAddress, h)))"

text \<open>The format the header documents: \<open>XX:XX:XX:XX:XX:XX\<close>.\<close>

definition hex_digit :: "nat \<Rightarrow> char" where
  "hex_digit n = ''0123456789ABCDEF'' ! n"

definition show_byte :: "byte \<Rightarrow> string" where
  "show_byte b = [hex_digit (unat b div 16), hex_digit (unat b mod 16)]"

fun show_mac :: "byte list \<Rightarrow> string" where
  "show_mac [] = ''''"
| "show_mac [b] = show_byte b"
| "show_mac (b # bs) = show_byte b @ '':'' @ show_mac bs"

lemma hex_digit_props:
  assumes "n < 16"
  shows "hex_value (hex_digit n) = Some n" "\<not> is_space (hex_digit n)"
    "hex_digit n \<notin> {CHR ''+'', CHR ''-'', CHR ''x'', CHR ''X'', CHR 0x00}"
proof -
  have "n \<in> set [0..<16]" using assms by simp
  also have "[0..<16] = [0, 1, 2, 3, 4, 5, 6, 7, 8, 9, 10, 11, 12, 13, 14, 15 :: nat]"
    by (simp add: upt_rec)
  finally show "hex_value (hex_digit n) = Some n" "\<not> is_space (hex_digit n)"
    "hex_digit n \<notin> {CHR ''+'', CHR ''-'', CHR ''x'', CHR ''X'', CHR 0x00}"
    by (auto simp: hex_digit_def hex_value_def is_space_def)
qed

lemma byte_nibbles: "unat (b :: byte) div 16 < 16" "unat b mod 16 < 16"
  using unat_byte_le [of b] by simp_all

lemma scan_show_byte: "scan_hex2 (show_byte b @ r) = Some (ucast b, r)"
proof -
  let ?v = "unat b div 16" and ?w = "unat b mod 16"
  note v = hex_digit_props [OF byte_nibbles(1) [of b]]
  note w = hex_digit_props [OF byte_nibbles(2) [of b]]
  have "16 * ?v + ?w = unat b" by simp
  then have "of_nat (16 * ?v + ?w) = (ucast b :: u32)" by (simp only: of_nat_unat)
  with v w show ?thesis by (simp add: scan_hex2_def show_byte_def)
qed

lemma scan_show_mac:
  "bs \<noteq> [] \<Longrightarrow> scan_fields (length bs) (show_mac bs @ r) = map ucast bs"
proof (induction bs rule: show_mac.induct)
  case (2 b)
  then show ?case by (simp add: scan_show_byte)
next
  case (3 b c bs)
  then have "scan_fields (Suc (length bs)) (show_mac (c # bs) @ r) = map ucast (c # bs)" by simp
  then show ?case by (simp add: scan_show_byte del: scan_fields.simps(2))
     (simp add: scan_show_byte)
qed simp

lemma c_str_show_byte: "c_str (show_byte b @ s) = show_byte b @ c_str s"
  using hex_digit_props(3) [OF byte_nibbles(1) [of b]] hex_digit_props(3) [OF byte_nibbles(2) [of b]]
  by (simp add: c_str_def show_byte_def)

lemma c_str_show_mac: "c_str (show_mac bs @ s) = show_mac bs @ c_str s"
  by (induction bs rule: show_mac.induct) (simp_all add: c_str_show_byte, simp_all add: c_str_def)

lemma ucast_u32_byte: "ucast (ucast (b :: byte) :: u32) = b"
  by (rule bit_word_eqI) (auto simp: bit_simps)

lemma StringToMAC_six:
  assumes "length (scan_fields 6 (c_str address)) = 6" and "heap_ok h"
  shows "StringToMAC junk address h = Inr (fresh h,
    h\<lparr>fresh := Suc (fresh h),
      live := (live h)(fresh h \<mapsto> map ucast (scan_fields 6 (c_str address)))\<rparr>)"
  using assms
  by (simp add: StringToMAC_def new_chars_def heap_new_def heap_write_def heap_read_def heap_ok_def)

text \<open>
  C33: \<open>StringToMAC\<close> reads back every MAC address written in the documented format, whatever follows
  it: the result points to a fresh block with exactly the six bytes.
\<close>

theorem StringToMAC_roundtrip:
  assumes "length m = 6" and "heap_ok h"
  shows "\<exists>p h'. StringToMAC junk (show_mac m @ rest) h = Inr (p, h')
    \<and> p \<noteq> 0 \<and> live h p = None \<and> live h' = (live h)(p \<mapsto> m) \<and> heap_ok h'"
proof -
  have "m \<noteq> []" using assms(1) by auto
  then have "scan_fields 6 (c_str (show_mac m @ rest)) = map ucast m"
    using scan_show_mac [of m "c_str rest"] assms(1) by (simp add: c_str_show_mac)
  moreover have "map ucast (map ucast m :: u32 list) = m"
    by (simp add: comp_def map_idI ucast_u32_byte)
  ultimately have "StringToMAC junk (show_mac m @ rest) h
    = Inr (fresh h, h\<lparr>fresh := Suc (fresh h), live := (live h)(fresh h \<mapsto> m)\<rparr>)"
    using StringToMAC_six [of "show_mac m @ rest" h junk] assms by simp
  with assms(2) show ?thesis
    by (auto simp: heap_ok_def less_Suc_eq)
qed

theorem StringToMAC_roundtrip_witness:
  "\<exists>p h'. StringToMAC (\<lambda>_ _. 0) (show_mac [0, 0x1b, 0x21, 0xab, 0xcd, 0xef] @ ''/24'')
        \<lparr>fresh = 1, live = Map.empty\<rparr> = Inr (p, h')
      \<and> live h' p = Some [0, 0x1b, 0x21, 0xab, 0xcd, 0xef]"
proof -
  have "length [0, 0x1b, 0x21, 0xab, 0xcd, 0xef :: byte] = 6"
    and "heap_ok \<lparr>fresh = 1, live = Map.empty\<rparr>" by (simp_all add: heap_ok_def)
  from StringToMAC_roundtrip [OF this, of "\<lambda>_ _. 0" "''/24''"] show ?thesis by auto
qed

section \<open>The MAC and IP address of an interface\<close>

definition npos :: u64 where "npos = - 1"

definition string_find :: "char \<Rightarrow> string \<Rightarrow> u64" where
  "string_find c s = (if c \<in> set s then of_nat (length (takeWhile (\<lambda>x. x \<noteq> c) s)) else npos)"

text \<open>The two substrings taken for names formatted like \<open>dna:ethX\<close> and \<open>ethX@Y\<close>, with the 64-bit
  arithmetic of \<open>std::string\<close>: when the separator is missing, \<open>npos + 1\<close> is 0.\<close>

definition strip_prefix :: "string \<Rightarrow> string" where
  "strip_prefix iface =
     (if string_find (CHR '':'') iface > 0
      then drop (unat (string_find (CHR '':'') iface + 1)) iface else iface)"

definition strip_suffix :: "string \<Rightarrow> string" where
  "strip_suffix iface =
     (if string_find (CHR ''@'') iface > 0
      then take (unat (string_find (CHR ''@'') iface)) iface else iface)"

text \<open>
  The two \<open>ioctl\<close> calls of the system, by interface name: the 14 bytes of \<open>sa_data\<close> and the address
  in network byte order, or \<open>None\<close> when the call fails and leaves the request unchanged.
\<close>

record interface_api =
  ioctl_SIOCGIFHWADDR :: "string \<Rightarrow> (nat \<Rightarrow> byte) option"
  ioctl_SIOCGIFADDR :: "string \<Rightarrow> u32 option"

text \<open>
  The request is zeroed first; \<open>strcpy\<close> into the 16 bytes of \<open>ifr_name\<close> overflows when the name
  with its NUL is longer. A failed call leaves the zeros.
\<close>

definition GetMacOfInterface :: "interface_api \<Rightarrow> string \<Rightarrow> byte list res" where
  "GetMacOfInterface api iface =
     (let name = c_str (strip_suffix (strip_prefix iface))
      in if length name + 1 > 16 then Inl OutOfBounds
         else Inr (case ioctl_SIOCGIFHWADDR api name of
             None \<Rightarrow> replicate 6 0
           | Some sa_data \<Rightarrow> map sa_data [0..<6]))"

text \<open>
  Here the request is not zeroed and \<open>strncpy\<close> copies at most 15 characters (the kernel ends the name
  at byte 15). When the call fails the result is the indeterminate \<open>junk\<close> of the request.
\<close>

definition GetIPOfInterface :: "interface_api \<Rightarrow> u32 \<Rightarrow> string \<Rightarrow> u32" where
  "GetIPOfInterface api junk iface =
     (let name = take 15 (c_str (strip_suffix (strip_prefix iface)))
      in case ioctl_SIOCGIFADDR api name of None \<Rightarrow> junk | Some s_addr \<Rightarrow> s_addr)"

lemma string_find_at:
  "c \<notin> set p \<Longrightarrow> length p < 2 ^ 64 \<Longrightarrow> unat (string_find c (p @ c # s)) = length p"
proof -
  assume h: "c \<notin> set p" "length p < 2 ^ 64"
  then have "takeWhile (\<lambda>x. x \<noteq> c) (p @ c # s) = p" by (subst takeWhile_append2) auto
  with h show "unat (string_find c (p @ c # s)) = length p"
    by (simp add: string_find_def unat_of_nat)
qed

lemma strip_prefix_none: "CHR '':'' \<notin> set s \<Longrightarrow> strip_prefix s = s"
  by (simp add: strip_prefix_def string_find_def npos_def)

lemma strip_suffix_none: "CHR ''@'' \<notin> set s \<Longrightarrow> length s < 2 ^ 64 \<Longrightarrow> strip_suffix s = s"
  by (simp add: strip_suffix_def string_find_def npos_def unsigned_minus_1_eq_mask mask_eq_exp_minus_1)

lemma strip_prefix_some:
  assumes "CHR '':'' \<notin> set p" and "p \<noteq> []" and "length p + 1 < 2 ^ 64"
  shows "strip_prefix (p @ CHR '':'' # s) = s"
proof -
  let ?f = "string_find (CHR '':'') (p @ CHR '':'' # s)"
  have f: "unat ?f = length p" using assms by (intro string_find_at) simp_all
  then have "?f > 0" using assms(2) by (simp add: word_less_nat_alt)
  moreover have "unat (?f + 1) = length p + 1"
    using f assms(3) by (simp add: unat_word_ariths)
  ultimately show ?thesis by (simp add: strip_prefix_def)
qed

lemma strip_suffix_some:
  assumes "CHR ''@'' \<notin> set e" and "e \<noteq> []" and "length e < 2 ^ 64"
  shows "strip_suffix (e @ CHR ''@'' # q) = e"
proof -
  let ?f = "string_find (CHR ''@'') (e @ CHR ''@'' # q)"
  have f: "unat ?f = length e" using assms by (intro string_find_at) simp_all
  then have "?f > 0" using assms(2) by (simp add: word_less_nat_alt)
  with f show ?thesis by (simp add: strip_suffix_def)
qed

text \<open>
  For an interface \<open>e\<close> with a name of 1 to 15 characters, the MAC address and the IP address are
  those the system reports for \<open>e\<close>, whether the device is given as \<open>e\<close>, \<open>dna:e\<close>, \<open>e@q\<close> or
  \<open>dna:e@q\<close>.
\<close>

theorem interface_name_forms:
  assumes e: "e \<noteq> []" "length e \<le> 15" "set e \<inter> {CHR '':'', CHR ''@'', CHR 0x00} = {}"
    and p: "p \<noteq> []" "CHR '':'' \<notin> set p" "length p < 2 ^ 32"
    and q: "CHR '':'' \<notin> set q"
    and dev: "dev \<in> {e, p @ '':'' @ e, e @ ''@'' @ q, p @ '':'' @ e @ ''@'' @ q}"
    and mac: "ioctl_SIOCGIFHWADDR api e = Some sa_data"
    and addr: "ioctl_SIOCGIFADDR api e = Some s_addr"
  shows "GetMacOfInterface api dev = Inr (map sa_data [0..<6])
    \<and> GetIPOfInterface api junk dev = s_addr"
proof -
  have c: "CHR '':'' \<notin> set e" "CHR ''@'' \<notin> set e" "CHR 0x00 \<notin> set e" using e(3) by auto
  have pre: "strip_prefix (p @ '':'' @ s) = s" for s
    using strip_prefix_some [of p s] p by simp
  have suf: "strip_suffix (e @ ''@'' @ q) = e" "strip_suffix e = e"
    using strip_suffix_some [of e q] strip_suffix_none [of e] e c by simp_all
  have "strip_prefix e = e" "strip_prefix (e @ ''@'' @ q) = e @ ''@'' @ q"
    using c q by (simp_all add: strip_prefix_none)
  with dev pre suf have name: "strip_suffix (strip_prefix dev) = e" by auto
  have "c_str e = e" using c(3) by (auto simp: c_str_def takeWhile_eq_all_conv)
  with name e mac addr show ?thesis
    by (simp add: GetMacOfInterface_def GetIPOfInterface_def)
qed

theorem interface_name_forms_witness:
  "GetMacOfInterface \<lparr>ioctl_SIOCGIFHWADDR = (\<lambda>s. if s = ''eth2'' then Some (\<lambda>i. of_nat i + 1) else None),
       ioctl_SIOCGIFADDR = (\<lambda>s. if s = ''eth2'' then Some 0x0100000a else None)\<rparr> ''dna:eth2@1''
     = Inr [1, 2, 3, 4, 5, 6]"
  using interface_name_forms [of "''eth2''" "''dna''" "''1''" "''dna:eth2@1''"
      "\<lparr>ioctl_SIOCGIFHWADDR = (\<lambda>s. if s = ''eth2'' then Some (\<lambda>i. of_nat i + 1) else None),
        ioctl_SIOCGIFADDR = (\<lambda>s. if s = ''eth2'' then Some 0x0100000a else None)\<rparr>"
      "\<lambda>i. of_nat i + 1" "0x0100000a" 0]
  by (simp add: upt_rec)

end
