(* ===== verification/FrameUtils.thy ===== *)
theory FrameUtils
  imports EthernetUtils
begin

text \<open>
  The frame builders and frame checksums of \<open>socket/EthernetUtils.h\<close> and
  \<open>socket/EthernetUtils.cpp\<close>: \<open>GenerateMulticastMac\<close>, \<open>GenerateUDP\<close>, the ARP frames,
  \<open>GenerateChecksum\<close>, \<open>GenerateUDPChecksum\<close>, \<open>CheckUDP\<close> and \<open>ipToString\<close>.
\<close>

section \<open>Multicast MAC addresses\<close>

definition GenerateMulticastMac ::
  "(nat \<Rightarrow> nat \<Rightarrow> byte) \<Rightarrow> u32 \<Rightarrow> byte list heap \<Rightarrow> (nat \<times> byte list heap) res" where
  "GenerateMulticastMac junk multicastGroup h =
     (let (macAddress, h) = new_chars junk 6 h;
          multicastIP = multicastGroup AND 0xffff7f00
      in bind_res (heap_write macAddress ([0x01, 0x00, 0x5e] @ take 3 (drop 1 (le32 multicastIP))) h)
           (\<lambda>h. Inr (macAddress, h)))"

lemma mask_7f: "ucast (drop_bit 8 (w AND 0xffff7f00 :: u32)) = (ucast (drop_bit 8 w) AND 0x7f :: byte)"
proof (rule bit_word_eqI)
  fix n assume "n < LENGTH(8)"
  then have "n \<in> {0, 1, 2, 3, 4, 5, 6, 7}" by auto
  then show "bit (ucast (drop_bit 8 (w AND 0xffff7f00 :: u32)) :: byte) n
      = bit (ucast (drop_bit 8 w) AND 0x7f :: byte) n"
    by (auto simp: bit_simps)
qed

lemma mask_ffff:
  "ucast (drop_bit 16 (w AND 0xffff7f00 :: u32)) = (ucast (drop_bit 16 w) :: byte)"
  "ucast (drop_bit 24 (w AND 0xffff7f00 :: u32)) = (ucast (drop_bit 24 w) :: byte)"
proof -
  show "ucast (drop_bit 16 (w AND 0xffff7f00 :: u32)) = (ucast (drop_bit 16 w) :: byte)"
  proof (rule bit_word_eqI)
    fix n assume "n < LENGTH(8)"
    then have "n \<in> {0, 1, 2, 3, 4, 5, 6, 7}" by auto
    then show "bit (ucast (drop_bit 16 (w AND 0xffff7f00 :: u32)) :: byte) n
        = bit (ucast (drop_bit 16 w) :: byte) n"
      by (auto simp: bit_simps)
  qed
  show "ucast (drop_bit 24 (w AND 0xffff7f00 :: u32)) = (ucast (drop_bit 24 w) :: byte)"
  proof (rule bit_word_eqI)
    fix n assume "n < LENGTH(8)"
    then have "n \<in> {0, 1, 2, 3, 4, 5, 6, 7}" by auto
    then show "bit (ucast (drop_bit 24 (w AND 0xffff7f00 :: u32)) :: byte) n
        = bit (ucast (drop_bit 24 w) :: byte) n"
      by (auto simp: bit_simps)
  qed
qed

lemma GenerateMulticastMac_ok:
  assumes "heap_ok h" and "le32 multicastGroup = [a, b, c, d]"
  shows "\<exists>p h'. GenerateMulticastMac junk multicastGroup h = Inr (p, h')
    \<and> p \<noteq> 0 \<and> live h p = None \<and> live h' = (live h)(p \<mapsto> [0x01, 0x00, 0x5e, b AND 0x7f, c, d])
    \<and> heap_ok h'"
proof -
  have "le32 (multicastGroup AND 0xffff7f00)
      = [ucast (multicastGroup AND 0xffff7f00), ucast (drop_bit 8 multicastGroup) AND 0x7f,
         ucast (drop_bit 16 multicastGroup), ucast (drop_bit 24 multicastGroup)]"
    by (simp only: le32_def mask_7f mask_ffff)
  then have "take 3 (drop 1 (le32 (multicastGroup AND 0xffff7f00))) = [b AND 0x7f, c, d]"
    using assms(2) by (simp add: le32_def)
  then show ?thesis
    using assms(1)
    by (auto simp: GenerateMulticastMac_def new_chars_def heap_new_def heap_write_def heap_read_def
        heap_ok_def less_Suc_eq)
qed

text \<open>
  The MAC address for the IPv4 multicast group \<open>a.b.c.d\<close> (in network byte order in memory) is
  \<open>01:00:5e\<close>, a zero bit, and the last 23 bits of the group, in a fresh block of the heap.
\<close>

theorem GenerateMulticastMac_rfc1112:
  assumes "heap_ok h" and "le32 multicastGroup = [a, b, c, d]"
  shows "\<exists>p h'. GenerateMulticastMac junk multicastGroup h = Inr (p, h')
    \<and> p \<noteq> 0 \<and> live h p = None \<and> live h' = (live h)(p \<mapsto> [0x01, 0x00, 0x5e, b AND 0x7f, c, d])
    \<and> heap_ok h'"
  by (rule GenerateMulticastMac_ok [OF assms])

theorem GenerateMulticastMac_rfc1112_witness:
  "\<exists>p h'. GenerateMulticastMac (\<lambda>_ _. 0) 0x0302fff0 \<lparr>fresh = 1, live = Map.empty\<rparr> = Inr (p, h')
     \<and> live h' p = Some [0x01, 0x00, 0x5e, 0x7f, 2, 3]"
proof -
  have "heap_ok \<lparr>fresh = 1, live = Map.empty\<rparr>" and "le32 0x0302fff0 = [0xf0, 0xff, 2, 3]"
    by (simp_all add: heap_ok_def le32_def)
  from GenerateMulticastMac_rfc1112 [OF this, of "\<lambda>_ _. 0"] show ?thesis by auto
qed

section \<open>UDP frames\<close>

text \<open>
  The assignments of \<open>GenerateUDP\<close> through the pointer to the header: \<open>ETHERTYPE_IP\<close> is \<open>0x0800\<close>,
  \<open>IPPROTO_UDP\<close> is 17. The length fields and the identification of the flow are left to
  \<open>setPayloadSize\<close>; \<open>ip.check\<close> is not touched.
\<close>

definition udp_fields ::
  "byte list \<Rightarrow> byte list \<Rightarrow> u32 \<Rightarrow> u32 \<Rightarrow> u16 \<Rightarrow> u16 \<Rightarrow> UDP_HDR \<Rightarrow> UDP_HDR" where
  "udp_fields dMac myMac myIP dIP sPort dPort hdr =
     hdr\<lparr>eth := (eth hdr)\<lparr>ether_type := htons 0x0800, ether_dhost := dMac, ether_shost := myMac\<rparr>,
         ip := (ip hdr)\<lparr>protocol := 17, version := 4, ihl := 5, tos := 0, ip_id := 0,
                 frag_off := htons IP_DF, ttl := 128, saddr := myIP, daddr := dIP\<rparr>,
         udp := (udp hdr)\<lparr>dest := htons dPort, source := htons sPort, udp_check := 0\<rparr>\<rparr>"

text \<open>
  \<open>myMac\<close> and \<open>myIP\<close> are what \<open>NetworkHandler::GetMyMac\<close> and \<open>GetMyIP\<close> return. The destination MAC
  is a block of the heap, copied and then deleted; \<open>buffer\<close> is the object written to.
\<close>

definition GenerateUDP ::
  "byte list \<Rightarrow> u32 \<Rightarrow> byte list \<Rightarrow> nat \<Rightarrow> u32 \<Rightarrow> u16 \<Rightarrow> u16 \<Rightarrow> byte list heap
     \<Rightarrow> (byte list \<times> byte list heap) res" where
  "GenerateUDP myMac myIP buffer dMacAddr dIP sPort dPort h =
     bind_res (heap_read dMacAddr h) (\<lambda>dMac.
     bind_res (guard_res (6 \<le> length dMac \<and> 6 \<le> length myMac) OutOfBounds) (\<lambda>_.
     bind_res (overlay pack_UDP_HDR unpack_UDP_HDR 42
         (udp_fields (take 6 dMac) (take 6 myMac) myIP dIP sPort dPort) buffer) (\<lambda>buffer.
     bind_res (heap_delete dMacAddr h) (\<lambda>h.
     Inr (buffer, h)))))"

lemma GenerateUDP_ok:
  assumes "heap_ok h" and "live h p = Some dMac" and "length dMac = 6" and "length myMac = 6"
    and "42 \<le> length buffer"
  shows "GenerateUDP myMac myIP buffer p dIP sPort dPort h
    = Inr (pack_UDP_HDR (udp_fields dMac myMac myIP dIP sPort dPort (unpack_UDP_HDR buffer))
             @ drop 42 buffer,
           h\<lparr>live := (live h)(p := None)\<rparr>)"
  using assms by (simp add: GenerateUDP_def heap_read_live heap_delete_live overlay_def)

lemma valid_udp_fields:
  "length dMac = 6 \<Longrightarrow> length myMac = 6 \<Longrightarrow> valid_UDP_HDR (udp_fields dMac myMac myIP dIP s d h)"
  by (simp add: udp_fields_def valid_UDP_HDR_def valid_ether_header_def)

text \<open>
  C25: Given a live MAC block and a configured interface, \<open>GenerateUDP\<close> writes into the first 42 bytes
  of the buffer the header of an unfragmented IPv4/UDP frame from this host to \<open>dIP\<close>, keeps the rest
  of the buffer and frees the MAC block, and nothing else, exactly once.
\<close>

theorem GenerateUDP_header:
  assumes "heap_ok h" and "live h p = Some dMac" and "length dMac = 6" and "length myMac = 6"
    and "42 \<le> length buffer"
  shows "\<exists>hdr h'. GenerateUDP myMac myIP buffer p dIP sPort dPort h = Inr (pack_UDP_HDR hdr @ drop 42 buffer, h')
    \<and> valid_UDP_HDR hdr
    \<and> ether_dhost (eth hdr) = dMac \<and> ether_shost (eth hdr) = myMac
    \<and> ntohs (ether_type (eth hdr)) = 0x0800
    \<and> pack_iphdr (ip hdr) ! 0 = 0x45 \<and> protocol (ip hdr) = 17
    \<and> saddr (ip hdr) = myIP \<and> daddr (ip hdr) = dIP
    \<and> ntohs (source (udp hdr)) = sPort \<and> ntohs (dest (udp hdr)) = dPort
    \<and> \<not> isFragment hdr
    \<and> live h' = (live h)(p := None) \<and> heap_ok h'"
proof -
  let ?hdr = "udp_fields dMac myMac myIP dIP sPort dPort (unpack_UDP_HDR buffer)"
  have "pack_iphdr (ip ?hdr) ! 0 = 0x45"
    by (simp add: udp_fields_def pack_iphdr_def)
  moreover have "\<not> isFragment ?hdr"
    by (simp add: udp_fields_def isFragment_def IP_DF_def IP_OFFMASK_def IP_MF_def)
  moreover have "heap_ok (h\<lparr>live := (live h)(p := None)\<rparr>)"
    using assms(1) by (rule heap_ok_upd)
  ultimately show ?thesis
    using GenerateUDP_ok [OF assms] valid_udp_fields [OF assms(3,4)]
    by (intro exI [of _ ?hdr] exI [of _ "h\<lparr>live := (live h)(p := None)\<rparr>"])
       (simp add: udp_fields_def)
qed

theorem GenerateUDP_header_witness:
  "\<exists>hdr h'. GenerateUDP [2, 4, 6, 8, 10, 12] 0x0100000a (replicate 54 0) 1 0x030201e0 58913 58915
        \<lparr>fresh = 2, live = [1 \<mapsto> [1, 0, 0x5e, 1, 2, 3]]\<rparr> = Inr (pack_UDP_HDR hdr @ replicate 12 0, h')
      \<and> \<not> isFragment hdr \<and> live h' = Map.empty"
proof -
  have "heap_ok \<lparr>fresh = 2, live = [1 \<mapsto> [1, 0, 0x5e, 1, 2, 3]]\<rparr>"
    by (simp add: heap_ok_def)
  from GenerateUDP_header [OF this, of 1 "[1, 0, 0x5e, 1, 2, 3]" "[2, 4, 6, 8, 10, 12]"
      "replicate 54 0" "0x0100000a" "0x030201e0" 58913 58915]
  show ?thesis by fastforce
qed

text \<open>
  A null MAC pointer, which \<open>StringToMAC\<close> returns for a malformed address, is dereferenced.
\<close>

theorem GenerateUDP_null_mac:
  assumes "length (scan_fields 6 (c_str address)) \<noteq> 6"
  shows "\<exists>h'. StringToMAC junk address h = Inr (0, h')
    \<and> live h' = (live h)(fresh h \<mapsto> map (junk (fresh h)) [0..<6])
    \<and> GenerateUDP myMac myIP buffer 0 dIP sPort dPort h' = Inl NullDeref"
  using assms
  by (simp add: StringToMAC_def new_chars_def heap_new_def GenerateUDP_def heap_read_def)

theorem GenerateUDP_null_mac_witness:
  "\<exists>h'. StringToMAC (\<lambda>_ _. 0) ''00:11:22:33:44'' \<lparr>fresh = 1, live = Map.empty\<rparr> = Inr (0, h')
     \<and> GenerateUDP [2, 4, 6, 8, 10, 12] 1 (replicate 54 0) 0 2 3 4 h' = Inl NullDeref"
proof -
  have "length (scan_fields 6 (c_str ''00:11:22:33:44'')) \<noteq> 6"
    by (simp add: c_str_def eval_nat_numeral scan_hex2_def hex_value_def is_space_def)
  from GenerateUDP_null_mac [OF this, of "\<lambda>_ _. 0" "\<lparr>fresh = 1, live = Map.empty\<rparr>"
      "[2, 4, 6, 8, 10, 12]" 1 "replicate 54 0" 2 3 4]
  show ?thesis by blast
qed

section \<open>ARP frames\<close>

text \<open>
  The fields of \<open>DataContainer\<close> (\<open>structs/DataContainer.h\<close> of na62-farm-lib) that the library's
  initialisers \<open>{ data, length, ownerMayFreeData }\<close> name: a pointer to a block of the heap, the
  number of bytes to send and whether the sender deletes the block.
\<close>

record DataContainer =
  dc_data :: nat
  dc_length :: nat
  ownerMayFreeData :: bool

definition arp_fields ::
  "byte list \<Rightarrow> byte list \<Rightarrow> u32 \<Rightarrow> u32 \<Rightarrow> u16 \<Rightarrow> ARP_HDR \<Rightarrow> ARP_HDR" where
  "arp_fields sourceMac targetMac sourceIP targetIP operation hdr =
     hdr\<lparr>arp_eth := (arp_eth hdr)\<lparr>ether_dhost := targetMac, ether_shost := sourceMac,
            ether_type := htons 0x0806\<rparr>,
         arp := (arp hdr)\<lparr>ar_hrd := htons 1, ar_pro := htons 0x0800, ar_hln := 6, ar_pln := 4,
            ar_op := htons operation\<rparr>,
         sourceHardwAddr := sourceMac, sourceIPAddr := sourceIP,
         targetHardwAddr := targetMac, targetIPAddr := targetIP\<rparr>"

text \<open>64 bytes are allocated, the 42 of the header are written and sent.\<close>

definition GenerateARPv4 ::
  "(nat \<Rightarrow> nat \<Rightarrow> byte) \<Rightarrow> byte list \<Rightarrow> byte list \<Rightarrow> u32 \<Rightarrow> u32 \<Rightarrow> u16 \<Rightarrow> byte list heap
     \<Rightarrow> (DataContainer \<times> byte list heap) res" where
  "GenerateARPv4 junk sourceMac targetMac sourceIP targetIP operation h =
     (let (p, h) = new_chars junk 64 h
      in bind_res (guard_res (6 \<le> length sourceMac \<and> 6 \<le> length targetMac) OutOfBounds) (\<lambda>_.
         bind_res (heap_read p h) (\<lambda>block.
         bind_res (overlay pack_ARP_HDR unpack_ARP_HDR 42
           (arp_fields (take 6 sourceMac) (take 6 targetMac) sourceIP targetIP operation) block) (\<lambda>block.
         bind_res (heap_write p block h) (\<lambda>h.
         Inr (\<lparr>dc_data = p, dc_length = 42, ownerMayFreeData = True\<rparr>, h))))))"

definition GenerateGratuitousARPv4 ::
  "(nat \<Rightarrow> nat \<Rightarrow> byte) \<Rightarrow> byte list \<Rightarrow> u32 \<Rightarrow> byte list heap
     \<Rightarrow> (DataContainer \<times> byte list heap) res" where
  "GenerateGratuitousARPv4 junk sourceMac sourceIP h =
     GenerateARPv4 junk sourceMac (replicate 6 0) sourceIP sourceIP 1 h"

lemma GenerateARPv4_ok:
  assumes "heap_ok h" and "length sourceMac = 6" and "length targetMac = 6"
  obtains hdr rest where
    "GenerateARPv4 junk sourceMac targetMac sourceIP targetIP operation h =
       Inr (\<lparr>dc_data = fresh h, dc_length = 42, ownerMayFreeData = True\<rparr>,
            h\<lparr>fresh := Suc (fresh h), live := (live h)(fresh h \<mapsto> pack_ARP_HDR hdr @ rest)\<rparr>)"
    "valid_ARP_HDR hdr" "length rest = 22"
    "hdr = \<lparr>arp_eth = \<lparr>ether_dhost = targetMac, ether_shost = sourceMac, ether_type = htons 0x0806\<rparr>,
      arp = \<lparr>ar_hrd = htons 1, ar_pro = htons 0x0800, ar_hln = 6, ar_pln = 4, ar_op = htons operation\<rparr>,
      sourceHardwAddr = sourceMac, sourceIPAddr = sourceIP,
      targetHardwAddr = targetMac, targetIPAddr = targetIP\<rparr>"
proof
  let ?block = "map (junk (fresh h)) [0..<64]"
  show "length (drop 42 ?block) = 22" by simp
  show "GenerateARPv4 junk sourceMac targetMac sourceIP targetIP operation h =
     Inr (\<lparr>dc_data = fresh h, dc_length = 42, ownerMayFreeData = True\<rparr>,
       h\<lparr>fresh := Suc (fresh h), live := (live h)(fresh h \<mapsto> pack_ARP_HDR
         \<lparr>arp_eth = \<lparr>ether_dhost = targetMac, ether_shost = sourceMac, ether_type = htons 0x0806\<rparr>,
          arp = \<lparr>ar_hrd = htons 1, ar_pro = htons 0x0800, ar_hln = 6, ar_pln = 4, ar_op = htons operation\<rparr>,
          sourceHardwAddr = sourceMac, sourceIPAddr = sourceIP,
          targetHardwAddr = targetMac, targetIPAddr = targetIP\<rparr> @ drop 42 ?block)\<rparr>)"
    using assms
    by (simp add: GenerateARPv4_def new_chars_def heap_new_def heap_read_def heap_write_def
        overlay_def heap_ok_def arp_fields_def unpack_ARP_HDR_def unpack_defs del: drop_map)
qed (use assms in \<open>simp_all add: valid_ARP_HDR_def valid_ether_header_def\<close>)

text \<open>
  A gratuitous ARP frame is an Ethernet/IPv4 ARP request of 42 bytes in a fresh 64-byte block that
  the sender may free; it announces the host's own address as sender and target, and its Ethernet
  destination and target hardware address are all zeros (not the broadcast address).
\<close>

theorem GratuitousARP_frame:
  assumes "heap_ok h" and "length mac = 6"
  shows "\<exists>hdr rest h'. GenerateGratuitousARPv4 junk mac myIP h
      = Inr (\<lparr>dc_data = fresh h, dc_length = 42, ownerMayFreeData = True\<rparr>, h')
    \<and> live h' = (live h)(fresh h \<mapsto> pack_ARP_HDR hdr @ rest) \<and> length (pack_ARP_HDR hdr @ rest) = 64
    \<and> heap_ok h'
    \<and> ntohs (ether_type (arp_eth hdr)) = 0x0806 \<and> ntohs (ar_op (arp hdr)) = 1
    \<and> ether_dhost (arp_eth hdr) = [0, 0, 0, 0, 0, 0] \<and> ether_shost (arp_eth hdr) = mac
    \<and> sourceHardwAddr hdr = mac \<and> targetHardwAddr hdr = [0, 0, 0, 0, 0, 0]
    \<and> sourceIPAddr hdr = myIP \<and> targetIPAddr hdr = myIP"
proof -
  have "length (replicate 6 0 :: byte list) = 6" by simp
  from GenerateARPv4_ok [OF assms this, of junk myIP myIP 1] obtain hdr rest where
    gen: "GenerateARPv4 junk mac (replicate 6 0) myIP myIP 1 h =
       Inr (\<lparr>dc_data = fresh h, dc_length = 42, ownerMayFreeData = True\<rparr>,
            h\<lparr>fresh := Suc (fresh h), live := (live h)(fresh h \<mapsto> pack_ARP_HDR hdr @ rest)\<rparr>)"
    and v: "valid_ARP_HDR hdr" "length rest = 22"
    and hdr: "hdr = \<lparr>arp_eth = \<lparr>ether_dhost = replicate 6 0, ether_shost = mac, ether_type = htons 0x0806\<rparr>,
      arp = \<lparr>ar_hrd = htons 1, ar_pro = htons 0x0800, ar_hln = 6, ar_pln = 4, ar_op = htons 1\<rparr>,
      sourceHardwAddr = mac, sourceIPAddr = myIP, targetHardwAddr = replicate 6 0, targetIPAddr = myIP\<rparr>"
    by metis
  have "replicate 6 0 = [0, 0, 0, 0, 0, 0 :: byte]" by (simp add: eval_nat_numeral)
  then show ?thesis
    using assms gen v
    by (intro exI [of _ hdr] exI [of _ rest]
        exI [of _ "h\<lparr>fresh := Suc (fresh h), live := (live h)(fresh h \<mapsto> pack_ARP_HDR hdr @ rest)\<rparr>"])
       (auto simp: GenerateGratuitousARPv4_def hdr arp_hdr.length_pack heap_ok_def less_Suc_eq)
qed

theorem GratuitousARP_frame_witness:
  "\<exists>hdr rest h'. GenerateGratuitousARPv4 (\<lambda>_ _. 0xee) [2, 4, 6, 8, 10, 12] 0x0100000a
        \<lparr>fresh = 1, live = Map.empty\<rparr>
      = Inr (\<lparr>dc_data = 1, dc_length = 42, ownerMayFreeData = True\<rparr>, h')
    \<and> live h' 1 = Some (pack_ARP_HDR hdr @ rest) \<and> ether_dhost (arp_eth hdr) = [0, 0, 0, 0, 0, 0]"
proof -
  have "heap_ok \<lparr>fresh = 1, live = Map.empty\<rparr>" and "length [2, 4, 6, 8, 10, 12 :: byte] = 6"
    by (simp_all add: heap_ok_def)
  from GratuitousARP_frame [OF this, of "\<lambda>_ _. 0xee" "0x0100000a"] show ?thesis by fastforce
qed

section \<open>Checksums of a frame\<close>

definition GenerateChecksum :: "checksum_api \<Rightarrow> byte list \<Rightarrow> u32 \<Rightarrow> u16" where
  "GenerateChecksum cs data initial = dc_GenerateChecksum cs data initial"

text \<open>\<open>hdr->udp.check = c\<close> and \<open>hdr->ip.check = c\<close> on a frame in memory.\<close>

definition set_udp_check :: "u16 \<Rightarrow> UDP_HDR \<Rightarrow> UDP_HDR" where
  "set_udp_check c hdr = hdr\<lparr>udp := (udp hdr)\<lparr>udp_check := c\<rparr>\<rparr>"

definition set_ip_check :: "u16 \<Rightarrow> UDP_HDR \<Rightarrow> UDP_HDR" where
  "set_ip_check c hdr = hdr\<lparr>ip := (ip hdr)\<lparr>ip_check := c\<rparr>\<rparr>"

text \<open>
  The frame in memory starts with the header: the two addresses are the 8 bytes from offset 26, the
  UDP header the 8 bytes from 34, the payload follows at 42. The innermost sum starts from
  \<open>IPPROTO_UDP + ntohs(udp.len)\<close>.
\<close>

definition udp_unwrapped :: "checksum_api \<Rightarrow> byte list \<Rightarrow> byte list \<Rightarrow> u32" where
  "udp_unwrapped cs frame payload =
     dc_GenerateChecksumUnwrapped cs (take 8 (drop 34 frame))
       (dc_GenerateChecksumUnwrapped cs payload
         (dc_GenerateChecksumUnwrapped cs (take 8 (drop 26 frame))
           (17 + ucast (ntohs (udp_len (udp (unpack_UDP_HDR frame)))))))"

definition GenerateUDPChecksum ::
  "checksum_api \<Rightarrow> byte list \<Rightarrow> u32 \<Rightarrow> (u16 \<times> byte list) res" where
  "GenerateUDPChecksum cs frame payloadLength =
     bind_res (overlay pack_UDP_HDR unpack_UDP_HDR 42 (set_udp_check 0) frame) (\<lambda>frame.
     bind_res (guard_res (42 + unat payloadLength \<le> length frame) OutOfBounds) (\<lambda>_.
     Inr (dc_Wrapsum cs (udp_unwrapped cs frame (take (unat payloadLength) (drop 42 frame))), frame)))"

definition CheckUDP :: "checksum_api \<Rightarrow> byte list \<Rightarrow> byte list \<Rightarrow> u32 \<Rightarrow> bool res" where
  "CheckUDP cs frame udpPayload len =
     bind_res (guard_res (42 \<le> length frame \<and> unat len \<le> length udpPayload) OutOfBounds) (\<lambda>_.
     Inr (0xFFFF = udp_unwrapped cs frame (take (unat len) udpPayload)))"

text \<open>The sum RFC 768 asks for: pseudo header, UDP header and payload.\<close>

definition rfc768_sum :: "UDP_HDR \<Rightarrow> byte list \<Rightarrow> nat" where
  "rfc768_sum h payload =
     be_sum (pack_UDP_PSEUDOHDR \<lparr>ph_saddr = saddr (ip h), ph_daddr = daddr (ip h), ph_reserved = 0,
        ph_protocol = 17, ph_udp_length = udp_len (udp h)\<rparr>)
     + be_sum (pack_udphdr (udp h)) + be_sum payload"

lemma frame_parts:
  assumes "valid_UDP_HDR h"
  shows "take 8 (drop 34 (pack_UDP_HDR h @ bs)) = pack_udphdr (udp h)"
    "take 8 (drop 26 (pack_UDP_HDR h @ bs)) = le32 (saddr (ip h)) @ le32 (daddr (ip h))"
    "take 20 (drop 14 (pack_UDP_HDR h @ bs)) = pack_iphdr (ip h)"
    "drop 42 (pack_UDP_HDR h @ bs) = bs"
  using assms
  by (simp_all add: pack_UDP_HDR_def valid_UDP_HDR_def layout)
     (simp add: pack_iphdr_def le32_def le16_def)

lemma be_sum_pseudo:
  "be_sum (pack_UDP_PSEUDOHDR \<lparr>ph_saddr = s, ph_daddr = d, ph_reserved = 0, ph_protocol = 17,
      ph_udp_length = l\<rparr>) = 17 + unat (ntohs l) + be_sum (le32 s @ le32 d)"
  using be_sum_le16_htons [of "ntohs l"]
  by (simp add: pack_UDP_PSEUDOHDR_def be_sum_append)

context inet_checksum
begin

lemma udp_unwrapped_val:
  assumes "valid_UDP_HDR h" and "unat (ntohs (udp_len (udp h))) \<le> 65518" and "length payload \<le> 65535"
  shows "unat (udp_unwrapped cs (pack_UDP_HDR h @ bs) payload) = oc_norm (rfc768_sum h payload)"
    and "unat (dc_GenerateChecksumUnwrapped cs payload
         (dc_GenerateChecksumUnwrapped cs (take 8 (drop 26 (pack_UDP_HDR h @ bs)))
           (17 + ucast (ntohs (udp_len (udp h)))))) \<le> 65535"
proof -
  let ?L = "17 + ucast (ntohs (udp_len (udp h))) :: u32"
  let ?A = "le32 (saddr (ip h)) @ le32 (daddr (ip h))"
  let ?s1 = "dc_GenerateChecksumUnwrapped cs ?A ?L"
  let ?s2 = "dc_GenerateChecksumUnwrapped cs payload ?s1"
  have L: "unat ?L = 17 + unat (ntohs (udp_len (udp h)))"
    using assms(2) by (simp add: unat_word_ariths unsigned_ucast_eq take_bit_eq_mod)
  then have "unat ?L \<le> 65535" using assms(2) by simp
  then have s1: "unat ?s1 = oc_norm (unat ?L + be_sum ?A)" "unat ?s1 \<le> 65535"
    by (simp_all add: unwrapped oc_norm_le)
  then have s2: "unat ?s2 = oc_norm (unat ?L + be_sum ?A + be_sum payload)" "unat ?s2 \<le> 65535"
    using assms(3) by (simp_all add: unwrapped oc_norm_le oc_norm_add)
  have len8: "length (pack_udphdr (udp h)) = 8" by (simp add: layout)
  have "unat (dc_GenerateChecksumUnwrapped cs (pack_udphdr (udp h)) ?s2)
      = oc_norm (unat ?s2 + be_sum (pack_udphdr (udp h)))"
    using s2(2) len8 by (intro unwrapped) simp_all
  also have "\<dots> = oc_norm (unat ?L + be_sum ?A + be_sum payload + be_sum (pack_udphdr (udp h)))"
    by (simp only: s2(1) oc_norm_add)
  also have "\<dots> = oc_norm (rfc768_sum h payload)"
    by (simp only: rfc768_sum_def be_sum_pseudo L) (simp only: add_ac)
  finally show "unat (udp_unwrapped cs (pack_UDP_HDR h @ bs) payload) = oc_norm (rfc768_sum h payload)"
    by (simp only: udp_unwrapped_def frame_parts [OF assms(1)] udp_hdr.unpack_pack [OF assms(1)])
  show "unat (dc_GenerateChecksumUnwrapped cs payload
         (dc_GenerateChecksumUnwrapped cs (take 8 (drop 26 (pack_UDP_HDR h @ bs))) ?L)) \<le> 65535"
    using s2(2) by (simp only: frame_parts [OF assms(1)])
qed

lemma CheckUDP_val:
  assumes "valid_UDP_HDR h" and "unat (ntohs (udp_len (udp h))) \<le> 65518"
    and "unat len \<le> length payload" and "unat len \<le> 65535"
  shows "CheckUDP cs (pack_UDP_HDR h @ bs) payload len
    = Inr (oc_norm (rfc768_sum h (take (unat len) payload)) = 65535)"
proof -
  have "unat (udp_unwrapped cs (pack_UDP_HDR h @ bs) (take (unat len) payload))
      = oc_norm (rfc768_sum h (take (unat len) payload))"
    using assms by (intro udp_unwrapped_val) simp_all
  then show ?thesis
    using assms by (auto simp: CheckUDP_def word_unat_eq_iff udp_hdr.length_pack)
qed

lemma rfc768_set_udp_check:
  "rfc768_sum (set_udp_check c h) payload = rfc768_sum (set_udp_check 0 h) payload + be_sum (le16 c)"
  by (simp add: rfc768_sum_def set_udp_check_def pack_udphdr_def be_sum_append) (simp add: le16_def)

lemma GenerateUDPChecksum_val:
  assumes "valid_UDP_HDR h" and "unat (ntohs (udp_len (udp h))) \<le> 65518"
    and "unat n \<le> length bs" and "unat n \<le> 65535"
  obtains c where
    "GenerateUDPChecksum cs (pack_UDP_HDR h @ bs) n = Inr (c, pack_UDP_HDR (set_udp_check 0 h) @ bs)"
    "oc_norm (rfc768_sum (set_udp_check c h) (take (unat n) bs)) = 65535"
proof
  let ?h = "set_udp_check 0 h" and ?p = "take (unat n) bs"
  let ?c = "dc_Wrapsum cs (udp_unwrapped cs (pack_UDP_HDR ?h @ bs) ?p)"
  have v: "valid_UDP_HDR ?h" "udp_len (udp ?h) = udp_len (udp h)"
    using assms(1) by (simp_all add: set_udp_check_def valid_UDP_HDR_def)
  show "GenerateUDPChecksum cs (pack_UDP_HDR h @ bs) n = Inr (?c, pack_UDP_HDR ?h @ bs)"
    using assms v by (simp add: GenerateUDPChecksum_def udp_hdr.overlay_pack frame_parts udp_hdr.length_pack)
  let ?u = "udp_unwrapped cs (pack_UDP_HDR ?h @ bs) ?p"
  have u: "unat ?u = oc_norm (rfc768_sum ?h ?p)"
    using assms v by (intro udp_unwrapped_val) simp_all
  then have le: "unat ?u \<le> 65535" by (simp add: oc_norm_le)
  then have c: "be_sum (le16 ?c) = 65535 - unat ?u" by (rule wrapsum_val)
  have "oc_norm (rfc768_sum ?h ?p + (65535 - unat ?u)) = oc_norm (unat ?u + (65535 - unat ?u))"
    using oc_norm_add [of "rfc768_sum ?h ?p" "65535 - unat ?u"] by (simp only: u)
  also have "\<dots> = 65535" using le by (simp add: oc_norm_def)
  finally show "oc_norm (rfc768_sum (set_udp_check ?c h) ?p) = 65535"
    by (simp only: rfc768_set_udp_check [of ?c] c)
qed

end

text \<open>
  C16: For data that fits a UDP datagram, \<open>CheckUDP\<close> accepts exactly when the one's complement sum over
  the RFC 768 pseudo header (addresses, protocol 17, UDP length), the UDP header and the payload is
  \<open>0xFFFF\<close>.
\<close>

theorem CheckUDP_rfc768:
  assumes "inet_checksum cs" and "valid_UDP_HDR h" and "unat (ntohs (udp_len (udp h))) \<le> 65518"
    and "unat len \<le> length payload" and "unat len \<le> 65535"
  shows "CheckUDP cs (pack_UDP_HDR h @ bs) payload len
    = Inr (oc_norm (rfc768_sum h (take (unat len) payload)) = 65535)"
  by (rule inet_checksum.CheckUDP_val [OF assms])

lemma example_udp_len: "unat (ntohs (udp_len (udp example_UDP_HDR))) \<le> 65518"
  by (simp add: example_UDP_HDR_def)

theorem CheckUDP_rfc768_witness:
  "CheckUDP rfc1071 (pack_UDP_HDR example_UDP_HDR @ []) [] 0
     = Inr (oc_norm (rfc768_sum example_UDP_HDR []) = 65535)"
  using CheckUDP_rfc768 [OF rfc1071.inet_checksum_axioms valid_example_UDP_HDR example_udp_len,
      of 0 "[]" "[]"]
  by simp

text \<open>
  C15: The two UDP routines agree: a frame whose UDP checksum is set to the result of
  \<open>GenerateUDPChecksum\<close> over its payload passes \<open>CheckUDP\<close> over the same payload, whatever the
  checksum field held before.
\<close>

theorem GenerateUDPChecksum_CheckUDP:
  assumes "inet_checksum cs" and "valid_UDP_HDR h" and "unat (ntohs (udp_len (udp h))) \<le> 65518"
    and "unat n \<le> length bs" and "unat n \<le> 65535"
  shows "\<exists>c frame0 frame. GenerateUDPChecksum cs (pack_UDP_HDR h @ bs) n = Inr (c, frame0)
    \<and> overlay pack_UDP_HDR unpack_UDP_HDR 42 (set_udp_check c) frame0 = Inr frame
    \<and> drop 42 frame = bs \<and> CheckUDP cs frame (drop 42 frame) n = Inr True"
proof -
  obtain c where gen: "GenerateUDPChecksum cs (pack_UDP_HDR h @ bs) n
        = Inr (c, pack_UDP_HDR (set_udp_check 0 h) @ bs)"
    and sum: "oc_norm (rfc768_sum (set_udp_check c h) (take (unat n) bs)) = 65535"
    by (rule inet_checksum.GenerateUDPChecksum_val [OF assms])
  have v: "valid_UDP_HDR (set_udp_check d h)" "udp_len (udp (set_udp_check d h)) = udp_len (udp h)"
    "set_udp_check c (set_udp_check d h) = set_udp_check c h" for d
    using assms(2) by (simp_all add: set_udp_check_def valid_UDP_HDR_def)
  have "overlay pack_UDP_HDR unpack_UDP_HDR 42 (set_udp_check c) (pack_UDP_HDR (set_udp_check 0 h) @ bs)
      = Inr (pack_UDP_HDR (set_udp_check c h) @ bs)"
    using v by (simp add: udp_hdr.overlay_pack)
  moreover have "CheckUDP cs (pack_UDP_HDR (set_udp_check c h) @ bs) bs n = Inr True"
    using assms v sum by (subst inet_checksum.CheckUDP_val) simp_all
  ultimately show ?thesis
    using gen
    by (intro exI [of _ c] exI [of _ "pack_UDP_HDR (set_udp_check 0 h) @ bs"]
        exI [of _ "pack_UDP_HDR (set_udp_check c h) @ bs"])
       (simp only: frame_parts(4) [OF v(1)] simp_thms)
qed

theorem GenerateUDPChecksum_CheckUDP_witness:
  "\<exists>c frame0 frame. GenerateUDPChecksum rfc1071 (pack_UDP_HDR example_UDP_HDR @ [1, 2, 3]) 3 = Inr (c, frame0)
    \<and> overlay pack_UDP_HDR unpack_UDP_HDR 42 (set_udp_check c) frame0 = Inr frame
    \<and> drop 42 frame = [1, 2, 3] \<and> CheckUDP rfc1071 frame (drop 42 frame) 3 = Inr True"
  using GenerateUDPChecksum_CheckUDP [OF rfc1071.inet_checksum_axioms valid_example_UDP_HDR
      example_udp_len, of 3 "[1, 2, 3]"]
  by simp

lemma be_sum_iphdr:
  "be_sum (pack_iphdr (i\<lparr>ip_check := c\<rparr>)) = be_sum (pack_iphdr (i\<lparr>ip_check := 0\<rparr>)) + be_sum (le16 c)"
  by (simp add: pack_iphdr_def be_sum_append) (simp add: le16_def)

lemma be_sum_pos: "bs \<noteq> [] \<Longrightarrow> hd bs \<noteq> 0 \<Longrightarrow> be_sum bs \<noteq> 0"
  by (induction bs rule: be_sum.induct) (auto simp: unsigned_eq_0_iff)

lemma CheckData_iphdr:
  "valid_UDP_HDR h \<Longrightarrow>
     CheckData (drop 14 (pack_UDP_HDR h @ bs)) 20 = Inr (oc_norm (be_sum (pack_iphdr (ip h))) = 65535)"
  using frame_parts(3) [of h bs] by (subst CheckData_even) (simp_all add: udp_hdr.length_pack)

context inet_checksum
begin

lemma IP_checksum_sum:
  assumes "valid_UDP_HDR h" and "pack_iphdr (ip h) ! 0 \<noteq> 0"
    and "c = GenerateChecksum cs (take 20 (drop 14 (pack_UDP_HDR (set_ip_check 0 h) @ bs))) 0"
  shows "oc_norm (be_sum (pack_iphdr (ip (set_ip_check c h)))) = 65535"
proof -
  let ?i = "(ip h)\<lparr>ip_check := 0\<rparr>"
  have v: "valid_UDP_HDR (set_ip_check d h)" for d
    using assms(1) by (simp add: set_ip_check_def valid_UDP_HDR_def)
  have "hd (pack_iphdr ?i) \<noteq> 0" using assms(2) by (simp add: pack_iphdr_def)
  then have nz: "be_sum (pack_iphdr ?i) \<noteq> 0" by (intro be_sum_pos) (simp_all add: pack_iphdr_def)
  have "c = dc_Wrapsum cs (dc_GenerateChecksumUnwrapped cs (pack_iphdr ?i) 0)"
    by (simp only: assms(3) GenerateChecksum_def frame_parts(3) [OF v])
       (simp add: generate iph.length_pack set_ip_check_def)
  then have "oc_norm (unat (0 :: u32) + be_sum (pack_iphdr ?i) + be_sum (le16 c)) = 65535"
    using filled_sum [of 0 "pack_iphdr ?i"] nz by (simp add: iph.length_pack)
  then show ?thesis
    using be_sum_iphdr [where i = "ip h" and c = c] by (simp add: set_ip_check_def)
qed

end

text \<open>
  C29: An IPv4 header whose check field is cleared and then set to \<open>GenerateChecksum\<close> over its 20 bytes
  passes \<open>CheckData\<close>, which adds the words in the other byte order.
\<close>

theorem IP_checksum_verifies:
  assumes "inet_checksum cs" and "valid_UDP_HDR h" and "pack_iphdr (ip h) ! 0 \<noteq> 0"
  shows "CheckData (drop 14 (pack_UDP_HDR
      (set_ip_check (GenerateChecksum cs (take 20 (drop 14 (pack_UDP_HDR (set_ip_check 0 h) @ bs))) 0) h)
      @ bs)) 20 = Inr True"
  using inet_checksum.IP_checksum_sum [OF assms refl, of bs] assms(2)
  by (subst CheckData_iphdr) (simp_all add: set_ip_check_def valid_UDP_HDR_def)

theorem IP_checksum_verifies_witness:
  "CheckData (drop 14 (pack_UDP_HDR
      (set_ip_check (GenerateChecksum rfc1071 (take 20 (drop 14
         (pack_UDP_HDR (set_ip_check 0 example_UDP_HDR) @ [7]))) 0) example_UDP_HDR) @ [7])) 20 = Inr True"
proof -
  have "pack_iphdr (ip example_UDP_HDR) ! 0 \<noteq> 0"
    by (simp add: example_UDP_HDR_def pack_iphdr_def)
  from IP_checksum_verifies [OF rfc1071.inet_checksum_axioms valid_example_UDP_HDR this]
  show ?thesis .
qed

section \<open>ipToString\<close>

text \<open>\<open>inet_ntop\<close> on the four bytes of the \<open>int\<close> in memory; the buffer has 16 bytes.\<close>

definition ipToString :: "u32 \<Rightarrow> string" where
  "ipToString i = (case le32 i of
       [a, b, c, d] \<Rightarrow> show_nat (unat a) @ ''.'' @ show_nat (unat b) @ ''.'' @ show_nat (unat c)
         @ ''.'' @ show_nat (unat d)
     | _ \<Rightarrow> [])"

lemma dot_not_digit: "CHR ''.'' \<notin> set (show_nat n)"
  using show_nat_digits [of n] by auto

lemma show_byte_length: "length (show_nat (unat (b :: byte))) \<le> 3"
  using show_nat_length [of "unat b" 2] unat_byte_le [of b] by simp

text \<open>
  \<open>ipToString\<close> fits the 16-byte buffer with its terminating NUL, and different addresses have
  different strings.
\<close>

theorem ipToString_fits_and_injective:
  "length (ipToString i) + 1 \<le> 16 \<and> (ipToString i = ipToString j \<longleftrightarrow> i = j)"
proof
  show "length (ipToString i) + 1 \<le> 16"
    using show_byte_length [of "ucast i"] show_byte_length [of "ucast (drop_bit 8 i)"]
      show_byte_length [of "ucast (drop_bit 16 i)"] show_byte_length [of "ucast (drop_bit 24 i)"]
    by (simp add: ipToString_def le32_def)
  show "ipToString i = ipToString j \<longleftrightarrow> i = j"
  proof
    assume "ipToString i = ipToString j"
    then have "le32 i = le32 j"
      by (simp add: ipToString_def le32_def cut_unique dot_not_digit word_unat_eq_iff [where 'a = 8])
    then show "i = j" by (metis append_Nil2 rd32_le32)
  qed simp
qed

end
