(* ===== verification/Tbb_Queue.thy ===== *)
theory Tbb_Queue
  imports Prelude
begin

text \<open>
  The concurrent queues of Intel TBB that the library shares between threads
  (\<open>tbb::concurrent_bounded_queue\<close> for the frames to send, \<open>tbb::concurrent_queue\<close> for the triggers):
  a parameter of the model, with the documented behaviour of the operations the code calls as the
  laws of a locale. \<open>elems\<close> is the sequence of elements currently in the queue; a push to a bounded
  queue that is full blocks, which is \<open>None\<close>.
\<close>

record ('a, 'q) tbb_queue =
  q_push :: "'a \<Rightarrow> 'q \<Rightarrow> 'q option"
  q_try_pop :: "'q \<Rightarrow> ('a \<times> 'q) option"
  q_empty :: "'q \<Rightarrow> bool"
  q_size :: "'q \<Rightarrow> int"
  q_set_capacity :: "nat \<Rightarrow> 'q \<Rightarrow> 'q"

locale tbb_fifo =
  fixes Q :: "('a, 'q) tbb_queue"
    and elems :: "'q \<Rightarrow> 'a list"
    and capacity :: "'q \<Rightarrow> nat option"
  assumes push_full: "capacity q = Some n \<Longrightarrow> n \<le> length (elems q) \<Longrightarrow> q_push Q x q = None"
    and push_room: "(\<And>n. capacity q = Some n \<Longrightarrow> length (elems q) < n) \<Longrightarrow>
      \<exists>q'. q_push Q x q = Some q' \<and> elems q' = elems q @ [x] \<and> capacity q' = capacity q"
    and try_pop_empty: "elems q = [] \<Longrightarrow> q_try_pop Q q = None"
    and try_pop_head: "elems q = x # xs \<Longrightarrow>
      \<exists>q'. q_try_pop Q q = Some (x, q') \<and> elems q' = xs \<and> capacity q' = capacity q"
    and empty_iff: "q_empty Q q \<longleftrightarrow> elems q = []"
    and size_eq: "q_size Q q = int (length (elems q))"
    and set_capacity: "elems (q_set_capacity Q n q) = elems q"
      "capacity (q_set_capacity Q n q) = Some n"
begin

lemma push_elems: "q_push Q x q = Some q' \<Longrightarrow> elems q' = elems q @ [x] \<and> capacity q' = capacity q"
  by (metis linorder_not_le option.sel option.simps(3) push_full push_room)

lemma push_Some_iff:
  "(\<exists>q'. q_push Q x q = Some q') \<longleftrightarrow> (\<forall>n. capacity q = Some n \<longrightarrow> length (elems q) < n)"
  by (metis linorder_not_le option.distinct(1) push_full push_room)

lemma try_pop_Some:
  "q_try_pop Q q = Some (x, q') \<Longrightarrow> elems q = x # elems q' \<and> capacity q' = capacity q"
  by (cases "elems q") (use try_pop_empty try_pop_head in fastforce)+

lemma try_pop_None: "q_try_pop Q q = None \<longleftrightarrow> elems q = []"
  by (cases "elems q") (use try_pop_empty try_pop_head in fastforce)+

end

text \<open>A queue kept as a list with its capacity satisfies the laws.\<close>

definition list_queue :: "('a, 'a list \<times> nat option) tbb_queue" where
  "list_queue =
     \<lparr>q_push = (\<lambda>x (xs, c). (case c of
          Some n \<Rightarrow> if n \<le> length xs then None else Some (xs @ [x], c)
        | None \<Rightarrow> Some (xs @ [x], c))),
      q_try_pop = (\<lambda>(xs, c). case xs of [] \<Rightarrow> None | x # xs \<Rightarrow> Some (x, xs, c)),
      q_empty = (\<lambda>(xs, c). xs = []),
      q_size = (\<lambda>(xs, c). int (length xs)),
      q_set_capacity = (\<lambda>n (xs, c). (xs, Some n))\<rparr>"

interpretation list_queue: tbb_fifo list_queue fst snd
  by unfold_locales (auto simp: list_queue_def split: option.splits)

end
