(* ===== verification/NetworkHandler.thy ===== *)
theory NetworkHandler
  imports FrameUtils Tbb_Queue
begin

text \<open>
  \<open>socket/NetworkHandler.h\<close>: the static state of the class \<open>NetworkHandler\<close> and the methods the two
  back ends share, and the contract both have to meet: frames are sent in the order they were
  enqueued, every buffer is read while it is allocated, and the sender frees it exactly once when it
  owns it.
\<close>

section \<open>State\<close>

text \<open>
  \<open>uint_fast16_t\<close> and \<open>uint_fast32_t\<close> are 64 bits wide on the platform (x86-64, glibc). \<open>bufs\<close> is the
  part of the heap that holds the \<open>char[]\<close> blocks of frames.
\<close>

record 'q NetworkHandler =
  myMac :: "byte list"
  myIP :: u64
  bytesReceived :: u64
  framesReceived :: u64
  framesSent :: u64
  numberOfQueues :: u64
  deviceName :: string
  asyncSendData :: 'q
  bufs :: "byte list heap"

definition GetMyMac :: "('q, 'm) NetworkHandler_scheme \<Rightarrow> byte list" where
  "GetMyMac s = myMac s"

definition GetMyIP :: "('q, 'm) NetworkHandler_scheme \<Rightarrow> u32" where
  "GetMyIP s = ucast (myIP s)"

definition GetBytesReceived :: "('q, 'm) NetworkHandler_scheme \<Rightarrow> u64" where
  "GetBytesReceived s = bytesReceived s"

definition GetFramesReceived :: "('q, 'm) NetworkHandler_scheme \<Rightarrow> u64" where
  "GetFramesReceived s = framesReceived s"

definition GetFramesSent :: "('q, 'm) NetworkHandler_scheme \<Rightarrow> u64" where
  "GetFramesSent s = framesSent s"

text \<open>\<open>size()\<close> is signed and returned as \<open>uint\<close>.\<close>

definition getNumberOfEnqueuedSendFrames ::
  "(DataContainer, 'q) tbb_queue \<Rightarrow> ('q, 'm) NetworkHandler_scheme \<Rightarrow> u32" where
  "getNumberOfEnqueuedSendFrames Q s = word_of_int (q_size Q (asyncSendData s))"

text \<open>
  \<open>AsyncSendFrame\<close> has the same body in both back ends, a push to the bounded queue; \<open>None\<close> while it
  blocks.
\<close>

definition AsyncSendFrame ::
  "(DataContainer, 'q) tbb_queue \<Rightarrow> DataContainer \<Rightarrow> ('q, 'm) NetworkHandler_scheme
     \<Rightarrow> ('q, 'm) NetworkHandler_scheme option" where
  "AsyncSendFrame Q data s =
     map_option (\<lambda>q. s\<lparr>asyncSendData := q\<rparr>) (q_push Q data (asyncSendData s))"

section \<open>Ownership of the buffers in the queue\<close>

text \<open>
  Every container in the queue points to a live block of at least its length, and no block that will
  be freed after sending is shared with another container.
\<close>

definition container_ok :: "byte list heap \<Rightarrow> DataContainer \<Rightarrow> bool" where
  "container_ok h d \<longleftrightarrow> (case live h (dc_data d) of
       None \<Rightarrow> False
     | Some bs \<Rightarrow> dc_length d \<le> length bs \<and> dc_length d < 2 ^ 32)"

fun owned_apart :: "DataContainer list \<Rightarrow> bool" where
  "owned_apart [] = True"
| "owned_apart (d # ds) =
     (list_all (\<lambda>e. (ownerMayFreeData d \<or> ownerMayFreeData e) \<longrightarrow> dc_data e \<noteq> dc_data d) ds
      \<and> owned_apart ds)"

definition queue_safe :: "DataContainer list \<Rightarrow> byte list heap \<Rightarrow> bool" where
  "queue_safe ds h \<longleftrightarrow> heap_ok h \<and> list_all (container_ok h) ds \<and> owned_apart ds"

text \<open>The heap after the head of the queue has been sent.\<close>

definition release :: "DataContainer \<Rightarrow> (nat \<rightharpoonup> byte list) \<Rightarrow> nat \<rightharpoonup> byte list" where
  "release d m = (if ownerMayFreeData d then m(dc_data d := None) else m)"

lemma owned_apart_append:
  "owned_apart (ds @ es) \<longleftrightarrow> owned_apart ds \<and> owned_apart es
     \<and> (\<forall>d \<in> set ds. \<forall>e \<in> set es. (ownerMayFreeData d \<or> ownerMayFreeData e) \<longrightarrow> dc_data e \<noteq> dc_data d)"
  by (induction ds) (auto simp: list_all_iff)

lemma queue_safe_head:
  assumes "queue_safe (d # ds) h"
  obtains bs where "live h (dc_data d) = Some bs" "dc_length d \<le> length bs" "dc_length d < 2 ^ 32"
    "heap_read (dc_data d) h = Inr bs"
  using assms by (auto simp: queue_safe_def container_ok_def heap_read_live split: option.splits)

lemma container_ok_live:
  "live h' (dc_data d) = live h (dc_data d) \<Longrightarrow> container_ok h' d = container_ok h d"
  by (simp add: container_ok_def)

lemma queue_safe_release:
  assumes "queue_safe (d # ds) h" and "heap_ok h'" and "live h' = release d (live h)"
  shows "queue_safe ds h'"
proof -
  have "container_ok h' e" if "e \<in> set ds" for e
    using assms that
    by (subst container_ok_live [of h' e h]) (auto simp: queue_safe_def list_all_iff release_def)
  with assms show ?thesis by (auto simp: queue_safe_def list_all_iff)
qed

lemma queue_safe_push:
  assumes "queue_safe ds h" and "container_ok h d"
    and "\<And>e. e \<in> set ds \<Longrightarrow> ownerMayFreeData e \<or> ownerMayFreeData d \<Longrightarrow> dc_data e \<noteq> dc_data d"
  shows "queue_safe (ds @ [d]) h"
  using assms by (fastforce simp: queue_safe_def owned_apart_append)

text \<open>A fresh block keeps the queue safe, and its container may be enqueued.\<close>

lemma queue_safe_fresh:
  assumes "queue_safe ds h" and "heap_ok h'" and "live h p = None"
    and "live h' = (live h)(p \<mapsto> bs)" and "dc_data d = p" "dc_length d \<le> length bs" "dc_length d < 2 ^ 32"
  shows "queue_safe ds h'" and "queue_safe (ds @ [d]) h'"
proof -
  have ne: "dc_data e \<noteq> p" if "e \<in> set ds" for e
    using assms(1,3) that by (auto simp: queue_safe_def list_all_iff container_ok_def split: option.splits)
  have "container_ok h' e" if "e \<in> set ds" for e
    using assms(1,4) that ne [OF that]
    by (subst container_ok_live [of h' e h]) (auto simp: queue_safe_def list_all_iff)
  with assms(1,2) show ds: "queue_safe ds h'" by (auto simp: queue_safe_def list_all_iff)
  show "queue_safe (ds @ [d]) h'"
    using assms ne by (intro queue_safe_push [OF ds]) (auto simp: container_ok_def)
qed

section \<open>The contract of a back end\<close>

text \<open>The state after \<open>n\<close> calls of the sender in a row.\<close>

fun sends :: "('s \<Rightarrow> (int \<times> 's) res option) \<Rightarrow> nat \<Rightarrow> 's \<Rightarrow> 's res option" where
  "sends send_next 0 s = Some (Inr s)"
| "sends send_next (Suc n) s = bind_call (send_next s) (\<lambda>(k, s). sends send_next n s)"

locale frame_sender =
  fixes enqueue :: "DataContainer \<Rightarrow> 's \<Rightarrow> 's option"
    and send_next :: "'s \<Rightarrow> (int \<times> 's) res option"
    and pending :: "'s \<Rightarrow> DataContainer list"
    and memory :: "'s \<Rightarrow> byte list heap"
    and ready :: "'s \<Rightarrow> bool"
  assumes enqueue_appends: "enqueue d s = Some s' \<Longrightarrow>
      pending s' = pending s @ [d] \<and> memory s' = memory s \<and> ready s' = ready s"
    and send_nothing: "pending s = [] \<Longrightarrow> send_next s = Some (Inr (0, s))"
    and send_no_fault: "ready s \<Longrightarrow> queue_safe (pending s) (memory s) \<Longrightarrow> send_next s \<noteq> Some (Inl e)"
    and send_head: "ready s \<Longrightarrow> queue_safe (d # ds) (memory s) \<Longrightarrow> pending s = d # ds \<Longrightarrow>
      send_next s = Some (Inr (n, s')) \<Longrightarrow>
      pending s' = ds \<and> ready s' \<and> heap_ok (memory s') \<and> live (memory s') = release d (live (memory s))"
begin

lemma send_safe:
  assumes "ready s" and "queue_safe (pending s) (memory s)" and "send_next s = Some (Inr (n, s'))"
  shows "queue_safe (pending s') (memory s') \<and> ready s'"
proof (cases "pending s")
  case Nil
  with assms send_nothing [OF Nil] show ?thesis by simp
next
  case (Cons d ds)
  with assms have "queue_safe (d # ds) (memory s)" by simp
  with send_head [OF assms(1) this Cons assms(3)] show ?thesis
    by (auto intro: queue_safe_release)
qed

lemma enqueue_safe:
  assumes "queue_safe (pending s) (memory s)" and "container_ok (memory s) d"
    and "\<And>e. e \<in> set (pending s) \<Longrightarrow> ownerMayFreeData e \<or> ownerMayFreeData d \<Longrightarrow> dc_data e \<noteq> dc_data d"
    and "enqueue d s = Some s'"
  shows "queue_safe (pending s') (memory s')"
  using queue_safe_push [OF assms(1-3)] enqueue_appends [OF assms(4)] by simp

lemma sends_drains:
  assumes "sends send_next (length ds) s = Some (Inr t)" and "ready s"
    and "queue_safe ds (memory s)" and "pending s = ds"
  shows "pending t = [] \<and> live (memory t) = fold release ds (live (memory s))"
  using assms
proof (induction ds arbitrary: s)
  case (Cons d ds)
  then obtain k u where u: "send_next s = Some (Inr (k, u))" "sends send_next (length ds) u = Some (Inr t)"
    by (auto simp: bind_call_def split: option.splits sum.splits)
  from send_head [OF Cons.prems(2,3,4) u(1)]
  have h: "pending u = ds" "ready u" "heap_ok (memory u)" "live (memory u) = release d (live (memory s))"
    by simp_all
  with Cons.prems(3) have "queue_safe ds (memory u)" by (blast intro: queue_safe_release)
  from Cons.IH [OF u(2) h(2) this h(1)] h(4) show ?case by simp
qed simp

lemma sends_no_fault:
  assumes "ready s" and "queue_safe (pending s) (memory s)"
  shows "sends send_next n s \<noteq> Some (Inl e)"
  using assms
proof (induction n arbitrary: s)
  case (Suc n)
  show ?case
  proof (cases "send_next s")
    case (Some x)
    then show ?thesis
      using Suc send_no_fault [OF Suc.prems] send_safe [OF Suc.prems]
      by (cases x) auto
  qed simp
qed simp

end

lemma fold_release:
  "fold release ds m p = (if \<exists>d \<in> set ds. ownerMayFreeData d \<and> dc_data d = p then None else m p)"
  by (induction ds arbitrary: m) (auto simp: release_def)

section \<open>The send queue\<close>

locale send_queue = tbb_fifo Q elems capacity
  for Q :: "(DataContainer, 'q) tbb_queue" and elems capacity
begin

lemma AsyncSendFrame_appends:
  "AsyncSendFrame Q d s = Some s' \<Longrightarrow>
     \<exists>q. s' = s\<lparr>asyncSendData := q\<rparr> \<and> elems q = elems (asyncSendData s) @ [d]"
  by (auto simp: AsyncSendFrame_def dest: push_elems)

lemma AsyncSendFrame_blocks:
  "AsyncSendFrame Q d s = None \<longleftrightarrow>
     (\<exists>n. capacity (asyncSendData s) = Some n \<and> n \<le> length (elems (asyncSendData s)))"
  using push_Some_iff [of d "asyncSendData s"] by (auto simp: AsyncSendFrame_def not_less)

lemma enqueued_count:
  "length (elems (asyncSendData s)) < 2 ^ 32 \<Longrightarrow>
     unat (getNumberOfEnqueuedSendFrames Q s) = length (elems (asyncSendData s))"
  by (simp add: getNumberOfEnqueuedSendFrames_def size_eq unsigned_of_nat take_bit_eq_mod)

end

interpretation list_send_queue: send_queue list_queue fst snd
  by unfold_locales

end
