(* ===== verification/L1Distribution.thy ===== *)
theory L1Distribution
  imports MRP NetworkHandler
begin

text \<open>
  \<open>l1/L1DistributionHandler.h\<close> and \<open>.cpp\<close>: the requests for L1 data. Event builder threads append a
  trigger per accepted event to a queue; one thread collects up to \<open>MAX_TRIGGERS_PER_L1MRP\<close> of them
  and enqueues one multi request packet (MRP) per destination for sending.
\<close>

section \<open>State\<close>

text \<open>
  The queue and the vectors of the code hold pointers to triggers, addresses of the heap \<open>triggers\<close>.
  The vectors of request headers own their objects, which nobody else points to: they are lists of
  structs. \<open>net\<close> is the static state of \<open>NetworkHandler\<close>.
\<close>

record ('tq, 'n) L1DistributionHandler =
  multicastMRPQueue :: 'tq
  trigger_heap :: "TRIGGER_RAW_HDR heap"
  L1_MulticastRequestHdrs :: "MRP_FRAME_HDR list"
  L1_UnicastRequestHdrs :: "MRP_FRAME_HDR list"
  L1_UnicastRequestHdr :: "MRP_FRAME_HDR option"
  L1TriggersSent :: u64
  L1MRPsSent :: u64
  MAX_TRIGGERS_PER_L1MRP :: u32
  MIN_USEC_BETWEEN_L1_REQUESTS :: u32
  net :: 'n

definition GetL1TriggersSent :: "('tq, 'n) L1DistributionHandler \<Rightarrow> u64" where
  "GetL1TriggersSent s = L1TriggersSent s"

definition GetL1MRPsSent :: "('tq, 'n) L1DistributionHandler \<Rightarrow> u64" where
  "GetL1MRPsSent s = L1MRPsSent s"

section \<open>Requests\<close>

text \<open>What the code reads of an \<open>Event\<close> of na62-farm-lib.\<close>

record Event =
  getTimestamp :: u32
  getFinetime :: byte
  getTriggerTypeWord :: u16
  getEventNumber :: u32

text \<open>\<open>new TRIGGER_RAW_HDR()\<close> is zero-initialised; the event number is a 24-bit field.\<close>

definition generateTriggerHDR ::
  "Event \<Rightarrow> bool \<Rightarrow> TRIGGER_RAW_HDR heap \<Rightarrow> nat \<times> TRIGGER_RAW_HDR heap" where
  "generateTriggerHDR event zSuppressed h =
     heap_new \<lparr>timestamp = htonl (getTimestamp event), fineTime = getFinetime event,
       requestZeroSuppressed = (if zSuppressed then 1 else 0),
       triggerTypeWord = htons (getTriggerTypeWord event), reserved2 = 0,
       eventNumber = ucast (drop_bit 8 (htonl (getEventNumber event)))\<rparr> h"

text \<open>\<open>flush\<close> is what \<open>BurstIdHandler::flushBurst\<close> returns.\<close>

definition Async_RequestL1DataMulticast ::
  "(nat, 'tq) tbb_queue \<Rightarrow> bool \<Rightarrow> Event \<Rightarrow> bool \<Rightarrow> ('tq, 'n) L1DistributionHandler
     \<Rightarrow> ('tq, 'n) L1DistributionHandler option" where
  "Async_RequestL1DataMulticast T flush event zSuppressed s =
     (if flush then Some s
      else case generateTriggerHDR event zSuppressed (trigger_heap s) of (triggerHDR, h) \<Rightarrow>
        map_option (\<lambda>q. s\<lparr>trigger_heap := h, multicastMRPQueue := q\<rparr>)
          (q_push T triggerHDR (multicastMRPQueue s)))"

definition Async_RequestL1DataUnicast ::
  "Event \<Rightarrow> bool \<Rightarrow> u64 list \<Rightarrow> ('tq, 'n) L1DistributionHandler \<Rightarrow> ('tq, 'n) L1DistributionHandler" where
  "Async_RequestL1DataUnicast event zSuppressed subSourceIDs s = s"

section \<open>Initialize\<close>

text \<open>
  A request header: a zeroed \<open>MRP_FRAME_HDR\<close> with the UDP header of \<open>GenerateUDP\<close> and the host's
  address. \<open>mac\<close> points to the destination's hardware address.
\<close>

definition new_request_hdr ::
  "nat \<Rightarrow> u32 \<Rightarrow> u32 \<Rightarrow> u32 \<Rightarrow> ('q, 'm) NetworkHandler_scheme
     \<Rightarrow> (MRP_FRAME_HDR \<times> ('q, 'm) NetworkHandler_scheme) res" where
  "new_request_hdr mac dIP sourcePort destinationPort n =
     bind_res (GenerateUDP (GetMyMac n) (GetMyIP n) (replicate 54 0) mac dIP (ucast sourcePort)
         (ucast destinationPort) (bufs n)) (\<lambda>(buffer, h).
     let hdr = unpack_MRP_FRAME_HDR buffer
     in Inr (hdr\<lparr>MRP_HDR := (MRP_HDR hdr)\<lparr>ipAddress := GetMyIP n, reserved := 0\<rparr>\<rparr>, n\<lparr>bufs := h\<rparr>))"

fun init_multicast ::
  "(nat \<Rightarrow> nat \<Rightarrow> byte) \<Rightarrow> (string \<Rightarrow> u32) \<Rightarrow> u32 \<Rightarrow> u32 \<Rightarrow> string list
     \<Rightarrow> ('tq, ('q, 'm) NetworkHandler_scheme) L1DistributionHandler
     \<Rightarrow> ('tq, ('q, 'm) NetworkHandler_scheme) L1DistributionHandler res" where
  "init_multicast junk inet_addr sp dp [] s = Inr s"
| "init_multicast junk inet_addr sp dp (multicastIP # ips) s =
     (let multicastGroup = inet_addr multicastIP
      in bind_res (GenerateMulticastMac junk multicastGroup (bufs (net s))) (\<lambda>(mac, h).
         bind_res (new_request_hdr mac multicastGroup sp dp ((net s)\<lparr>bufs := h\<rparr>)) (\<lambda>(hdr, n).
         init_multicast junk inet_addr sp dp ips
           (s\<lparr>L1_MulticastRequestHdrs := L1_MulticastRequestHdrs s @ [hdr], net := n\<rparr>))))"

text \<open>
  \<open>inet_pton\<close> fails on a malformed address and leaves \<open>caddress\<close> indeterminate. The variable is local to an
  iteration; \<open>caddress i\<close> is its value in iteration \<open>i\<close> from here.
\<close>

fun init_unicast ::
  "(nat \<Rightarrow> nat \<Rightarrow> byte) \<Rightarrow> (string \<Rightarrow> u32 option) \<Rightarrow> (nat \<Rightarrow> u32) \<Rightarrow> u32 \<Rightarrow> u32 \<Rightarrow> string \<Rightarrow> string list
     \<Rightarrow> ('tq, ('q, 'm) NetworkHandler_scheme) L1DistributionHandler
     \<Rightarrow> ('tq, ('q, 'm) NetworkHandler_scheme) L1DistributionHandler res" where
  "init_unicast junk inet_pton caddress sp dp gatewayMAC [] s = Inr s"
| "init_unicast junk inet_pton caddress sp dp gatewayMAC (unicastAddr # addrs) s =
     (let s_addr = (case inet_pton unicastAddr of None \<Rightarrow> caddress 0 | Some a \<Rightarrow> a)
      in bind_res (StringToMAC junk gatewayMAC (bufs (net s))) (\<lambda>(mac, h).
         bind_res (new_request_hdr mac s_addr sp dp ((net s)\<lparr>bufs := h\<rparr>)) (\<lambda>(hdr, n).
         init_unicast junk inet_pton (\<lambda>i. caddress (Suc i)) sp dp gatewayMAC addrs
           (s\<lparr>L1_UnicastRequestHdrs := L1_UnicastRequestHdrs s @ [hdr], net := n\<rparr>))))"

definition Initialize ::
  "(nat \<Rightarrow> nat \<Rightarrow> byte) \<Rightarrow> (string \<Rightarrow> u32) \<Rightarrow> (string \<Rightarrow> u32 option) \<Rightarrow> (nat \<Rightarrow> u32) \<Rightarrow> u32 \<Rightarrow> u32
     \<Rightarrow> string list \<Rightarrow> string list \<Rightarrow> u32 \<Rightarrow> u32 \<Rightarrow> string
     \<Rightarrow> ('tq, ('q, 'm) NetworkHandler_scheme) L1DistributionHandler
     \<Rightarrow> ('tq, ('q, 'm) NetworkHandler_scheme) L1DistributionHandler res" where
  "Initialize junk inet_addr inet_pton caddress maxTriggersPerMRP minUsecBetweenL1Requests
       multicastGroupNames unicastAddress sourcePort destinationPort gatewayMAC s =
     bind_res (init_multicast junk inet_addr sourcePort destinationPort multicastGroupNames
       (s\<lparr>MAX_TRIGGERS_PER_L1MRP := maxTriggersPerMRP,
          MIN_USEC_BETWEEN_L1_REQUESTS := minUsecBetweenL1Requests\<rparr>)) (\<lambda>s.
     bind_res (init_unicast junk inet_pton caddress sourcePort destinationPort gatewayMAC unicastAddress s) (\<lambda>s.
     bind_res (StringToMAC junk gatewayMAC (bufs (net s))) (\<lambda>(mac, h).
     bind_res (new_request_hdr mac 0 sourcePort destinationPort ((net s)\<lparr>bufs := h\<rparr>)) (\<lambda>(hdr, n).
     Inr (s\<lparr>L1_UnicastRequestHdr := Some hdr, net := n\<rparr>)))))"

section \<open>Async_SendMRP\<close>

lemma bind_res_cong [fundef_cong]:
  "m = m' \<Longrightarrow> (\<And>x. m' = Inr x \<Longrightarrow> f x = g x) \<Longrightarrow> bind_res m f = bind_res m' g"
  by (cases m') simp_all

text \<open>\<open>memcpy(buff + offset, src, n)\<close>.\<close>

definition write_at :: "byte list \<Rightarrow> nat \<Rightarrow> byte list \<Rightarrow> byte list res" where
  "write_at buff offset src =
     (if offset + length src \<le> length buff
      then Inr (take offset buff @ src @ drop (offset + length src) buff) else Inl OutOfBounds)"

text \<open>The loop that empties the vector from the back into the buffer, at most \<open>maxTriggers\<close> times.\<close>

function collect_triggers ::
  "u32 \<Rightarrow> nat list \<Rightarrow> u32 \<Rightarrow> u64 \<Rightarrow> byte list \<Rightarrow> TRIGGER_RAW_HDR heap
     \<Rightarrow> (nat list \<times> u32 \<times> u64 \<times> byte list \<times> TRIGGER_RAW_HDR heap) res" where
  "collect_triggers maxTriggers triggers nTriggers offset buff h =
     (if triggers \<noteq> [] \<and> nTriggers \<noteq> maxTriggers then
        (let trigger = last triggers
         in bind_res (heap_read trigger h) (\<lambda>t.
            bind_res (write_at buff (unat offset) (pack_TRIGGER_RAW_HDR t)) (\<lambda>buff.
            bind_res (heap_delete trigger h) (\<lambda>h.
            collect_triggers maxTriggers (butlast triggers) (nTriggers + 1) (offset + 12) buff h))))
      else Inr (triggers, nTriggers, offset, buff, h))"
  by pat_completeness auto
termination
  by (relation "measure (\<lambda>(_, triggers, _). length triggers)") auto

declare collect_triggers.simps [simp del]

text \<open>
  The frame for one destination, built in the fresh \<open>block\<close>: the collected buffer with the request
  header over its first 54 bytes, the lengths, and the two checksums.
\<close>

definition build_frame ::
  "checksum_api \<Rightarrow> MRP_FRAME_HDR \<Rightarrow> byte list \<Rightarrow> u64 \<Rightarrow> u32 \<Rightarrow> byte list \<Rightarrow> byte list res" where
  "build_frame cs dataHDR buff offset nTriggers block =
     bind_res (memcpy block buff (unat offset)) (\<lambda>frame.
     bind_res (memcpy frame (pack_MRP_FRAME_HDR dataHDR) 54) (\<lambda>frame.
     bind_res (overlay pack_MRP_FRAME_HDR unpack_MRP_FRAME_HDR 54
         (SetNumberOfTriggers (ucast nTriggers)) frame) (\<lambda>frame.
     bind_res (overlay pack_UDP_HDR unpack_UDP_HDR 42 (set_ip_check 0) frame) (\<lambda>frame.
     bind_res (overlay pack_UDP_HDR unpack_UDP_HDR 42
         (set_ip_check (GenerateChecksum cs (take 20 (drop 14 frame)) 0)) frame) (\<lambda>frame.
     bind_res (GenerateUDPChecksum cs frame (ucast (getSize (MRP_HDR (unpack_MRP_FRAME_HDR frame)))))
       (\<lambda>(c, frame). overlay pack_UDP_HDR unpack_UDP_HDR 42 (set_udp_check c) frame))))))"

definition send_frame ::
  "checksum_api \<Rightarrow> (DataContainer, 'q) tbb_queue \<Rightarrow> (nat \<Rightarrow> nat \<Rightarrow> byte) \<Rightarrow> byte list \<Rightarrow> u64 \<Rightarrow> u32
     \<Rightarrow> MRP_FRAME_HDR \<Rightarrow> ('q, 'm) NetworkHandler_scheme \<Rightarrow> ('q, 'm) NetworkHandler_scheme res option" where
  "send_frame cs Q junk buff offset nTriggers dataHDR n =
     (case new_chars junk (unat offset) (bufs n) of (p, h) \<Rightarrow>
        bind_call (Some (heap_read p h)) (\<lambda>block.
        bind_call (Some (build_frame cs dataHDR buff offset nTriggers block)) (\<lambda>frame.
        bind_call (Some (heap_write p frame h)) (\<lambda>h.
        map_option Inr (AsyncSendFrame Q
          \<lparr>dc_data = p, dc_length = unat offset, ownerMayFreeData = True\<rparr> (n\<lparr>bufs := h\<rparr>))))))"

fun send_frames ::
  "checksum_api \<Rightarrow> (DataContainer, 'q) tbb_queue \<Rightarrow> (nat \<Rightarrow> nat \<Rightarrow> byte) \<Rightarrow> byte list \<Rightarrow> u64 \<Rightarrow> u32
     \<Rightarrow> MRP_FRAME_HDR list \<Rightarrow> ('q, 'm) NetworkHandler_scheme \<Rightarrow> ('q, 'm) NetworkHandler_scheme res option" where
  "send_frames cs Q junk buff offset nTriggers [] n = Some (Inr n)"
| "send_frames cs Q junk buff offset nTriggers (dataHDR # hdrs) n =
     bind_call (send_frame cs Q junk buff offset nTriggers dataHDR n)
       (send_frames cs Q junk buff offset nTriggers hdrs)"

text \<open>
  The vector of triggers is a reference parameter: what is left of it is returned. \<open>sizeOfMRP\<close> is a
  32-bit \<open>uint\<close>.
\<close>

definition sizeOfMRP :: "u32 \<Rightarrow> nat \<Rightarrow> u32" where
  "sizeOfMRP maxTriggers k = of_nat (54 + 12 * (if k > unat maxTriggers then unat maxTriggers else k))"

text \<open>Up to the loops over the destinations: the buffer is allocated and filled.\<close>

definition begin_MRP ::
  "(nat \<Rightarrow> nat \<Rightarrow> byte) \<Rightarrow> nat list \<Rightarrow> ('tq, ('q, 'm) NetworkHandler_scheme) L1DistributionHandler
     \<Rightarrow> (nat list \<times> nat \<times> u32 \<times> u64 \<times> byte list \<times> ('tq, ('q, 'm) NetworkHandler_scheme) L1DistributionHandler) res" where
  "begin_MRP junk triggers s =
     (case new_chars junk (unat (sizeOfMRP (MAX_TRIGGERS_PER_L1MRP s) (length triggers))) (bufs (net s)) of
       (b, h) \<Rightarrow>
        bind_res (heap_read b h) (\<lambda>buff.
        bind_res (collect_triggers (MAX_TRIGGERS_PER_L1MRP s) triggers 0 54 buff (trigger_heap s))
          (\<lambda>(triggers, nTriggers, offset, buff, th).
        bind_res (heap_write b buff h) (\<lambda>h.
        Inr (triggers, b, nTriggers, offset, buff, s\<lparr>trigger_heap := th, net := (net s)\<lparr>bufs := h\<rparr>\<rparr>)))))"

text \<open>After them: the buffer is deleted and the counters move.\<close>

definition finish_MRP ::
  "nat \<Rightarrow> u32 \<Rightarrow> ('tq, ('q, 'm) NetworkHandler_scheme) L1DistributionHandler
     \<Rightarrow> ('tq, ('q, 'm) NetworkHandler_scheme) L1DistributionHandler res" where
  "finish_MRP b nTriggers s =
     bind_res (heap_delete b (bufs (net s))) (\<lambda>h.
     Inr (s\<lparr>net := (net s)\<lparr>bufs := h\<rparr>, L1TriggersSent := L1TriggersSent s + ucast nTriggers,
            L1MRPsSent := L1MRPsSent s + 1\<rparr>))"

definition Async_SendMRP ::
  "checksum_api \<Rightarrow> (DataContainer, 'q) tbb_queue \<Rightarrow> (nat \<Rightarrow> nat \<Rightarrow> byte) \<Rightarrow> nat list
     \<Rightarrow> ('tq, ('q, 'm) NetworkHandler_scheme) L1DistributionHandler
     \<Rightarrow> (nat list \<times> ('tq, ('q, 'm) NetworkHandler_scheme) L1DistributionHandler) res option" where
  "Async_SendMRP cs Q junk triggers s =
     bind_call (Some (begin_MRP junk triggers s)) (\<lambda>(triggers, b, nTriggers, offset, buff, s).
     bind_call (send_frames cs Q junk buff offset nTriggers
       (L1_UnicastRequestHdrs s @ L1_MulticastRequestHdrs s) (net s)) (\<lambda>n.
     bind_call (Some (finish_MRP b nTriggers (s\<lparr>net := n\<rparr>))) (\<lambda>s.
     Some (Inr (triggers, s)))))"

section \<open>Collecting the triggers\<close>

text \<open>The bytes of the triggers at a list of addresses.\<close>

definition trigger_bytes :: "(nat \<rightharpoonup> TRIGGER_RAW_HDR) \<Rightarrow> nat list \<Rightarrow> byte list" where
  "trigger_bytes m as = concat (map (\<lambda>a. pack_TRIGGER_RAW_HDR (the (m a))) as)"

lemma length_trigger_bytes [simp]: "length (trigger_bytes m as) = 12 * length as"
  by (induction as) (simp_all add: trigger_bytes_def trigger.length_pack)

lemma trigger_bytes_cong: "(\<And>a. a \<in> set as \<Longrightarrow> m a = m' a) \<Longrightarrow> trigger_bytes m as = trigger_bytes m' as"
  by (simp add: trigger_bytes_def cong: map_cong)

lemma unat_Suc_less:
  fixes n k :: "'a::len word"
  assumes "unat n < unat k"
  shows "unat (n + 1) = unat n + 1"
proof -
  have "unat n + 1 < 2 ^ LENGTH('a)"
    using assms unsigned_less [of k, where ?'a = nat] by linarith
  then show ?thesis by (simp add: unat_word_ariths(1))
qed

lemma collect_triggers_ok:
  assumes "heap_ok h" and "distinct taken" and "\<forall>a \<in> set taken. live h a \<noteq> None"
    and "unat n + length taken \<le> unat maxT" and "rest = [] \<or> unat n + length taken = unat maxT"
    and "unat off + 12 * length taken \<le> length buff" and "unat off + 12 * length taken < 2 ^ 64"
  shows "collect_triggers maxT (rest @ taken) n off buff h = Inr (rest, n + of_nat (length taken),
      off + of_nat (12 * length taken),
      take (unat off) buff @ trigger_bytes (live h) (rev taken) @ drop (unat off + 12 * length taken) buff,
      h\<lparr>live := live h |` (- set taken)\<rparr>)"
  using assms
proof (induction taken arbitrary: n off buff h rule: rev_induct)
  case Nil
  then have "rest = [] \<or> n = maxT" by (auto simp: word_unat_eq_iff)
  then show ?case by (subst collect_triggers.simps) (auto simp: trigger_bytes_def restrict_map_def)
next
  case (snoc t ts)
  then obtain x where x: "live h t = Some x" by auto
  have less: "unat n < unat maxT" using snoc.prems(4) by simp
  then have ne: "n \<noteq> maxT" by auto
  let ?h = "h\<lparr>live := (live h)(t := None)\<rparr>"
  let ?x = "pack_TRIGGER_RAW_HDR x"
  define b where "b = take (unat off) buff @ ?x @ drop (unat off + 12) buff"
  have off: "unat (off + 12) = unat off + 12"
    using snoc.prems(7) by (simp add: unat_word_ariths)
  have b: "length b = length buff" "take (unat off + 12) b = take (unat off) buff @ ?x"
    "drop (unat off + 12 + 12 * length ts) b = drop (unat off + 12 * length (ts @ [t])) buff"
    using snoc.prems(6) by (simp_all add: b_def trigger.length_pack add_ac)
  have "collect_triggers maxT (rest @ ts) (n + 1) (off + 12) b ?h = Inr (rest, n + 1 + of_nat (length ts),
      off + 12 + of_nat (12 * length ts),
      take (unat (off + 12)) b @ trigger_bytes (live ?h) (rev ts) @ drop (unat (off + 12) + 12 * length ts) b,
      ?h\<lparr>live := live ?h |` (- set ts)\<rparr>)"
  proof (rule snoc.IH)
    show "heap_ok ?h" using snoc.prems(1) by (rule heap_ok_upd)
    show "\<forall>a \<in> set ts. live ?h a \<noteq> None" using snoc.prems(2,3) by auto
    show "rest = [] \<or> unat (n + 1) + length ts = unat maxT"
      using snoc.prems(5) unat_Suc_less [OF less] by auto
  qed (use snoc.prems off b(1) unat_Suc_less [OF less] in simp_all)
  moreover have "trigger_bytes (live ?h) (rev ts) = trigger_bytes (live h) (rev ts)"
    using snoc.prems(2) by (intro trigger_bytes_cong) auto
  moreover have bytes: "trigger_bytes (live h) (rev (ts @ [t])) = ?x @ trigger_bytes (live h) (rev ts)"
    using x by (simp add: trigger_bytes_def)
  moreover have "?h\<lparr>live := live ?h |` (- set ts)\<rparr> = h\<lparr>live := live h |` (- set (ts @ [t]))\<rparr>"
    by (auto simp: restrict_map_def fun_eq_iff)
  moreover have "n + 1 + of_nat (length ts) = n + of_nat (length (ts @ [t]))"
    "off + 12 + of_nat (12 * length ts) = off + of_nat (12 * length (ts @ [t]))"
    by simp_all
  ultimately have rec: "collect_triggers maxT (rest @ ts) (n + 1) (off + 12) b ?h = Inr (rest,
      n + of_nat (length (ts @ [t])), off + of_nat (12 * length (ts @ [t])),
      take (unat off) buff @ trigger_bytes (live h) (rev (ts @ [t])) @ drop (unat off + 12 * length (ts @ [t])) buff,
      h\<lparr>live := live h |` (- set (ts @ [t]))\<rparr>)"
    by (simp only: b off append_assoc)
  have step: "heap_read t h = Inr x" "heap_delete t h = Inr ?h" "write_at buff (unat off) ?x = Inr b"
    "last (rest @ ts @ [t]) = t" "butlast (rest @ ts @ [t]) = rest @ ts" "rest @ ts @ [t] \<noteq> []"
    using x snoc.prems(1,6)
    by (simp_all add: heap_read_live heap_delete_live write_at_def b_def trigger.length_pack butlast_append)
  show ?case
    by (subst collect_triggers.simps)
       (simp only: step ne Let_def bind_res_simps rec simp_thms if_True not_False_eq_True)
qed

section \<open>The frame for one destination\<close>

text \<open>What \<open>Initialize\<close> makes of a request header, and what a receiver checks of a frame.\<close>

definition request_hdr_ok :: "MRP_FRAME_HDR \<Rightarrow> bool" where
  "request_hdr_ok hdr \<longleftrightarrow> valid_MRP_FRAME_HDR hdr \<and> pack_iphdr (ip (frame_udp hdr)) ! 0 = 0x45"

definition mrp_frame_ok :: "checksum_api \<Rightarrow> MRP_FRAME_HDR \<Rightarrow> byte list \<Rightarrow> byte list \<Rightarrow> bool" where
  "mrp_frame_ok cs hdr payload frame \<longleftrightarrow>
     (let f = unpack_MRP_FRAME_HDR frame; u = frame_udp f
      in length frame = 54 + length payload \<and> drop 54 frame = payload
       \<and> eth u = eth (frame_udp hdr)
       \<and> saddr (ip u) = saddr (ip (frame_udp hdr)) \<and> daddr (ip u) = daddr (ip (frame_udp hdr))
       \<and> source (udp u) = source (udp (frame_udp hdr)) \<and> dest (udp u) = dest (udp (frame_udp hdr))
       \<and> ipAddress (MRP_HDR f) = ipAddress (MRP_HDR hdr)
       \<and> 12 * unat (getNumberOfTriggers (MRP_HDR f)) = length payload
       \<and> unat (getSize (MRP_HDR f)) = length frame - 42
       \<and> unat (ntohs (udp_len (udp u))) = length frame - 34
       \<and> unat (ntohs (tot_len (ip u))) = length frame - 14
       \<and> CheckData (drop 14 frame) 20 = Inr True
       \<and> CheckUDP cs frame (drop 42 frame) (of_nat (length frame - 42)) = Inr True)"

lemma unat_of_nat_less: "n < 2 ^ LENGTH('a) \<Longrightarrow> unat (of_nat n :: 'a::len word) = n"
  by (simp add: unsigned_of_nat take_bit_nat_eq_self)

text \<open>The header after \<open>SetNumberOfTriggers\<close>.\<close>

lemma counted_header:
  assumes "request_hdr_ok hdr" and "k \<le> 5457"
  defines "n \<equiv> ucast (of_nat k :: u32) :: u16"
  shows "valid_MRP_FRAME_HDR hdr" "valid_UDP_HDR (frame_udp (SetNumberOfTriggers n hdr))"
    "valid_UDP_HDR (set_ip_check d (frame_udp (SetNumberOfTriggers n hdr)))"
    "pack_iphdr (ip (frame_udp (SetNumberOfTriggers n hdr))) ! 0 = 0x45"
    "unat n = k" "unat (mrp_length n) = 12 + 12 * k" "unat (ucast (mrp_length n) :: u32) = 12 + 12 * k"
    "unat (ntohs (udp_len (udp (frame_udp (SetNumberOfTriggers n hdr))))) = 20 + 12 * k"
    "unat (ntohs (tot_len (ip (frame_udp (SetNumberOfTriggers n hdr))))) = 40 + 12 * k"
proof -
  show n: "unat n = k" using assms(2) by (simp add: n_def unsigned_ucast_eq unsigned_of_nat take_bit_eq_mod)
  show "valid_MRP_FRAME_HDR hdr" using assms(1) by (simp add: request_hdr_ok_def)
  then show "valid_UDP_HDR (frame_udp (SetNumberOfTriggers n hdr))"
    "valid_UDP_HDR (set_ip_check d (frame_udp (SetNumberOfTriggers n hdr)))"
    by (simp_all add: valid_MRP_FRAME_HDR_def SetNumberOfTriggers_def set_ip_check_def)
       (simp add: valid_UDP_HDR_def)
  show "pack_iphdr (ip (frame_udp (SetNumberOfTriggers n hdr))) ! 0 = 0x45"
    using assms(1) by (simp add: request_hdr_ok_def SetNumberOfTriggers_def setPayloadSize_def pack_iphdr_def)
  show "unat (mrp_length n) = 12 + 12 * k"
    "unat (ntohs (udp_len (udp (frame_udp (SetNumberOfTriggers n hdr))))) = 20 + 12 * k"
    "unat (ntohs (tot_len (ip (frame_udp (SetNumberOfTriggers n hdr))))) = 40 + 12 * k"
    using assms(2) n
    by (simp_all add: unat_mrp_length SetNumberOfTriggers_def unat_udp_len unat_tot_len unsigned_ucast_eq
        take_bit_eq_mod)
  then show "unat (ucast (mrp_length n) :: u32) = 12 + 12 * k"
    using assms(2) by (simp add: unsigned_ucast_eq take_bit_eq_mod)
qed

context inet_checksum
begin

text \<open>The frame that is built: the counted header with both checksums, the MRP header and the payload.\<close>

lemma build_frame_eq:
  assumes "request_hdr_ok hdr" and "length pre = 54" and "length payload = 12 * k" and "k \<le> 5457"
    and "length block = 54 + 12 * k"
  defines "h1 \<equiv> SetNumberOfTriggers (ucast (of_nat k :: u32)) hdr"
  defines "R \<equiv> pack_MRP_RAW_HDR (MRP_HDR h1) @ payload"
  obtains c cu where "c = GenerateChecksum cs (take 20 (drop 14 (pack_UDP_HDR (set_ip_check 0 (frame_udp h1)) @ R))) 0"
    "build_frame cs hdr (pre @ payload) (of_nat (54 + 12 * k)) (of_nat k) block
       = Inr (pack_UDP_HDR (set_udp_check cu (set_ip_check c (frame_udp h1))) @ R)"
    "oc_norm (rfc768_sum (set_udp_check cu (set_ip_check c (frame_udp h1))) (take (12 + 12 * k) R)) = 65535"
proof -
  let ?n = "of_nat k :: u32" and ?u1 = "frame_udp h1"
  note hdr = counted_header [OF assms(1,4), folded h1_def]
  have off: "unat (of_nat (54 + 12 * k) :: u64) = 54 + 12 * k" using assms(4) by (intro unat_of_nat_less) simp
  define c where "c = GenerateChecksum cs (take 20 (drop 14 (pack_UDP_HDR (set_ip_check 0 ?u1) @ R))) 0"
  let ?u2 = "set_ip_check c ?u1"
  have u2: "set_ip_check c (set_ip_check 0 ?u1) = ?u2" "udp ?u2 = udp ?u1" by (simp_all add: set_ip_check_def)
  have size: "getSize (MRP_HDR (unpack_MRP_FRAME_HDR (pack_UDP_HDR ?u2 @ R))) = mrp_length (ucast ?n)"
    using getters_SetNumberOfTriggers(2) [of "ucast ?n" hdr] hdr(3) [of c]
    by (simp add: R_def h1_def unpack_MRP_FRAME_HDR_def udp_hdr.length_pack mrp_raw.unpack_pack)
  have prems: "unat (ntohs (udp_len (udp ?u2))) \<le> 65518" "unat (ucast (mrp_length (ucast ?n)) :: u32) \<le> length R"
    "unat (ucast (mrp_length (ucast ?n)) :: u32) \<le> 65535"
    using hdr(7,8) assms(3,4) u2(2) by (simp_all add: R_def mrp_raw.length_pack)
  obtain cu where gen: "GenerateUDPChecksum cs (pack_UDP_HDR ?u2 @ R) (ucast (mrp_length (ucast ?n)))
      = Inr (cu, pack_UDP_HDR (set_udp_check 0 ?u2) @ R)"
    and sum: "oc_norm (rfc768_sum (set_udp_check cu ?u2) (take (unat (ucast (mrp_length (ucast ?n)) :: u32)) R)) = 65535"
    by (rule GenerateUDPChecksum_val [OF hdr(3) prems])
  have v3: "valid_UDP_HDR (set_udp_check d ?u2)" for d
    using hdr(3) [of c] by (simp add: set_udp_check_def valid_UDP_HDR_def)
  have idem: "set_udp_check cu (set_udp_check 0 ?u2) = set_udp_check cu ?u2" by (simp add: set_udp_check_def)
  have frame0: "pack_MRP_FRAME_HDR h1 @ payload = pack_UDP_HDR ?u1 @ R"
    by (simp add: R_def pack_MRP_FRAME_HDR_def)
  have m1: "memcpy block (pre @ payload) (54 + 12 * k) = Inr (pre @ payload)"
    using assms(2,3,5) by (intro memcpy_full) simp_all
  have m2: "memcpy (pre @ payload) (pack_MRP_FRAME_HDR hdr) 54 = Inr (pack_MRP_FRAME_HDR hdr @ payload)"
    using assms(2) by (simp add: memcpy_def mrp_frame.length_pack [OF hdr(1)])
  have "build_frame cs hdr (pre @ payload) (of_nat (54 + 12 * k)) ?n block = Inr (pack_UDP_HDR (set_udp_check cu ?u2) @ R)"
    unfolding build_frame_def off m1 m2 bind_res_simps mrp_frame.overlay_pack [OF hdr(1)] h1_def [symmetric] frame0
      udp_hdr.overlay_pack [OF hdr(2)] udp_hdr.overlay_pack [OF hdr(3)] c_def [symmetric] u2(1) size gen prod.case
      udp_hdr.overlay_pack [OF v3] idem ..
  with c_def show ?thesis using sum unfolding hdr(7) by (rule that)
qed

lemma build_frame_ok:
  assumes "request_hdr_ok hdr" and "length pre = 54" and "length payload = 12 * k" and "k \<le> 5457"
    and "length block = 54 + 12 * k"
  shows "\<exists>frame. build_frame cs hdr (pre @ payload) (of_nat (54 + 12 * k)) (of_nat k) block = Inr frame
    \<and> mrp_frame_ok cs hdr payload frame"
proof -
  let ?h1 = "SetNumberOfTriggers (ucast (of_nat k :: u32)) hdr"
  let ?u1 = "frame_udp ?h1" and ?R = "pack_MRP_RAW_HDR (MRP_HDR ?h1) @ payload"
  note hdr = counted_header [OF assms(1,4)]
  obtain c cu where c: "c = GenerateChecksum cs (take 20 (drop 14 (pack_UDP_HDR (set_ip_check 0 ?u1) @ ?R))) 0"
    and built: "build_frame cs hdr (pre @ payload) (of_nat (54 + 12 * k)) (of_nat k) block
       = Inr (pack_UDP_HDR (set_udp_check cu (set_ip_check c ?u1)) @ ?R)"
    and sum: "oc_norm (rfc768_sum (set_udp_check cu (set_ip_check c ?u1)) (take (12 + 12 * k) ?R)) = 65535"
    by (rule build_frame_eq [OF assms])
  let ?u = "set_udp_check cu (set_ip_check c ?u1)"
  let ?frame = "pack_UDP_HDR ?u @ ?R"
  have R: "length ?R = 12 + 12 * k" using assms(3) by (simp add: mrp_raw.length_pack)
  have v: "valid_UDP_HDR (set_udp_check d (set_ip_check c ?u1))" for d
    using hdr(3) [of c] by (simp add: set_udp_check_def valid_UDP_HDR_def)
  have drops: "drop 42 ?frame = ?R" "drop 54 ?frame = payload"
    using v [of cu] drop_drop [of 12 42 ?frame] by (simp_all add: udp_hdr.length_pack mrp_raw.length_pack)
  have len: "length ?frame = 54 + 12 * k" using v [of cu] R by (simp add: udp_hdr.length_pack)
  have f: "unpack_MRP_FRAME_HDR ?frame = \<lparr>frame_udp = ?u, MRP_HDR = MRP_HDR ?h1\<rparr>"
    using v [of cu] by (simp add: unpack_MRP_FRAME_HDR_def udp_hdr.unpack_pack udp_hdr.length_pack mrp_raw.unpack_pack)
  have ip_ok: "CheckData (drop 14 ?frame) 20 = Inr True"
    using IP_checksum_sum [OF hdr(2) _ c] hdr(4)
    by (subst CheckData_iphdr [OF v]) (simp add: set_udp_check_def)
  have L: "unat (of_nat (length ?frame - 42) :: u32) = 12 + 12 * k"
    unfolding len using assms(4) by (subst unat_of_nat_less) simp_all
  have udp_ok: "CheckUDP cs ?frame ?R (of_nat (length ?frame - 42)) = Inr True"
    using hdr(8) R L assms(4) sum
    by (subst CheckUDP_val [OF v]) (simp_all add: set_udp_check_def set_ip_check_def)
  have fields: "eth ?u = eth (frame_udp hdr)" "saddr (ip ?u) = saddr (ip (frame_udp hdr))"
    "daddr (ip ?u) = daddr (ip (frame_udp hdr))" "source (udp ?u) = source (udp (frame_udp hdr))"
    "dest (udp ?u) = dest (udp (frame_udp hdr))" "udp_len (udp ?u) = udp_len (udp ?u1)"
    "tot_len (ip ?u) = tot_len (ip ?u1)" "ipAddress (MRP_HDR ?h1) = ipAddress (MRP_HDR hdr)"
    by (simp_all add: set_udp_check_def set_ip_check_def SetNumberOfTriggers_def setPayloadSize_def
        MRP_RAW_SetNumberOfTriggers_def)
  have "mrp_frame_ok cs hdr payload ?frame"
    unfolding mrp_frame_ok_def Let_def f drops fields getters_SetNumberOfTriggers MRP_FRAME_HDR.simps
      ip_ok udp_ok
    unfolding len using hdr(5,6,8,9) assms(3) by simp
  with built show ?thesis by blast
qed

end

section \<open>Sending one packet to every destination\<close>

text \<open>What is enqueued for a destination, \<open>m\<close> being the blocks in memory afterwards.\<close>

definition frame_for ::
  "checksum_api \<Rightarrow> byte list \<Rightarrow> (nat \<rightharpoonup> byte list) \<Rightarrow> MRP_FRAME_HDR \<Rightarrow> DataContainer \<Rightarrow> bool" where
  "frame_for cs payload m hdr d \<longleftrightarrow> ownerMayFreeData d \<and> dc_length d = 54 + length payload
     \<and> (case m (dc_data d) of None \<Rightarrow> False | Some frame \<Rightarrow> mrp_frame_ok cs hdr payload frame)"

lemma frame_for_mono: "m \<subseteq>\<^sub>m m' \<Longrightarrow> frame_for cs payload m hdr d \<Longrightarrow> frame_for cs payload m' hdr d"
  by (force simp: frame_for_def map_le_def dom_def split: option.splits)

definition has_room :: "nat option \<Rightarrow> nat \<Rightarrow> bool" where
  "has_room c n \<longleftrightarrow> (case c of None \<Rightarrow> True | Some m \<Rightarrow> n \<le> m)"

lemma send_frame_eq:
  assumes "inet_checksum cs" and "request_hdr_ok hdr" and "length pre = 54"
    and "length payload = 12 * k" and "k \<le> 5457" and "queue_safe ds (bufs n)"
  obtains h d where
    "send_frame cs Q junk (pre @ payload) (of_nat (54 + 12 * k)) (of_nat k) hdr n
       = map_option Inr (AsyncSendFrame Q d (n\<lparr>bufs := h\<rparr>))"
    "queue_safe ds h" "queue_safe (ds @ [d]) h" "frame_for cs payload (live h) hdr d" "live (bufs n) (dc_data d) = None"
    "live (bufs n) \<subseteq>\<^sub>m live h" "dom (live h) = insert (dc_data d) (dom (live (bufs n)))"
proof -
  have ok: "heap_ok (bufs n)" using assms(6) by (simp add: queue_safe_def)
  let ?p = "fresh (bufs n)"
  let ?block = "map (junk ?p) [0..<54 + 12 * k]"
  have off: "unat (of_nat (54 + 12 * k) :: u64) = 54 + 12 * k"
    using assms(5) by (intro unat_of_nat_less) simp
  obtain frame where frame: "build_frame cs hdr (pre @ payload) (of_nat (54 + 12 * k)) (of_nat k) ?block = Inr frame"
    "mrp_frame_ok cs hdr payload frame"
    using inet_checksum.build_frame_ok [OF assms(1-5), of ?block] by auto
  have len: "length frame = 54 + 12 * k"
    using frame(2) assms(4) by (simp add: mrp_frame_ok_def Let_def)
  let ?d = "\<lparr>dc_data = ?p, dc_length = 54 + 12 * k, ownerMayFreeData = True\<rparr>"
  let ?h = "(bufs n)\<lparr>fresh := Suc ?p, live := (live (bufs n))(?p \<mapsto> frame)\<rparr>"
  have pos: "0 < ?p" and none: "live (bufs n) ?p = None" using ok by (auto simp: heap_ok_def dom_def)
  have okh: "heap_ok ?h" using ok by (auto simp: heap_ok_def less_Suc_eq)
  show ?thesis
  proof (rule that [of ?d ?h])
    show "send_frame cs Q junk (pre @ payload) (of_nat (54 + 12 * k)) (of_nat k) hdr n
       = map_option Inr (AsyncSendFrame Q ?d (n\<lparr>bufs := ?h\<rparr>))"
      unfolding send_frame_def new_chars_def heap_new_def off prod.case
      using pos frame(1) by (simp add: heap_read_def heap_write_def del: upt_Suc)
    show "queue_safe ds ?h" "queue_safe (ds @ [?d]) ?h"
      using queue_safe_fresh [OF assms(6) okh none, of frame ?d] len assms(5) by simp_all
    show "frame_for cs payload (live ?h) hdr ?d" using frame(2) assms(4) by (simp add: frame_for_def)
    show "live (bufs n) (dc_data ?d) = None" using none by simp
    show "live (bufs n) \<subseteq>\<^sub>m live ?h" using none by (auto simp: map_le_def dom_def)
    show "dom (live ?h) = insert (dc_data ?d) (dom (live (bufs n)))" by auto
  qed
qed

lemma send_frame_ok:
  assumes "send_queue Q elems cap" and "inet_checksum cs" and "request_hdr_ok hdr" and "length pre = 54"
    and "length payload = 12 * k" and "k \<le> 5457" and "queue_safe (elems (asyncSendData n)) (bufs n)"
    and "has_room (cap (asyncSendData n)) (Suc (length (elems (asyncSendData n))))"
  obtains q h d where
    "send_frame cs Q junk (pre @ payload) (of_nat (54 + 12 * k)) (of_nat k) hdr n
       = Some (Inr (n\<lparr>bufs := h, asyncSendData := q\<rparr>))"
    "elems q = elems (asyncSendData n) @ [d]" "cap q = cap (asyncSendData n)" "queue_safe (elems q) h"
    "frame_for cs payload (live h) hdr d" "live (bufs n) (dc_data d) = None"
    "live (bufs n) \<subseteq>\<^sub>m live h" "dom (live h) = insert (dc_data d) (dom (live (bufs n)))"
proof -
  obtain h d where sf: "send_frame cs Q junk (pre @ payload) (of_nat (54 + 12 * k)) (of_nat k) hdr n
       = map_option Inr (AsyncSendFrame Q d (n\<lparr>bufs := h\<rparr>))"
    and rest: "queue_safe (elems (asyncSendData n) @ [d]) h" "frame_for cs payload (live h) hdr d"
      "live (bufs n) (dc_data d) = None" "live (bufs n) \<subseteq>\<^sub>m live h"
      "dom (live h) = insert (dc_data d) (dom (live (bufs n)))"
    by (rule send_frame_eq [OF assms(2-7)])
  have fifo: "tbb_fifo Q elems cap" using assms(1) by (simp add: send_queue_def)
  have "length (elems (asyncSendData n)) < m" if "cap (asyncSendData n) = Some m" for m
    using assms(8) that by (simp add: has_room_def)
  from tbb_fifo.push_room [OF fifo this] obtain q where
    "q_push Q d (asyncSendData n) = Some q" "elems q = elems (asyncSendData n) @ [d]" "cap q = cap (asyncSendData n)"
    by blast
  with sf rest show ?thesis by (intro that [of q h d]) (simp_all add: AsyncSendFrame_def)
qed

lemma send_frames_ok:
  assumes "send_queue Q elems cap" and "inet_checksum cs" and "list_all request_hdr_ok hdrs"
    and "length pre = 54" and "length payload = 12 * k" and "k \<le> 5457"
    and "queue_safe (elems (asyncSendData n)) (bufs n)"
    and "has_room (cap (asyncSendData n)) (length (elems (asyncSendData n)) + length hdrs)"
  shows "\<exists>q h ds. send_frames cs Q junk (pre @ payload) (of_nat (54 + 12 * k)) (of_nat k) hdrs n
       = Some (Inr (n\<lparr>bufs := h, asyncSendData := q\<rparr>))
    \<and> elems q = elems (asyncSendData n) @ ds \<and> queue_safe (elems q) h
    \<and> list_all2 (frame_for cs payload (live h)) hdrs ds
    \<and> dc_data ` set ds \<inter> dom (live (bufs n)) = {}
    \<and> live (bufs n) \<subseteq>\<^sub>m live h \<and> dom (live h) = dom (live (bufs n)) \<union> dc_data ` set ds"
  using assms(3,7,8)
proof (induction hdrs arbitrary: n)
  case Nil
  then show ?case
    by (intro exI [of _ "asyncSendData n"] exI [of _ "bufs n"] exI [of _ "[]"]) simp
next
  case (Cons hdr hdrs)
  have hdr: "request_hdr_ok hdr" and
    room: "has_room (cap (asyncSendData n)) (Suc (length (elems (asyncSendData n))))"
    using Cons.prems(1,3) by (auto simp: has_room_def split: option.splits)
  obtain q h d where one: "send_frame cs Q junk (pre @ payload) (of_nat (54 + 12 * k)) (of_nat k) hdr n
       = Some (Inr (n\<lparr>bufs := h, asyncSendData := q\<rparr>))"
    "elems q = elems (asyncSendData n) @ [d]" "cap q = cap (asyncSendData n)" "queue_safe (elems q) h"
    "frame_for cs payload (live h) hdr d" "live (bufs n) (dc_data d) = None"
    "live (bufs n) \<subseteq>\<^sub>m live h" "dom (live h) = insert (dc_data d) (dom (live (bufs n)))"
    by (rule send_frame_ok [OF assms(1,2) hdr assms(4-6) Cons.prems(2) room])
  let ?n = "n\<lparr>bufs := h, asyncSendData := q\<rparr>"
  have "list_all request_hdr_ok hdrs" "queue_safe (elems (asyncSendData ?n)) (bufs ?n)"
    "has_room (cap (asyncSendData ?n)) (length (elems (asyncSendData ?n)) + length hdrs)"
    using Cons.prems(1,3) one(2-4) by simp_all
  from Cons.IH [OF this] obtain q2 h2 ds where rest:
    "send_frames cs Q junk (pre @ payload) (of_nat (54 + 12 * k)) (of_nat k) hdrs ?n
       = Some (Inr (?n\<lparr>bufs := h2, asyncSendData := q2\<rparr>))"
    "elems q2 = elems q @ ds" "queue_safe (elems q2) h2"
    "list_all2 (frame_for cs payload (live h2)) hdrs ds" "dc_data ` set ds \<inter> dom (live h) = {}"
    "live h \<subseteq>\<^sub>m live h2" "dom (live h2) = dom (live h) \<union> dc_data ` set ds"
    by auto
  show ?case
  proof (intro exI [of _ q2] exI [of _ h2] exI [of _ "d # ds"] conjI)
    show "list_all2 (frame_for cs payload (live h2)) (hdr # hdrs) (d # ds)"
      using rest(4) frame_for_mono [OF rest(6) one(5)] by simp
    show "live (bufs n) \<subseteq>\<^sub>m live h2" using one(7) rest(6) by (rule map_le_trans)
  qed (use one rest in auto)
qed

lemma queue_safe_drop_block:
  assumes "queue_safe ds h" and "heap_ok h'" and "live h' = (live h)(b := None)"
    and "\<And>d. d \<in> set ds \<Longrightarrow> dc_data d \<noteq> b"
  shows "queue_safe ds h'"
proof -
  have "container_ok h' d" if "d \<in> set ds" for d
    using assms(1,3,4) that
    by (subst container_ok_live [of h' d h]) (auto simp: queue_safe_def list_all_iff)
  with assms(1,2) show ?thesis by (auto simp: queue_safe_def list_all_iff)
qed

text \<open>How many triggers one packet takes, which of the vector they are, and its payload.\<close>

definition batch :: "u32 \<Rightarrow> nat list \<Rightarrow> nat list" where
  "batch maxT triggers = drop (length triggers - unat maxT) triggers"

definition remaining :: "u32 \<Rightarrow> nat list \<Rightarrow> nat list" where
  "remaining maxT triggers = take (length triggers - unat maxT) triggers"

lemma batch_remaining: "remaining maxT triggers @ batch maxT triggers = triggers"
  "length (batch maxT triggers) = min (length triggers) (unat maxT)"
  "remaining maxT triggers = [] \<or> length (batch maxT triggers) = unat maxT"
  by (auto simp: batch_def remaining_def)

lemma begin_MRP_ok:
  assumes "heap_ok (trigger_heap s)" and "distinct triggers" and "set triggers \<subseteq> dom (live (trigger_heap s))"
    and "length (batch (MAX_TRIGGERS_PER_L1MRP s) triggers) \<le> 5457" and "heap_ok (bufs (net s))"
  defines "taken \<equiv> batch (MAX_TRIGGERS_PER_L1MRP s) triggers"
  obtains b pre h where "begin_MRP junk triggers s = Inr (remaining (MAX_TRIGGERS_PER_L1MRP s) triggers, b,
      of_nat (length taken), of_nat (54 + 12 * length taken), pre @ trigger_bytes (live (trigger_heap s)) (rev taken),
      s\<lparr>trigger_heap := (trigger_heap s)\<lparr>live := live (trigger_heap s) |` (- set taken)\<rparr>,
        net := (net s)\<lparr>bufs := h\<rparr>\<rparr>)"
    "length pre = 54" "heap_ok h" "live (bufs (net s)) b = None"
    "live h = (live (bufs (net s)))(b \<mapsto> pre @ trigger_bytes (live (trigger_heap s)) (rev taken))"
proof -
  let ?max = "MAX_TRIGGERS_PER_L1MRP s" and ?n = "net s" and ?k = "length taken"
  let ?p = "fresh (bufs ?n)"
  let ?payload = "trigger_bytes (live (trigger_heap s)) (rev taken)"
  have k: "?k \<le> 5457" "?k = min (length triggers) (unat ?max)"
    using assms(4) by (simp_all add: taken_def batch_remaining(2))
  have size: "unat (sizeOfMRP ?max (length triggers)) = 54 + 12 * ?k"
  proof -
    have "sizeOfMRP ?max (length triggers) = of_nat (54 + 12 * ?k)"
      using k(2) by (simp add: sizeOfMRP_def min_def)
    then show ?thesis using k(1) by (simp only:, intro unat_of_nat_less) simp
  qed
  have pos: "0 < ?p" and none: "live (bufs ?n) ?p = None" using assms(5) by (auto simp: heap_ok_def dom_def)
  define block where "block = map (junk ?p) [0..<54 + 12 * ?k]"
  have block: "length block = 54 + 12 * ?k" by (simp add: block_def)
  define pre where "pre = take 54 block"
  have pre: "length pre = 54" by (simp add: pre_def block)
  have collect: "collect_triggers ?max triggers 0 54 block (trigger_heap s) = Inr (remaining ?max triggers,
      of_nat ?k, of_nat (54 + 12 * ?k), pre @ ?payload,
      (trigger_heap s)\<lparr>live := live (trigger_heap s) |` (- set taken)\<rparr>)"
  proof -
    have split: "triggers = remaining ?max triggers @ taken" by (simp add: taken_def batch_remaining(1))
    have "distinct taken" "\<forall>a \<in> set taken. live (trigger_heap s) a \<noteq> None"
      using assms(2,3) split by (metis distinct_append, metis (no_types) UnCI domIff set_append subsetD)
    moreover have "remaining ?max triggers = [] \<or> unat (0 :: u32) + ?k = unat ?max"
      using batch_remaining(3) by (simp add: taken_def)
    ultimately have "collect_triggers ?max (remaining ?max triggers @ taken) 0 54 block (trigger_heap s)
      = Inr (remaining ?max triggers, 0 + of_nat ?k, 54 + of_nat (12 * ?k),
          take (unat (54 :: u64)) block @ ?payload @ drop (unat (54 :: u64) + 12 * ?k) block,
          (trigger_heap s)\<lparr>live := live (trigger_heap s) |` (- set taken)\<rparr>)"
      using assms(1) k block by (intro collect_triggers_ok) simp_all
    then show ?thesis using split block by (simp add: pre_def)
  qed
  let ?h1 = "(bufs ?n)\<lparr>fresh := Suc ?p, live := (live (bufs ?n))(?p \<mapsto> pre @ ?payload)\<rparr>"
  show ?thesis
  proof (rule that [of ?p pre ?h1])
    show "begin_MRP junk triggers s = Inr (remaining ?max triggers, ?p, of_nat ?k, of_nat (54 + 12 * ?k),
        pre @ ?payload, s\<lparr>trigger_heap := (trigger_heap s)\<lparr>live := live (trigger_heap s) |` (- set taken)\<rparr>,
          net := ?n\<lparr>bufs := ?h1\<rparr>\<rparr>)"
      unfolding begin_MRP_def new_chars_def heap_new_def size prod.case block_def [symmetric]
      using pos collect by (simp add: heap_read_def heap_write_def)
    show "heap_ok ?h1" using assms(5) by (auto simp: heap_ok_def less_Suc_eq)
  qed (use pre none in simp_all)
qed

lemma finish_MRP_ok:
  assumes "heap_ok (bufs (net s))" and "live (bufs (net s)) b = Some x" and "k \<le> 5457"
  shows "finish_MRP b (of_nat k) s = Inr (s\<lparr>net := (net s)\<lparr>bufs := (bufs (net s))\<lparr>live := (live (bufs (net s)))(b := None)\<rparr>\<rparr>,
    L1TriggersSent := L1TriggersSent s + of_nat k, L1MRPsSent := L1MRPsSent s + 1\<rparr>)"
proof -
  have "ucast (of_nat k :: u32) = (of_nat k :: u64)"
    using assms(3) by (simp add: word_unat_eq_iff unsigned_ucast_eq unsigned_of_nat take_bit_eq_mod)
  then show ?thesis by (simp add: finish_MRP_def heap_delete_live [OF assms(1,2)])
qed

text \<open>
  Freeing the common buffer \<open>p\<close>, allocated in \<open>h0\<close>, once the frames \<open>ds\<close> have been made: neither the old frames
  nor the new ones use it.
\<close>

lemma common_buffer_freed:
  assumes "queue_safe (old @ ds) h" and "queue_safe old h0" and "live h0 p = None"
    and "live h1 = (live h0)(p \<mapsto> x)" and "list_all2 (frame_for cs payload (live h)) hdrs ds"
    and "dc_data ` set ds \<inter> dom (live h1) = {}" and "live h1 \<subseteq>\<^sub>m live h"
    and "dom (live h) = dom (live h1) \<union> dc_data ` set ds"
  defines "h2 \<equiv> h\<lparr>live := (live h)(p := None)\<rparr>"
  shows "heap_ok h" "live h p = Some x" "queue_safe (old @ ds) h2" "list_all2 (frame_for cs payload (live h2)) hdrs ds"
    "live h0 \<subseteq>\<^sub>m live h2" "dom (live h2) = dom (live h0) \<union> dc_data ` set ds"
proof -
  show ok: "heap_ok h" using assms(1) by (simp add: queue_safe_def)
  show "live h p = Some x" using assms(4,7) by (auto simp: map_le_def dom_def)
  have old: "dc_data d \<noteq> p" if "d \<in> set old" for d
    using assms(2,3) that by (auto simp: queue_safe_def list_all_iff container_ok_def split: option.splits)
  have p_new: "p \<notin> dc_data ` set ds" using assms(4,6) by auto
  then have new: "dc_data d \<noteq> p" if "d \<in> set ds" for d using that by (metis imageI)
  show "queue_safe (old @ ds) h2"
    using ok old new by (intro queue_safe_drop_block [OF assms(1)]) (auto simp: h2_def heap_ok_upd)
  show "list_all2 (frame_for cs payload (live h2)) hdrs ds"
    using assms(5)
  proof (rule list.rel_mono_strong)
    fix hdr d assume "d \<in> set ds" and "frame_for cs payload (live h) hdr d"
    with new show "frame_for cs payload (live h2) hdr d" by (simp add: frame_for_def h2_def)
  qed
  show "live h0 \<subseteq>\<^sub>m live h2"
    using assms(3,4,7) by (auto simp: h2_def map_le_def dom_def split: if_splits)
  show "dom (live h2) = dom (live h0) \<union> dc_data ` set ds"
    using assms(3,4,8) p_new by (simp add: h2_def dom_fun_upd) (auto simp: dom_def)
qed

lemma Async_SendMRP_ok:
  fixes s :: "('tq, ('q, 'm) NetworkHandler_scheme) L1DistributionHandler"
  assumes "send_queue Q elems cap" and "inet_checksum cs"
    and "list_all request_hdr_ok (L1_UnicastRequestHdrs s @ L1_MulticastRequestHdrs s)"
    and "heap_ok (trigger_heap s)" and "distinct triggers" and "set triggers \<subseteq> dom (live (trigger_heap s))"
    and "length (batch (MAX_TRIGGERS_PER_L1MRP s) triggers) \<le> 5457"
    and "queue_safe (elems (asyncSendData (net s))) (bufs (net s))"
    and "has_room (cap (asyncSendData (net s))) (length (elems (asyncSendData (net s)))
      + length (L1_UnicastRequestHdrs s @ L1_MulticastRequestHdrs s))"
  defines "taken \<equiv> batch (MAX_TRIGGERS_PER_L1MRP s) triggers"
  shows "\<exists>q h ds. Async_SendMRP cs Q junk triggers s = Some (Inr (remaining (MAX_TRIGGERS_PER_L1MRP s) triggers,
      s\<lparr>trigger_heap := (trigger_heap s)\<lparr>live := live (trigger_heap s) |` (- set taken)\<rparr>,
        net := (net s)\<lparr>asyncSendData := q, bufs := h\<rparr>,
        L1TriggersSent := L1TriggersSent s + of_nat (length taken), L1MRPsSent := L1MRPsSent s + 1\<rparr>))
    \<and> elems q = elems (asyncSendData (net s)) @ ds \<and> queue_safe (elems q) h
    \<and> list_all2 (frame_for cs (trigger_bytes (live (trigger_heap s)) (rev taken)) (live h))
        (L1_UnicastRequestHdrs s @ L1_MulticastRequestHdrs s) ds
    \<and> live (bufs (net s)) \<subseteq>\<^sub>m live h \<and> dom (live h) = dom (live (bufs (net s))) \<union> dc_data ` set ds"
proof -
  let ?max = "MAX_TRIGGERS_PER_L1MRP s" and ?hdrs = "L1_UnicastRequestHdrs s @ L1_MulticastRequestHdrs s"
  let ?n = "net s" and ?k = "length taken"
  let ?payload = "trigger_bytes (live (trigger_heap s)) (rev taken)"
  have ok: "heap_ok (bufs ?n)" using assms(8) by (simp add: queue_safe_def)
  have k: "?k \<le> 5457" using assms(7) by (simp add: taken_def)
  obtain p pre h1 where start: "begin_MRP junk triggers s = Inr (remaining ?max triggers, p,
      of_nat ?k, of_nat (54 + 12 * ?k), pre @ ?payload,
      s\<lparr>trigger_heap := (trigger_heap s)\<lparr>live := live (trigger_heap s) |` (- set taken)\<rparr>, net := ?n\<lparr>bufs := h1\<rparr>\<rparr>)"
    "length pre = 54" "heap_ok h1" "live (bufs ?n) p = None" "live h1 = (live (bufs ?n))(p \<mapsto> pre @ ?payload)"
    unfolding taken_def by (rule begin_MRP_ok [OF assms(4-7) ok])
  from queue_safe_fresh(1) [OF assms(8) start(3,4,5), where d = "\<lparr>dc_data = p, dc_length = 0, ownerMayFreeData = True\<rparr>"]
  have safe1: "queue_safe (elems (asyncSendData (?n\<lparr>bufs := h1\<rparr>))) (bufs (?n\<lparr>bufs := h1\<rparr>))" by simp
  have room1: "has_room (cap (asyncSendData (?n\<lparr>bufs := h1\<rparr>)))
      (length (elems (asyncSendData (?n\<lparr>bufs := h1\<rparr>))) + length ?hdrs)" using assms(9) by simp
  have len: "length ?payload = 12 * ?k" by simp
  obtain q h ds where sent:
    "send_frames cs Q junk (pre @ ?payload) (of_nat (54 + 12 * ?k)) (of_nat ?k) ?hdrs (?n\<lparr>bufs := h1\<rparr>)
       = Some (Inr (?n\<lparr>bufs := h, asyncSendData := q\<rparr>))"
    "elems q = elems (asyncSendData ?n) @ ds" "queue_safe (elems q) h"
    "list_all2 (frame_for cs ?payload (live h)) ?hdrs ds" "dc_data ` set ds \<inter> dom (live h1) = {}"
    "live h1 \<subseteq>\<^sub>m live h" "dom (live h) = dom (live h1) \<union> dc_data ` set ds"
    using send_frames_ok [OF assms(1-3) start(2) len k safe1 room1, of junk] by auto
  let ?h2 = "h\<lparr>live := (live h)(p := None)\<rparr>"
  note free = common_buffer_freed [OF sent(3) [unfolded sent(2)] assms(8) start(4,5) sent(4-7)]
  let ?s = "s\<lparr>trigger_heap := (trigger_heap s)\<lparr>live := live (trigger_heap s) |` (- set taken)\<rparr>,
    net := ?n\<lparr>bufs := h, asyncSendData := q\<rparr>\<rparr>"
  have "finish_MRP p (of_nat ?k) ?s = Inr (?s\<lparr>net := (net ?s)\<lparr>bufs := ?h2\<rparr>,
      L1TriggersSent := L1TriggersSent s + of_nat ?k, L1MRPsSent := L1MRPsSent s + 1\<rparr>)"
    using finish_MRP_ok [of ?s p _ ?k] free(1,2) k by simp
  then have "Async_SendMRP cs Q junk triggers s = Some (Inr (remaining ?max triggers,
      s\<lparr>trigger_heap := (trigger_heap s)\<lparr>live := live (trigger_heap s) |` (- set taken)\<rparr>,
        net := ?n\<lparr>asyncSendData := q, bufs := ?h2\<rparr>,
        L1TriggersSent := L1TriggersSent s + of_nat ?k, L1MRPsSent := L1MRPsSent s + 1\<rparr>))"
    using start(1) sent(1) by (simp add: Async_SendMRP_def)
  with sent(2) free(3-6) show ?thesis by (intro exI [of _ q] exI [of _ ?h2] exI [of _ ds]) simp
qed

section \<open>Properties of requests and packets\<close>

definition example_header :: MRP_FRAME_HDR where
  "example_header = \<lparr>frame_udp = udp_fields [1, 0, 0x5e, 1, 2, 3] [2, 4, 6, 8, 10, 12] 0x0100000a 0x030201e0
     58913 58915 example_UDP_HDR,
     MRP_HDR = \<lparr>numberOfTriggers = 0, MRPLength = 0, ipAddress = 0x0100000a, reserved = 0\<rparr>\<rparr>"

definition example_trigger :: TRIGGER_RAW_HDR where
  "example_trigger = \<lparr>timestamp = 1, fineTime = 2, requestZeroSuppressed = 0, triggerTypeWord = 3,
     reserved2 = 0, eventNumber = 4\<rparr>"

definition example_L1 ::
  "(nat list \<times> nat option, (DataContainer list \<times> nat option) NetworkHandler) L1DistributionHandler" where
  "example_L1 = \<lparr>multicastMRPQueue = ([], None),
     trigger_heap = \<lparr>fresh = 4, live = [1 \<mapsto> example_trigger, 2 \<mapsto> example_trigger\<lparr>timestamp := 9\<rparr>,
       3 \<mapsto> example_trigger]\<rparr>,
     L1_MulticastRequestHdrs = [example_header], L1_UnicastRequestHdrs = [example_header],
     L1_UnicastRequestHdr = None, L1TriggersSent = 0, L1MRPsSent = 0,
     MAX_TRIGGERS_PER_L1MRP = 2, MIN_USEC_BETWEEN_L1_REQUESTS = 1000,
     net = \<lparr>myMac = [2, 4, 6, 8, 10, 12], myIP = 0x0100000a, bytesReceived = 0, framesReceived = 0,
       framesSent = 0, numberOfQueues = 1, deviceName = ''eth0'', asyncSendData = ([], Some 1000),
       bufs = \<lparr>fresh = 1, live = Map.empty\<rparr>\<rparr>\<rparr>"

lemma request_hdr_ok_example: "request_hdr_ok example_header"
  by (simp add: request_hdr_ok_def example_header_def valid_MRP_FRAME_HDR_def valid_udp_fields)
     (simp add: udp_fields_def pack_iphdr_def)

text \<open>
  C6: \<open>Async_SendMRP\<close> takes the last \<open>min(size, MAX)\<close> triggers out of the vector and, for every unicast
  and then every multicast destination, enqueues one frame with exactly these triggers, in the reverse
  of the order they were collected, under the destination's header: the IP, UDP and MRP lengths agree
  with the frame, both checksums verify, the frame's block is fresh and handed over to the sender. It
  deletes exactly the triggers it sent, leaks and double-frees nothing, faults nowhere, and the
  counters grow by the triggers sent and by one packet.
\<close>

theorem Async_SendMRP_frames:
  fixes s :: "('tq, ('q, 'm) NetworkHandler_scheme) L1DistributionHandler"
  assumes "send_queue Q elems cap" and "inet_checksum cs"
    and "list_all request_hdr_ok (L1_UnicastRequestHdrs s @ L1_MulticastRequestHdrs s)"
    and "heap_ok (trigger_heap s)" and "distinct triggers" and "set triggers \<subseteq> dom (live (trigger_heap s))"
    and "length (batch (MAX_TRIGGERS_PER_L1MRP s) triggers) \<le> 5457"
    and "queue_safe (elems (asyncSendData (net s))) (bufs (net s))"
    and "has_room (cap (asyncSendData (net s))) (length (elems (asyncSendData (net s)))
      + length (L1_UnicastRequestHdrs s @ L1_MulticastRequestHdrs s))"
  shows "\<exists>t ds. Async_SendMRP cs Q junk triggers s
        = Some (Inr (remaining (MAX_TRIGGERS_PER_L1MRP s) triggers, t))
    \<and> elems (asyncSendData (net t)) = elems (asyncSendData (net s)) @ ds
    \<and> list_all2 (frame_for cs
          (trigger_bytes (live (trigger_heap s)) (rev (batch (MAX_TRIGGERS_PER_L1MRP s) triggers)))
          (live (bufs (net t))))
        (L1_UnicastRequestHdrs s @ L1_MulticastRequestHdrs s) ds
    \<and> queue_safe (elems (asyncSendData (net t))) (bufs (net t))
    \<and> dom (live (bufs (net t))) = dom (live (bufs (net s))) \<union> dc_data ` set ds
    \<and> live (bufs (net s)) \<subseteq>\<^sub>m live (bufs (net t))
    \<and> live (trigger_heap t)
        = live (trigger_heap s) |` (- set (batch (MAX_TRIGGERS_PER_L1MRP s) triggers))
    \<and> GetL1TriggersSent t = GetL1TriggersSent s + of_nat (length (batch (MAX_TRIGGERS_PER_L1MRP s) triggers))
    \<and> GetL1MRPsSent t = GetL1MRPsSent s + 1"
  using Async_SendMRP_ok [OF assms, of junk]
  by (elim exE conjE, intro exI conjI)
     (assumption | simp add: GetL1TriggersSent_def GetL1MRPsSent_def)+

theorem Async_SendMRP_frames_witness:
  "\<exists>t ds. Async_SendMRP rfc1071 list_queue (\<lambda>_ _. 0) [1, 2, 3] example_L1 = Some (Inr ([1], t))
     \<and> length ds = 2 \<and> fst (asyncSendData (net t)) = ds \<and> GetL1TriggersSent t = 2
     \<and> dom (live (trigger_heap t)) = {1}"
proof -
  let ?b = "batch (MAX_TRIGGERS_PER_L1MRP example_L1) [1, 2, 3]"
  have b: "?b = [2, 3]" "remaining (MAX_TRIGGERS_PER_L1MRP example_L1) [1, 2, 3] = [1]"
    by (simp_all add: batch_def remaining_def example_L1_def)
  have prems: "list_all request_hdr_ok (L1_UnicastRequestHdrs example_L1 @ L1_MulticastRequestHdrs example_L1)"
    "heap_ok (trigger_heap example_L1)" "distinct [1 :: nat, 2, 3]"
    "set [1, 2, 3] \<subseteq> dom (live (trigger_heap example_L1))" "length ?b \<le> 5457"
    "queue_safe (fst (asyncSendData (net example_L1))) (bufs (net example_L1))"
    "has_room (snd (asyncSendData (net example_L1))) (length (fst (asyncSendData (net example_L1)))
      + length (L1_UnicastRequestHdrs example_L1 @ L1_MulticastRequestHdrs example_L1))"
    by (simp_all only: b)
       (auto simp: example_L1_def request_hdr_ok_example heap_ok_def queue_safe_def has_room_def)
  from Async_SendMRP_frames [OF list_send_queue.send_queue_axioms rfc1071.inet_checksum_axioms prems, of "\<lambda>_ _. 0"]
  obtain t ds where t: "Async_SendMRP rfc1071 list_queue (\<lambda>_ _. 0) [1, 2, 3] example_L1 = Some (Inr ([1], t))"
    "fst (asyncSendData (net t)) = fst (asyncSendData (net example_L1)) @ ds"
    "list_all2 (frame_for rfc1071 (trigger_bytes (live (trigger_heap example_L1)) (rev ?b)) (live (bufs (net t))))
        (L1_UnicastRequestHdrs example_L1 @ L1_MulticastRequestHdrs example_L1) ds"
    "live (trigger_heap t) = live (trigger_heap example_L1) |` (- set ?b)"
    "GetL1TriggersSent t = GetL1TriggersSent example_L1 + of_nat (length ?b)"
    unfolding b(2) by (elim exE conjE) (rule that)
  have "length ds = 2" using list_all2_lengthD [OF t(3)] by (simp add: example_L1_def)
  moreover have "GetL1TriggersSent t = 2" "dom (live (trigger_heap t)) = {1}"
    using t(4,5) [unfolded b(1)] by (auto simp: example_L1_def GetL1TriggersSent_def)
  ultimately show ?thesis
    using t(1,2) by (intro exI [of _ t] exI [of _ ds]) (simp add: example_L1_def)
qed

section \<open>A trigger on the wire\<close>

lemma le24_of_le32: "le24 (ucast (drop_bit 8 w)) = drop 1 (le32 w)"
  by (simp add: le24_def le32_def) (auto intro!: bit_word_eqI simp: bit_simps)

lemma unat_byte_of: "unat (ucast (drop_bit k w) :: byte) = unat (w :: u32) div 2 ^ k mod 256"
  by (simp add: unsigned_ucast_eq take_bit_eq_mod unat_drop_bit_div)

lemma net_val_le24: "net_val (rev (take 3 (le32 w))) = unat w mod 2 ^ 24"
proof -
  have "unat w mod (256 * (256 * 256)) = 256 * (unat w div 256 mod (256 * 256)) + unat w mod 256"
    by (rule mod_mult2_eq)
  moreover have "unat w div 256 mod (256 * 256) = 256 * (unat w div 256 div 256 mod 256) + unat w div 256 mod 256"
    by (rule mod_mult2_eq)
  moreover have "unat w div 256 div 256 = unat w div 65536" by (simp add: div_mult2_eq [symmetric])
  ultimately have "unat w mod 16777216
      = (unat w div 65536 mod 256) * 65536 + (unat w div 256 mod 256) * 256 + unat w mod 256" by simp
  then show ?thesis
    using unat_byte_of [of 0 w] unat_byte_of [of 8 w] unat_byte_of [of 16 w]
    by (simp add: le32_def)
qed

lemma net_val_htonl: "net_val (le32 (htonl w)) = unat w"
proof -
  have "unat w = unat w div 2 ^ 24 * 2 ^ 24 + unat w mod 2 ^ 24" by simp
  moreover have "unat w div 2 ^ 24 < 256"
    using unsigned_less [of w, where ?'a = nat] by (simp add: less_mult_imp_div_less)
  then have "unat (ucast (drop_bit 24 w) :: byte) = unat w div 2 ^ 24"
    using unat_byte_of [of 24 w] by simp
  moreover have "le32 (htonl w) = ucast (drop_bit 24 w) # rev (take 3 (le32 w))"
    by (simp only: le32_htonl) (simp add: le32_def)
  ultimately show ?thesis using net_val_le24 [of w] by (simp add: le32_def)
qed

text \<open>
  C31: The element generated for an event is a fresh object whose 12 bytes in memory carry, most
  significant byte first, the timestamp, the trigger type word and the low 24 bits of the event number,
  with the fine time and the zero suppression flag in between: the shift after \<open>htonl\<close> drops the
  most significant byte.
\<close>

theorem trigger_on_wire:
  assumes "heap_ok h" and "generateTriggerHDR event zSuppressed h = (p, h')"
  shows "\<exists>t. live h p = None \<and> live h' = (live h)(p \<mapsto> t) \<and> heap_ok h'
    \<and> length (pack_TRIGGER_RAW_HDR t) = 12
    \<and> net_val (take 4 (pack_TRIGGER_RAW_HDR t)) = unat (getTimestamp event)
    \<and> pack_TRIGGER_RAW_HDR t ! 4 = getFinetime event
    \<and> pack_TRIGGER_RAW_HDR t ! 5 = (if zSuppressed then 1 else 0)
    \<and> net_val (take 2 (drop 6 (pack_TRIGGER_RAW_HDR t))) = unat (getTriggerTypeWord event)
    \<and> net_val (drop 9 (pack_TRIGGER_RAW_HDR t)) = unat (getEventNumber event) mod 2 ^ 24"
proof -
  let ?t = "\<lparr>timestamp = htonl (getTimestamp event), fineTime = getFinetime event,
       requestZeroSuppressed = (if zSuppressed then 1 else 0),
       triggerTypeWord = htons (getTriggerTypeWord event), reserved2 = 0,
       eventNumber = ucast (drop_bit 8 (htonl (getEventNumber event)))\<rparr>"
  have new: "heap_new ?t h = (p, h')" using assms(2) by (simp add: generateTriggerHDR_def)
  have "drop 1 (le32 (htonl (getEventNumber event))) = rev (take 3 (le32 (getEventNumber event)))"
    by (simp only: le32_htonl) (simp add: le32_def)
  then have "net_val (le24 (ucast (drop_bit 8 (htonl (getEventNumber event)))))
      = unat (getEventNumber event) mod 2 ^ 24"
    by (simp only: le24_of_le32 net_val_le24)
  then show ?thesis
    using heap_new_fresh [OF assms(1) new] heap_ok_new [OF assms(1) new] net_val_htonl [of "getTimestamp event"]
    by (intro exI [of _ ?t]) (simp add: pack_TRIGGER_RAW_HDR_def nth_append)
qed

theorem trigger_on_wire_witness:
  "\<exists>p h' t. generateTriggerHDR \<lparr>getTimestamp = 5, getFinetime = 7, getTriggerTypeWord = 1,
        getEventNumber = 0x01000002\<rparr> True \<lparr>fresh = 1, live = Map.empty\<rparr> = (p, h')
     \<and> live h' = [p \<mapsto> t] \<and> net_val (drop 9 (pack_TRIGGER_RAW_HDR t)) = 2"
proof -
  let ?e = "\<lparr>getTimestamp = 5, getFinetime = 7, getTriggerTypeWord = 1, getEventNumber = 0x01000002\<rparr>"
  let ?h = "\<lparr>fresh = 1, live = Map.empty :: nat \<rightharpoonup> TRIGGER_RAW_HDR\<rparr>"
  obtain p h' where g: "generateTriggerHDR ?e True ?h = (p, h')" by fastforce
  have "heap_ok ?h" by (simp add: heap_ok_def)
  from trigger_on_wire [OF this g] g show ?thesis by auto
qed

section \<open>Initialize\<close>

lemma new_request_hdr_ok:
  assumes "heap_ok (bufs n)" and "live (bufs n) mac = Some dMac" and "length dMac = 6" and "length (myMac n) = 6"
  obtains hdr where "new_request_hdr mac dIP sp dp n
      = Inr (hdr, n\<lparr>bufs := (bufs n)\<lparr>live := (live (bufs n))(mac := None)\<rparr>\<rparr>)"
    "request_hdr_ok hdr" "ether_dhost (eth (frame_udp hdr)) = dMac" "daddr (ip (frame_udp hdr)) = dIP"
    "ntohs (source (udp (frame_udp hdr))) = ucast sp" "ntohs (dest (udp (frame_udp hdr))) = ucast dp"
    "ipAddress (MRP_HDR hdr) = GetMyIP n"
proof
  let ?u = "udp_fields dMac (myMac n) (GetMyIP n) dIP (ucast sp) (ucast dp) (unpack_UDP_HDR (replicate 54 0))"
  let ?b = "pack_UDP_HDR ?u @ replicate 12 0"
  let ?m = "unpack_MRP_FRAME_HDR ?b"
  let ?hdr = "?m\<lparr>MRP_HDR := (MRP_HDR ?m)\<lparr>ipAddress := GetMyIP n, reserved := 0\<rparr>\<rparr>"
  have v: "valid_UDP_HDR ?u" using assms(3,4) by (rule valid_udp_fields)
  have gen: "GenerateUDP (myMac n) (GetMyIP n) (replicate 54 0) mac dIP (ucast sp) (ucast dp) (bufs n)
      = Inr (?b, (bufs n)\<lparr>live := (live (bufs n))(mac := None)\<rparr>)"
    using assms by (subst GenerateUDP_ok) simp_all
  show "new_request_hdr mac dIP sp dp n
      = Inr (?hdr, n\<lparr>bufs := (bufs n)\<lparr>live := (live (bufs n))(mac := None)\<rparr>\<rparr>)"
    by (simp add: new_request_hdr_def GetMyMac_def gen Let_def)
  have f: "frame_udp ?hdr = ?u" using v by (simp add: unpack_MRP_FRAME_HDR_def udp_hdr.unpack_pack)
  show "request_hdr_ok ?hdr"
    using v unfolding request_hdr_ok_def valid_MRP_FRAME_HDR_def f
    by simp (simp add: udp_fields_def pack_iphdr_def)
  show "ether_dhost (eth (frame_udp ?hdr)) = dMac" "daddr (ip (frame_udp ?hdr)) = dIP"
    "ntohs (source (udp (frame_udp ?hdr))) = ucast sp" "ntohs (dest (udp (frame_udp ?hdr))) = ucast dp"
    unfolding f by (simp_all add: udp_fields_def)
  show "ipAddress (MRP_HDR ?hdr) = GetMyIP n" by simp
qed

text \<open>The header made for an address: what a receiver of the configured group or host expects.\<close>

definition header_for ::
  "('q, 'm) NetworkHandler_scheme \<Rightarrow> u32 \<Rightarrow> u32 \<Rightarrow> u32 \<Rightarrow> byte list \<Rightarrow> MRP_FRAME_HDR \<Rightarrow> bool" where
  "header_for n sp dp dIP dMac hdr \<longleftrightarrow> request_hdr_ok hdr
     \<and> ether_dhost (eth (frame_udp hdr)) = dMac \<and> daddr (ip (frame_udp hdr)) = dIP
     \<and> ntohs (source (udp (frame_udp hdr))) = ucast sp \<and> ntohs (dest (udp (frame_udp hdr))) = ucast dp
     \<and> ipAddress (MRP_HDR hdr) = GetMyIP n"

text \<open>One header from a MAC block that was just allocated: nothing stays allocated.\<close>

lemma header_from_fresh_mac:
  assumes "heap_ok h'" and "live (bufs n) p = None" and "live h' = (live (bufs n))(p \<mapsto> dMac)"
    and "length dMac = 6" and "length (myMac n) = 6"
  obtains hdr h2 where "new_request_hdr p dIP sp dp (n\<lparr>bufs := h'\<rparr>) = Inr (hdr, n\<lparr>bufs := h2\<rparr>)"
    "header_for n sp dp dIP dMac hdr" "heap_ok h2" "live h2 = live (bufs n)"
proof -
  have prems: "heap_ok (bufs (n\<lparr>bufs := h'\<rparr>))" "live (bufs (n\<lparr>bufs := h'\<rparr>)) p = Some dMac"
    "length (myMac (n\<lparr>bufs := h'\<rparr>)) = 6" using assms by simp_all
  obtain hdr where hdr: "new_request_hdr p dIP sp dp (n\<lparr>bufs := h'\<rparr>)
      = Inr (hdr, n\<lparr>bufs := h'\<lparr>live := (live h')(p := None)\<rparr>\<rparr>)" "header_for n sp dp dIP dMac hdr"
    by (rule new_request_hdr_ok [OF prems(1,2) assms(4) prems(3), of dIP sp dp])
       (simp add: header_for_def GetMyIP_def)
  show ?thesis
    by (rule that [OF hdr]) (use assms(2,3) heap_ok_upd(1) [OF assms(1), of p] in \<open>auto simp: fun_upd_idem\<close>)
qed

definition multicast_mac :: "u32 \<Rightarrow> byte list" where
  "multicast_mac g = [0x01, 0x00, 0x5e, le32 g ! 1 AND 0x7f, le32 g ! 2, le32 g ! 3]"

lemma init_multicast_ok:
  assumes "heap_ok (bufs (net s))" and "length (myMac (net s)) = 6"
  shows "\<exists>hs h. init_multicast junk inet_addr sp dp ips s = Inr (s\<lparr>L1_MulticastRequestHdrs := L1_MulticastRequestHdrs s @ hs,
        net := (net s)\<lparr>bufs := h\<rparr>\<rparr>)
    \<and> list_all2 (\<lambda>ip. header_for (net s) sp dp (inet_addr ip) (multicast_mac (inet_addr ip))) ips hs
    \<and> heap_ok h \<and> live h = live (bufs (net s))"
  using assms
proof (induction ips arbitrary: s)
  case Nil
  then show ?case by (intro exI [of _ "[]"] exI [of _ "bufs (net s)"]) simp
next
  case (Cons ip ips)
  let ?g = "inet_addr ip"
  have "le32 ?g = [le32 ?g ! 0, le32 ?g ! 1, le32 ?g ! 2, le32 ?g ! 3]" by (simp add: le32_def)
  from GenerateMulticastMac_ok [OF Cons.prems(1) this, of junk] obtain p h' where
    mac: "GenerateMulticastMac junk ?g (bufs (net s)) = Inr (p, h')" "live (bufs (net s)) p = None"
      "live h' = (live (bufs (net s)))(p \<mapsto> multicast_mac ?g)" "heap_ok h'"
    by (auto simp: multicast_mac_def)
  have "length (multicast_mac ?g) = 6" by (simp add: multicast_mac_def)
  from header_from_fresh_mac [OF mac(4,2,3) this Cons.prems(2), of ?g sp dp] obtain hdr h2 where
    hdr: "new_request_hdr p ?g sp dp ((net s)\<lparr>bufs := h'\<rparr>) = Inr (hdr, (net s)\<lparr>bufs := h2\<rparr>)"
      "header_for (net s) sp dp ?g (multicast_mac ?g) hdr" "heap_ok h2" "live h2 = live (bufs (net s))" by blast
  let ?s = "s\<lparr>L1_MulticastRequestHdrs := L1_MulticastRequestHdrs s @ [hdr], net := (net s)\<lparr>bufs := h2\<rparr>\<rparr>"
  have "heap_ok (bufs (net ?s))" "length (myMac (net ?s)) = 6" using hdr(3) Cons.prems(2) by simp_all
  from Cons.IH [OF this] obtain hs h where rest:
    "init_multicast junk inet_addr sp dp ips ?s = Inr (?s\<lparr>L1_MulticastRequestHdrs := L1_MulticastRequestHdrs ?s @ hs,
        net := (net ?s)\<lparr>bufs := h\<rparr>\<rparr>)"
    "list_all2 (\<lambda>ip. header_for (net ?s) sp dp (inet_addr ip) (multicast_mac (inet_addr ip))) ips hs"
    "heap_ok h" "live h = live (bufs (net ?s))" by blast
  have net: "header_for (net ?s) = header_for (net s)" by (simp add: header_for_def GetMyIP_def fun_eq_iff)
  show ?case
    using mac(1) hdr rest unfolding net
    by (intro exI [of _ "hdr # hs"] exI [of _ h]) (simp add: Let_def)
qed

text \<open>The address a unicast destination gets, the six bytes of the gateway.\<close>

definition unicast_addr :: "(string \<Rightarrow> u32 option) \<Rightarrow> u32 \<Rightarrow> string \<Rightarrow> u32" where
  "unicast_addr inet_pton caddress a = (case inet_pton a of None \<Rightarrow> caddress | Some x \<Rightarrow> x)"

definition unicast_addrs :: "(string \<Rightarrow> u32 option) \<Rightarrow> (nat \<Rightarrow> u32) \<Rightarrow> string list \<Rightarrow> u32 list" where
  "unicast_addrs inet_pton caddress hosts
     = map (\<lambda>i. unicast_addr inet_pton (caddress i) (hosts ! i)) [0..<length hosts]"

lemma unicast_addrs_simps [simp]:
  "unicast_addrs inet_pton caddress [] = []"
  "unicast_addrs inet_pton caddress (a # as)
     = unicast_addr inet_pton (caddress 0) a # unicast_addrs inet_pton (\<lambda>i. caddress (Suc i)) as"
  by (simp_all add: unicast_addrs_def map_upt_Suc del: upt_Suc)

definition gateway :: "string \<Rightarrow> byte list" where
  "gateway mac = map ucast (scan_fields 6 (c_str mac))"

lemma gateway_mac:
  assumes "length (scan_fields 6 (c_str mac)) = 6" and "heap_ok h"
  obtains p h' where "StringToMAC junk mac h = Inr (p, h')" "live h p = None"
    "live h' = (live h)(p \<mapsto> gateway mac)" "heap_ok h'" "length (gateway mac) = 6"
proof
  let ?h = "h\<lparr>fresh := Suc (fresh h), live := (live h)(fresh h \<mapsto> gateway mac)\<rparr>"
  show "StringToMAC junk mac h = Inr (fresh h, ?h)"
    using StringToMAC_six [OF assms, of junk] by (simp add: gateway_def)
  show "live h (fresh h) = None" using assms(2) by (auto simp: heap_ok_def dom_def)
  show "heap_ok ?h" using assms(2) by (auto simp: heap_ok_def less_Suc_eq)
qed (simp_all add: gateway_def assms(1))

lemma init_unicast_ok:
  assumes "heap_ok (bufs (net s))" and "length (myMac (net s)) = 6"
    and "length (scan_fields 6 (c_str gatewayMAC)) = 6"
  shows "\<exists>hs h. init_unicast junk inet_pton caddress sp dp gatewayMAC as s
      = Inr (s\<lparr>L1_UnicastRequestHdrs := L1_UnicastRequestHdrs s @ hs, net := (net s)\<lparr>bufs := h\<rparr>\<rparr>)
    \<and> list_all2 (\<lambda>ip. header_for (net s) sp dp ip (gateway gatewayMAC)) (unicast_addrs inet_pton caddress as) hs
    \<and> heap_ok h \<and> live h = live (bufs (net s))"
  using assms(1,2)
proof (induction as arbitrary: s caddress)
  case Nil
  then show ?case by (intro exI [of _ "[]"] exI [of _ "bufs (net s)"]) simp
next
  case (Cons a as)
  let ?ip = "unicast_addr inet_pton (caddress 0) a"
  obtain p h' where mac: "StringToMAC junk gatewayMAC (bufs (net s)) = Inr (p, h')" "live (bufs (net s)) p = None"
      "live h' = (live (bufs (net s)))(p \<mapsto> gateway gatewayMAC)" "heap_ok h'" "length (gateway gatewayMAC) = 6"
    by (rule gateway_mac [OF assms(3) Cons.prems(1)])
  from header_from_fresh_mac [OF mac(4,2,3,5) Cons.prems(2), of ?ip sp dp] obtain hdr h2 where
    hdr: "new_request_hdr p ?ip sp dp ((net s)\<lparr>bufs := h'\<rparr>) = Inr (hdr, (net s)\<lparr>bufs := h2\<rparr>)"
      "header_for (net s) sp dp ?ip (gateway gatewayMAC) hdr" "heap_ok h2" "live h2 = live (bufs (net s))" by blast
  let ?s = "s\<lparr>L1_UnicastRequestHdrs := L1_UnicastRequestHdrs s @ [hdr], net := (net s)\<lparr>bufs := h2\<rparr>\<rparr>"
  have "heap_ok (bufs (net ?s))" "length (myMac (net ?s)) = 6" using hdr(3) Cons.prems(2) by simp_all
  from Cons.IH [OF this, of "\<lambda>i. caddress (Suc i)"] obtain hs h where rest:
    "init_unicast junk inet_pton (\<lambda>i. caddress (Suc i)) sp dp gatewayMAC as ?s
      = Inr (?s\<lparr>L1_UnicastRequestHdrs := L1_UnicastRequestHdrs ?s @ hs, net := (net ?s)\<lparr>bufs := h\<rparr>\<rparr>)"
    "list_all2 (\<lambda>ip. header_for (net ?s) sp dp ip (gateway gatewayMAC)) (unicast_addrs inet_pton (\<lambda>i. caddress (Suc i)) as) hs"
    "heap_ok h" "live h = live (bufs (net ?s))" by blast
  have net: "header_for (net ?s) = header_for (net s)" by (simp add: header_for_def GetMyIP_def fun_eq_iff)
  show ?case
    using mac(1) hdr rest unfolding net
    by (intro exI [of _ "hdr # hs"] exI [of _ h]) (simp add: Let_def unicast_addr_def)
qed

text \<open>
  C24: With a configured interface and a gateway MAC address of six fields, \<open>Initialize\<close> stores one
  request header per multicast group (to the group's RFC 1112 hardware address) and per unicast host
  (to the gateway), in the order given, each ready to be sent: a valid IPv4/UDP header to that address
  with the configured ports. No memory stays allocated. With a malformed gateway address it
  dereferences a null pointer, even when no unicast host is configured.
\<close>

theorem Initialize_headers:
  assumes "heap_ok (bufs (net s))" and "length (myMac (net s)) = 6"
  shows "if length (scan_fields 6 (c_str gatewayMAC)) = 6
    then \<exists>t ms us. Initialize junk inet_addr inet_pton caddress maxT minU groups hosts sp dp gatewayMAC s = Inr t
      \<and> L1_MulticastRequestHdrs t = L1_MulticastRequestHdrs s @ ms
      \<and> L1_UnicastRequestHdrs t = L1_UnicastRequestHdrs s @ us
      \<and> list_all2 (\<lambda>ip. header_for (net s) sp dp (inet_addr ip) (multicast_mac (inet_addr ip))) groups ms
      \<and> list_all2 (\<lambda>ip. header_for (net s) sp dp ip (gateway gatewayMAC)) (unicast_addrs inet_pton caddress hosts) us
      \<and> list_all request_hdr_ok (us @ ms)
      \<and> MAX_TRIGGERS_PER_L1MRP t = maxT \<and> MIN_USEC_BETWEEN_L1_REQUESTS t = minU
      \<and> live (bufs (net t)) = live (bufs (net s)) \<and> heap_ok (bufs (net t))
    else Initialize junk inet_addr inet_pton caddress maxT minU groups hosts sp dp gatewayMAC s = Inl NullDeref"
proof -
  let ?s = "s\<lparr>MAX_TRIGGERS_PER_L1MRP := maxT, MIN_USEC_BETWEEN_L1_REQUESTS := minU\<rparr>"
  have "heap_ok (bufs (net ?s))" "length (myMac (net ?s)) = 6" using assms by simp_all
  from init_multicast_ok [OF this, of junk inet_addr sp dp groups] obtain ms h where
    m: "init_multicast junk inet_addr sp dp groups ?s = Inr (?s\<lparr>L1_MulticastRequestHdrs := L1_MulticastRequestHdrs s @ ms,
        net := (net s)\<lparr>bufs := h\<rparr>\<rparr>)"
    "list_all2 (\<lambda>ip. header_for (net s) sp dp (inet_addr ip) (multicast_mac (inet_addr ip))) groups ms"
    "heap_ok h" "live h = live (bufs (net s))" by auto
  let ?t = "?s\<lparr>L1_MulticastRequestHdrs := L1_MulticastRequestHdrs s @ ms, net := (net s)\<lparr>bufs := h\<rparr>\<rparr>"
  have t: "heap_ok (bufs (net ?t))" "length (myMac (net ?t)) = 6" using m(3) assms(2) by simp_all
  have same: "header_for (net s\<lparr>bufs := x\<rparr>) = header_for (net s)" for x
    by (simp add: header_for_def GetMyIP_def fun_eq_iff)
  have ok: "list_all request_hdr_ok xs" if "list_all2 (\<lambda>a. header_for (net s) sp dp (f a) (g a)) ys xs" for f g xs ys
    using that by (induction rule: list_all2_induct) (simp_all add: header_for_def)
  show ?thesis
  proof (cases "length (scan_fields 6 (c_str gatewayMAC)) = 6")
    case True
    from init_unicast_ok [OF t True, of junk inet_pton caddress sp dp hosts] obtain us h2 where
      u: "init_unicast junk inet_pton caddress sp dp gatewayMAC hosts ?t
        = Inr (?t\<lparr>L1_UnicastRequestHdrs := L1_UnicastRequestHdrs s @ us, net := (net s)\<lparr>bufs := h2\<rparr>\<rparr>)"
      "list_all2 (\<lambda>ip. header_for (net s) sp dp ip (gateway gatewayMAC)) (unicast_addrs inet_pton caddress hosts) us"
      "heap_ok h2" "live h2 = live (bufs (net s))" using m(4) by (auto simp: same)
    obtain p h' where mac: "StringToMAC junk gatewayMAC h2 = Inr (p, h')" "live h2 p = None"
        "live h' = (live h2)(p \<mapsto> gateway gatewayMAC)" "heap_ok h'" "length (gateway gatewayMAC) = 6"
      by (rule gateway_mac [OF True u(3)])
    have "length (myMac ((net s)\<lparr>bufs := h2\<rparr>)) = 6" using assms(2) by simp
    moreover have "live (bufs ((net s)\<lparr>bufs := h2\<rparr>)) p = None"
      "live h' = (live (bufs ((net s)\<lparr>bufs := h2\<rparr>)))(p \<mapsto> gateway gatewayMAC)" using mac(2,3) by simp_all
    ultimately obtain hdr h3 where
      "new_request_hdr p 0 sp dp ((net s)\<lparr>bufs := h2, bufs := h'\<rparr>) = Inr (hdr, (net s)\<lparr>bufs := h2, bufs := h3\<rparr>)"
      "heap_ok h3" "live h3 = live (bufs ((net s)\<lparr>bufs := h2\<rparr>))"
      using header_from_fresh_mac [OF mac(4) _ _ mac(5)] by blast
    then have hdr: "new_request_hdr p 0 sp dp ((net s)\<lparr>bufs := h'\<rparr>) = Inr (hdr, (net s)\<lparr>bufs := h3\<rparr>)"
        "heap_ok h3" "live h3 = live h2" by simp_all
    show ?thesis
      using True m u mac(1) hdr ok [OF m(2)] ok [OF u(2)]
      by (simp add: Initialize_def)
  next
    case False
    have null: "bind_res (StringToMAC junk gatewayMAC h) (\<lambda>(mac, h). bind_res (new_request_hdr mac ip sp dp (n\<lparr>bufs := h\<rparr>)) f)
      = Inl NullDeref" for ip n f h
      using False by (simp add: StringToMAC_def new_chars_def heap_new_def new_request_hdr_def
          GenerateUDP_def heap_read_def)
    show ?thesis
      using False m(1) by (cases hosts) (simp_all add: Initialize_def null Let_def)
  qed
qed

theorem Initialize_headers_witness:
  "\<exists>t ms us. Initialize (\<lambda>_ _. 0) (\<lambda>_. 0x030201e0) (\<lambda>_. None) (\<lambda>_. 7) 100 1000 [''224.1.2.3''] [''10.0.0.9''] 58913 58915
       ''00:11:22:33:44:55'' example_L1 = Inr t
     \<and> L1_MulticastRequestHdrs t = example_header # ms \<and> length ms = 1
     \<and> L1_UnicastRequestHdrs t = example_header # us \<and> length us = 1"
proof -
  have "heap_ok (bufs (net example_L1))" "length (myMac (net example_L1)) = 6"
    by (simp_all add: example_L1_def heap_ok_def)
  moreover have "length (scan_fields 6 (c_str ''00:11:22:33:44:55'')) = 6"
    by (simp add: c_str_def eval_nat_numeral scan_hex2_def hex_value_def is_space_def)
  moreover have "L1_MulticastRequestHdrs example_L1 = [example_header]" "L1_UnicastRequestHdrs example_L1 = [example_header]"
    by (simp_all add: example_L1_def)
  ultimately show ?thesis
    using Initialize_headers [of example_L1 "''00:11:22:33:44:55''" "\<lambda>_ _. 0" "\<lambda>_. 0x030201e0" "\<lambda>_. None" "\<lambda>_. 7" 100 1000
        "[''224.1.2.3'']" "[''10.0.0.9'']" 58913 58915]
    by (fastforce dest: list_all2_lengthD simp: unicast_addrs_def)
qed

end
