(* ===== verification/PFring.thy ===== *)
theory PFring
  imports Prelude
begin

text \<open>
  \<open>socket/PFring.h\<close> and \<open>socket/PFring.cpp\<close>: the class \<open>ntop::PFring\<close>, a wrapper around a ring of the
  pf_ring library. The library is the parameter \<open>pfring_api\<close>: its functions take a ring handle and
  thread an opaque library state \<open>'r\<close>. A wrapper object holds a handle that may be null
  (\<open>None\<close>) and a heap copy of its device name.
\<close>

section \<open>The pf_ring library as a parameter\<close>

datatype cluster_type = cluster_round_robin

record pfring_stat =
  stat_recv :: u64
  stat_drop :: u64

record 'r pfring_api =
  pfring_set_cluster :: "nat \<Rightarrow> u32 \<Rightarrow> cluster_type \<Rightarrow> 'r \<Rightarrow> int \<times> 'r"
  pfring_remove_from_cluster :: "nat \<Rightarrow> 'r \<Rightarrow> int \<times> 'r"
  pfring_set_channel_id :: "nat \<Rightarrow> u16 \<Rightarrow> 'r \<Rightarrow> int \<times> 'r"
  pfring_recv :: "nat \<Rightarrow> u32 \<Rightarrow> byte \<Rightarrow> 'r \<Rightarrow> (int \<times> nat \<times> u32) \<times> 'r"
  pfring_loop :: "nat option \<Rightarrow> nat \<Rightarrow> 'r \<Rightarrow> int \<times> 'r"
  pfring_send :: "nat \<Rightarrow> byte list \<Rightarrow> bool \<Rightarrow> 'r \<Rightarrow> int \<times> 'r"
  pfring_poll :: "nat \<Rightarrow> nat \<Rightarrow> 'r \<Rightarrow> int \<times> 'r"
  pfring_set_bpf_filter :: "nat \<Rightarrow> string \<Rightarrow> 'r \<Rightarrow> int \<times> 'r"
  pfring_add_filtering_rule :: "nat \<Rightarrow> nat \<Rightarrow> 'r \<Rightarrow> int \<times> 'r"
  pfring_remove_filtering_rule :: "nat \<Rightarrow> u16 \<Rightarrow> 'r \<Rightarrow> int \<times> 'r"
  pfring_toggle_filtering_policy :: "nat \<Rightarrow> int \<Rightarrow> 'r \<Rightarrow> int \<times> 'r"
  pfring_handle_hash_filtering_rule :: "nat \<Rightarrow> nat \<Rightarrow> int \<Rightarrow> 'r \<Rightarrow> int \<times> 'r"
  pfring_stats :: "nat \<Rightarrow> 'r \<Rightarrow> (int \<times> pfring_stat option) \<times> 'r"
  pfring_get_filtering_rule_stats :: "nat \<Rightarrow> u16 \<Rightarrow> 'r \<Rightarrow> int \<times> 'r"
  pfring_get_hash_filtering_rule_stats :: "nat \<Rightarrow> nat \<Rightarrow> 'r \<Rightarrow> int \<times> 'r"
  pfring_enable_ring :: "nat \<Rightarrow> 'r \<Rightarrow> int \<times> 'r"
  pfring_set_sampling_rate :: "nat \<Rightarrow> u32 \<Rightarrow> 'r \<Rightarrow> int \<times> 'r"
  pfring_version :: "nat \<Rightarrow> 'r \<Rightarrow> int \<times> 'r"
  pfring_fd :: "nat \<Rightarrow> int"
  pfring_get_num_rx_channels :: "nat \<Rightarrow> 'r \<Rightarrow> byte \<times> 'r"
  pfring_close :: "nat \<Rightarrow> 'r \<Rightarrow> 'r"

section \<open>The wrapper object\<close>

record PFring =
  ring :: "nat option"
  snaplen :: u32
  device_name :: nat

text \<open>\<open>strdup\<close> of the name; the destructor frees it only when the ring is not null.\<close>

definition PFring_new :: "nat option \<Rightarrow> string \<Rightarrow> u32 \<Rightarrow> string heap \<Rightarrow> PFring \<times> string heap" where
  "PFring_new h name len names =
     (let (p, names) = heap_new (takeWhile (\<lambda>c. c \<noteq> CHR 0x00) name) names
      in (\<lparr>ring = h, snaplen = len, device_name = p\<rparr>, names))"

definition PFring_destroy ::
  "'r pfring_api \<Rightarrow> PFring \<Rightarrow> string heap \<Rightarrow> 'r \<Rightarrow> (PFring \<times> string heap \<times> 'r) res" where
  "PFring_destroy api p names r = (case ring p of
       None \<Rightarrow> Inr (p, names, r)
     | Some h \<Rightarrow> bind_res (heap_delete (device_name p) names) (\<lambda>names.
         Inr (p\<lparr>ring := None\<rparr>, names, pfring_close api h r)))"

text \<open>\<open>(ring ? f(ring, ...) : -1)\<close>, the body of nearly every method.\<close>

definition on_ring :: "PFring \<Rightarrow> (nat \<Rightarrow> 'r \<Rightarrow> int \<times> 'r) \<Rightarrow> 'r \<Rightarrow> int \<times> 'r" where
  "on_ring p f r = (case ring p of None \<Rightarrow> (- 1, r) | Some h \<Rightarrow> f h r)"

definition set_cluster :: "'r pfring_api \<Rightarrow> PFring \<Rightarrow> u32 \<Rightarrow> 'r \<Rightarrow> int \<times> 'r" where
  "set_cluster api p clusterId = on_ring p (\<lambda>h. pfring_set_cluster api h clusterId cluster_round_robin)"

definition remove_from_cluster :: "'r pfring_api \<Rightarrow> PFring \<Rightarrow> 'r \<Rightarrow> int \<times> 'r" where
  "remove_from_cluster api p = on_ring p (pfring_remove_from_cluster api)"

definition set_channel_id :: "'r pfring_api \<Rightarrow> PFring \<Rightarrow> u16 \<Rightarrow> 'r \<Rightarrow> int \<times> 'r" where
  "set_channel_id api p channelId = on_ring p (\<lambda>h. pfring_set_channel_id api h channelId)"

definition add_bpf_filter :: "'r pfring_api \<Rightarrow> PFring \<Rightarrow> string \<Rightarrow> 'r \<Rightarrow> int \<times> 'r" where
  "add_bpf_filter api p the_filter = on_ring p (\<lambda>h. pfring_set_bpf_filter api h the_filter)"

definition add_filtering_rule :: "'r pfring_api \<Rightarrow> PFring \<Rightarrow> nat \<Rightarrow> 'r \<Rightarrow> int \<times> 'r" where
  "add_filtering_rule api p the_rule = on_ring p (\<lambda>h. pfring_add_filtering_rule api h the_rule)"

definition remove_filtering_rule :: "'r pfring_api \<Rightarrow> PFring \<Rightarrow> u16 \<Rightarrow> 'r \<Rightarrow> int \<times> 'r" where
  "remove_filtering_rule api p rule_id = on_ring p (\<lambda>h. pfring_remove_filtering_rule api h rule_id)"

definition toggle_filtering_policy :: "'r pfring_api \<Rightarrow> PFring \<Rightarrow> bool \<Rightarrow> 'r \<Rightarrow> int \<times> 'r" where
  "toggle_filtering_policy api p accept =
     on_ring p (\<lambda>h. pfring_toggle_filtering_policy api h (if accept then 1 else 0))"

definition add_hash_filtering_rule :: "'r pfring_api \<Rightarrow> PFring \<Rightarrow> nat \<Rightarrow> 'r \<Rightarrow> int \<times> 'r" where
  "add_hash_filtering_rule api p rule = on_ring p (\<lambda>h. pfring_handle_hash_filtering_rule api h rule 1)"

definition remove_hash_filtering_rule :: "'r pfring_api \<Rightarrow> PFring \<Rightarrow> nat \<Rightarrow> 'r \<Rightarrow> int \<times> 'r" where
  "remove_hash_filtering_rule api p rule = on_ring p (\<lambda>h. pfring_handle_hash_filtering_rule api h rule 0)"

text \<open>\<open>stats\<close> is an out parameter; a failing call leaves it as it was.\<close>

definition get_stats :: "'r pfring_api \<Rightarrow> PFring \<Rightarrow> pfring_stat \<Rightarrow> 'r \<Rightarrow> int \<times> pfring_stat \<times> 'r" where
  "get_stats api p stats r = (case ring p of
       None \<Rightarrow> (- 1, stats, r)
     | Some h \<Rightarrow> (case pfring_stats api h r of
         ((rc, out), r) \<Rightarrow> (rc, case out of None \<Rightarrow> stats | Some s \<Rightarrow> s, r)))"

definition get_filtering_rule_stats :: "'r pfring_api \<Rightarrow> PFring \<Rightarrow> u16 \<Rightarrow> 'r \<Rightarrow> int \<times> 'r" where
  "get_filtering_rule_stats api p rule_id = on_ring p (\<lambda>h. pfring_get_filtering_rule_stats api h rule_id)"

definition get_hash_filtering_rule_stats :: "'r pfring_api \<Rightarrow> PFring \<Rightarrow> nat \<Rightarrow> 'r \<Rightarrow> int \<times> 'r" where
  "get_hash_filtering_rule_stats api p rule =
     on_ring p (\<lambda>h. pfring_get_hash_filtering_rule_stats api h rule)"

definition enable_ring :: "'r pfring_api \<Rightarrow> PFring \<Rightarrow> 'r \<Rightarrow> int \<times> 'r" where
  "enable_ring api p = on_ring p (pfring_enable_ring api)"

definition set_sampling_rate :: "'r pfring_api \<Rightarrow> PFring \<Rightarrow> u32 \<Rightarrow> 'r \<Rightarrow> int \<times> 'r" where
  "set_sampling_rate api p rate = on_ring p (\<lambda>h. pfring_set_sampling_rate api h rate)"

definition get_device_name :: "PFring \<Rightarrow> nat" where
  "get_device_name p = device_name p"

definition get_version :: "'r pfring_api \<Rightarrow> PFring \<Rightarrow> 'r \<Rightarrow> int \<times> 'r" where
  "get_version api p = on_ring p (pfring_version api)"

definition get_socket_id :: "'r pfring_api \<Rightarrow> PFring \<Rightarrow> int" where
  "get_socket_id api p = (case ring p of None \<Rightarrow> - 1 | Some h \<Rightarrow> pfring_fd api h)"

text \<open>The return type is \<open>u_int8_t\<close>, so the \<open>-1\<close> of a null ring is stored in a byte.\<close>

definition get_num_rx_channels :: "'r pfring_api \<Rightarrow> PFring \<Rightarrow> 'r \<Rightarrow> byte \<times> 'r" where
  "get_num_rx_channels api p r = (case ring p of
       None \<Rightarrow> (word_of_int (- 1), r) | Some h \<Rightarrow> pfring_get_num_rx_channels api h r)"

text \<open>\<open>hdr_ok\<close>: the header pointer is not null. The packet pointer and length are out parameters.\<close>

definition get_next_packet ::
  "'r pfring_api \<Rightarrow> PFring \<Rightarrow> bool \<Rightarrow> u32 \<Rightarrow> byte \<Rightarrow> 'r \<Rightarrow> (int \<times> (nat \<times> u32) option) \<times> 'r" where
  "get_next_packet api p hdr_ok pkt_len wait_for_incoming_packet r = (case ring p of
       None \<Rightarrow> ((- 1, None), r)
     | Some h \<Rightarrow> if \<not> hdr_ok then ((- 1, None), r)
         else (case pfring_recv api h pkt_len wait_for_incoming_packet r of
           ((rc, pkt, len), r) \<Rightarrow> ((rc, Some (pkt, len)), r)))"

text \<open>No null check here.\<close>

definition start_loop :: "'r pfring_api \<Rightarrow> PFring \<Rightarrow> nat \<Rightarrow> 'r \<Rightarrow> int \<times> 'r" where
  "start_loop api p looper = pfring_loop api (ring p) looper"

text \<open>\<open>poll\<close> of the system on one descriptor.\<close>

definition wait_for_packets :: "'r pfring_api \<Rightarrow> (int \<Rightarrow> int \<Rightarrow> int) \<Rightarrow> PFring \<Rightarrow> int \<Rightarrow> bool" where
  "wait_for_packets api sys_poll p msec =
     (let rc = sys_poll (get_socket_id api p) msec
      in if rc = - 1 then False else rc > 0)"

section \<open>send_packet\<close>

text \<open>The loop \<open>while (rc < 0)\<close>; \<open>None\<close> when it never ends.\<close>

partial_function (option) send_loop ::
  "'r pfring_api \<Rightarrow> nat \<Rightarrow> byte list \<Rightarrow> bool \<Rightarrow> bool \<Rightarrow> 'r \<Rightarrow> (int \<times> 'r) option" where
  "send_loop api h pkt flush active_poll r =
     (let (rc, r1) = pfring_send api h pkt flush r
      in if rc < 0
         then send_loop api h pkt flush active_poll
                (if \<not> active_poll then snd (pfring_poll api h 0 r1) else r1)
         else Some (rc, r1))"

definition send_packet ::
  "'r pfring_api \<Rightarrow> PFring \<Rightarrow> byte list \<Rightarrow> bool \<Rightarrow> bool \<Rightarrow> 'r \<Rightarrow> (int \<times> 'r) option" where
  "send_packet api p pkt flush active_poll r = (case ring p of
       None \<Rightarrow> Some (- 1, r)
     | Some h \<Rightarrow> if length pkt > 1500 then Some (- 1, r)
                else send_loop api h pkt flush active_poll r)"

text \<open>The library state at the \<open>k\<close>-th attempt, when all attempts before it have failed.\<close>

fun attempt_state :: "'r pfring_api \<Rightarrow> nat \<Rightarrow> byte list \<Rightarrow> bool \<Rightarrow> bool \<Rightarrow> nat \<Rightarrow> 'r \<Rightarrow> 'r" where
  "attempt_state api h pkt flush active_poll 0 r = r"
| "attempt_state api h pkt flush active_poll (Suc k) r =
     attempt_state api h pkt flush active_poll k
       (let r1 = snd (pfring_send api h pkt flush r)
        in if \<not> active_poll then snd (pfring_poll api h 0 r1) else r1)"

lemma send_loop_success:
  assumes "\<And>j. j < k \<Longrightarrow> fst (pfring_send api h pkt flush (attempt_state api h pkt flush ap j r)) < 0"
    and "pfring_send api h pkt flush (attempt_state api h pkt flush ap k r) = (rc, r')" and "0 \<le> rc"
  shows "send_loop api h pkt flush ap r = Some (rc, r')"
  using assms
proof (induction k arbitrary: r)
  case 0
  then show ?case by (subst send_loop.simps) simp
next
  case (Suc k)
  obtain rc0 r0 where s: "pfring_send api h pkt flush r = (rc0, r0)" by fastforce
  with Suc.prems(1) [of 0] have neg: "rc0 < 0" by simp
  let ?n = "if \<not> ap then snd (pfring_poll api h 0 r0) else r0"
  have "send_loop api h pkt flush ap ?n = Some (rc, r')"
  proof (rule Suc.IH)
    show "fst (pfring_send api h pkt flush (attempt_state api h pkt flush ap j ?n)) < 0" if "j < k" for j
      using Suc.prems(1) [of "Suc j"] that s by simp
    show "pfring_send api h pkt flush (attempt_state api h pkt flush ap k ?n) = (rc, r')"
      using Suc.prems(2) s by simp
  qed (rule Suc.prems(3))
  then show ?case using s neg by (subst send_loop.simps) simp
qed

lemma send_loop_returned:
  assumes "send_loop api h pkt flush ap r = Some (rc, r')"
  shows "\<exists>k. (\<forall>j < k. fst (pfring_send api h pkt flush (attempt_state api h pkt flush ap j r)) < 0)
    \<and> pfring_send api h pkt flush (attempt_state api h pkt flush ap k r) = (rc, r') \<and> 0 \<le> rc"
proof (rule send_loop.raw_induct [where P = "\<lambda>api h pkt flush ap r x. \<exists>k.
      (\<forall>j < k. fst (pfring_send api h pkt flush (attempt_state api h pkt flush ap j r)) < 0)
      \<and> pfring_send api h pkt flush (attempt_state api h pkt flush ap k r) = x \<and> 0 \<le> fst x",
      OF _ assms, unfolded fst_conv])
  fix loop and api :: "'r pfring_api" and h pkt flush ap r x
  assume IH: "\<And>api h pkt flush ap r x. loop api h pkt flush ap r = Some x \<Longrightarrow> \<exists>k.
      (\<forall>j < k. fst (pfring_send api h pkt flush (attempt_state api h pkt flush ap j r)) < 0)
      \<and> pfring_send api h pkt flush (attempt_state api h pkt flush ap k r) = x \<and> 0 \<le> fst x"
    and eq: "(let (rc, r1) = pfring_send api h pkt flush r
      in if rc < 0 then loop api h pkt flush ap (if \<not> ap then snd (pfring_poll api h 0 r1) else r1)
         else Some (rc, r1)) = Some x"
  obtain rc0 r0 where s: "pfring_send api h pkt flush r = (rc0, r0)" by fastforce
  let ?n = "if \<not> ap then snd (pfring_poll api h 0 r0) else r0"
  show "\<exists>k. (\<forall>j < k. fst (pfring_send api h pkt flush (attempt_state api h pkt flush ap j r)) < 0)
      \<and> pfring_send api h pkt flush (attempt_state api h pkt flush ap k r) = x \<and> 0 \<le> fst x"
  proof (cases "rc0 < 0")
    case True
    with eq s have "loop api h pkt flush ap ?n = Some x" by simp
    from IH [OF this] obtain k where
      k: "\<forall>j < k. fst (pfring_send api h pkt flush (attempt_state api h pkt flush ap j ?n)) < 0"
        "pfring_send api h pkt flush (attempt_state api h pkt flush ap k ?n) = x" "0 \<le> fst x"
      by blast
    show ?thesis
      using k s True by (intro exI [of _ "Suc k"]) (auto simp: less_Suc_eq_0_disj)
  next
    case False
    with eq s show ?thesis by (intro exI [of _ 0]) auto
  qed
qed

text \<open>
  C19: On an open ring and a packet of at most 1500 bytes, \<open>send_packet\<close> returns exactly when some
  attempt of the retry loop succeeds, and then with the result and state of the first one that does,
  a non-negative number; while the library keeps failing it does not return.
\<close>

theorem send_packet_first_success:
  assumes "ring p = Some h" and "length pkt \<le> 1500"
  shows "send_packet api p pkt flush ap r = Some (rc, r')
    \<longleftrightarrow> (\<exists>k. (\<forall>j < k. fst (pfring_send api h pkt flush (attempt_state api h pkt flush ap j r)) < 0)
          \<and> pfring_send api h pkt flush (attempt_state api h pkt flush ap k r) = (rc, r') \<and> 0 \<le> rc)"
  using assms send_loop_success [of _ api h pkt flush ap r rc r'] send_loop_returned [of api h pkt flush ap r rc r']
  by (auto simp: send_packet_def)

text \<open>A library whose state counts the attempts left until the buffer has room.\<close>

definition counting_api :: "nat pfring_api" where
  "counting_api =
     \<lparr>pfring_set_cluster = (\<lambda>_ _ _ r. (0, r)), pfring_remove_from_cluster = (\<lambda>_ r. (0, r)),
      pfring_set_channel_id = (\<lambda>_ _ r. (0, r)),
      pfring_recv = (\<lambda>_ _ _ r. ((if r = 0 then 0 else 1, 7, of_nat r), r - 1)),
      pfring_loop = (\<lambda>_ _ r. (0, r)),
      pfring_send = (\<lambda>_ pkt _ r. (if r = 0 then int (length pkt) else - 1, r - 1)),
      pfring_poll = (\<lambda>_ _ r. (0, r)), pfring_set_bpf_filter = (\<lambda>_ _ r. (0, r)),
      pfring_add_filtering_rule = (\<lambda>_ _ r. (0, r)), pfring_remove_filtering_rule = (\<lambda>_ _ r. (0, r)),
      pfring_toggle_filtering_policy = (\<lambda>_ _ r. (0, r)),
      pfring_handle_hash_filtering_rule = (\<lambda>_ _ _ r. (0, r)),
      pfring_stats = (\<lambda>h r. ((0, Some \<lparr>stat_recv = of_nat r, stat_drop = of_nat h\<rparr>), r)),
      pfring_get_filtering_rule_stats = (\<lambda>_ _ r. (0, r)),
      pfring_get_hash_filtering_rule_stats = (\<lambda>_ _ r. (0, r)),
      pfring_enable_ring = (\<lambda>_ r. (0, r)), pfring_set_sampling_rate = (\<lambda>_ _ r. (0, r)),
      pfring_version = (\<lambda>_ r. (0, r)), pfring_fd = (\<lambda>h. int h),
      pfring_get_num_rx_channels = (\<lambda>_ r. (1, r)), pfring_close = (\<lambda>_ r. r)\<rparr>"

theorem send_packet_first_success_witness:
  "send_packet counting_api \<lparr>ring = Some 3, snaplen = 128, device_name = 1\<rparr> [1, 2, 3] True True 2
     = Some (3, 0)"
  by (subst send_packet_first_success)
     (auto simp: counting_api_def less_Suc_eq eval_nat_numeral intro!: exI [of _ "Suc (Suc 0)"])

text \<open>
  A packet on a null ring, or one of more than 1500 bytes, is refused with \<open>-1\<close> and never reaches
  the library.
\<close>

theorem send_packet_refuses:
  assumes "ring p = None \<or> 1500 < length pkt"
  shows "send_packet api p pkt flush ap r = Some (- 1, r)"
  using assms by (auto simp: send_packet_def split: option.splits)

theorem send_packet_refuses_witness:
  "send_packet counting_api \<lparr>ring = Some 3, snaplen = 128, device_name = 1\<rparr> (replicate 1501 0) True True 0
     = Some (- 1, 0)"
  by (rule send_packet_refuses) simp

text \<open>
  On a null ring every wrapper that tests it returns \<open>-1\<close> and leaves the library alone, except
  that \<open>get_num_rx_channels\<close> reports 255 channels, the \<open>-1\<close> in its 8-bit return type.
\<close>

theorem null_ring:
  assumes "ring p = None"
  shows "set_cluster api p c r = (- 1, r) \<and> remove_from_cluster api p r = (- 1, r)
    \<and> set_channel_id api p ch r = (- 1, r) \<and> add_bpf_filter api p flt r = (- 1, r)
    \<and> add_filtering_rule api p rule r = (- 1, r) \<and> remove_filtering_rule api p rid r = (- 1, r)
    \<and> toggle_filtering_policy api p acc r = (- 1, r) \<and> add_hash_filtering_rule api p rule r = (- 1, r)
    \<and> remove_hash_filtering_rule api p rule r = (- 1, r)
    \<and> get_filtering_rule_stats api p rid r = (- 1, r) \<and> get_hash_filtering_rule_stats api p rule r = (- 1, r)
    \<and> enable_ring api p r = (- 1, r) \<and> set_sampling_rate api p rate r = (- 1, r)
    \<and> get_version api p r = (- 1, r) \<and> get_socket_id api p = - 1
    \<and> get_stats api p st r = (- 1, st, r) \<and> get_next_packet api p ok len wait r = ((- 1, None), r)
    \<and> get_num_rx_channels api p r = (255, r)"
  using assms
  by (simp add: set_cluster_def remove_from_cluster_def set_channel_id_def add_bpf_filter_def
      add_filtering_rule_def remove_filtering_rule_def toggle_filtering_policy_def
      add_hash_filtering_rule_def remove_hash_filtering_rule_def get_filtering_rule_stats_def
      get_hash_filtering_rule_stats_def enable_ring_def set_sampling_rate_def get_version_def
      get_socket_id_def get_stats_def get_next_packet_def get_num_rx_channels_def on_ring_def)

theorem null_ring_witness:
  "get_num_rx_channels counting_api \<lparr>ring = None, snaplen = 0, device_name = 0\<rparr> 5 = (255, 5)"
  using null_ring [of "\<lparr>ring = None, snaplen = 0, device_name = 0\<rparr>" counting_api 0 5] by simp

text \<open>
  Destroying a wrapper of an open ring frees the name its constructor copied and closes the ring
  once, and doing it again does nothing; for a null ring the copied name is never freed.
\<close>

theorem PFring_lifecycle:
  assumes "heap_ok names" and "PFring_new h name len names = (p, names1)"
  shows "ring p = h \<and> live names1 (device_name p) = Some (takeWhile (\<lambda>c. c \<noteq> CHR 0x00) name)
    \<and> (case h of
         Some k \<Rightarrow> \<exists>names2. PFring_destroy api p names1 r = Inr (p\<lparr>ring := None\<rparr>, names2, pfring_close api k r)
           \<and> live names2 = live names
           \<and> PFring_destroy api (p\<lparr>ring := None\<rparr>) names2 (pfring_close api k r)
               = Inr (p\<lparr>ring := None\<rparr>, names2, pfring_close api k r)
       | None \<Rightarrow> PFring_destroy api p names1 r = Inr (p, names1, r))"
proof -
  let ?s = "takeWhile (\<lambda>c. c \<noteq> CHR 0x00) name"
  obtain a where a: "heap_new ?s names = (a, names1)" and p: "p = \<lparr>ring = h, snaplen = len, device_name = a\<rparr>"
    using assms(2) by (auto simp: PFring_new_def split: prod.splits)
  have ok: "heap_ok names1" using heap_ok_new [OF assms(1) a] .
  have fr: "live names a = None" "live names1 = (live names)(a \<mapsto> ?s)"
    using heap_new_fresh [OF assms(1) a] by simp_all
  have "heap_delete a names1 = Inr (names1\<lparr>live := (live names1)(a := None)\<rparr>)"
    using ok fr by (intro heap_delete_live) simp_all
  then show ?thesis
    using fr by (auto simp: p PFring_destroy_def split: option.splits)
qed

theorem PFring_lifecycle_witness:
  "\<exists>names2. PFring_destroy counting_api \<lparr>ring = Some 4, snaplen = 128, device_name = 1\<rparr>
        \<lparr>fresh = 2, live = [1 \<mapsto> ''dna:eth0'']\<rparr> 0
      = Inr (\<lparr>ring = None, snaplen = 128, device_name = 1\<rparr>, names2, 0) \<and> live names2 = Map.empty"
proof -
  have "heap_ok \<lparr>fresh = 1, live = Map.empty :: nat \<rightharpoonup> string\<rparr>"
    and "PFring_new (Some 4) ''dna:eth0'' 128 \<lparr>fresh = 1, live = Map.empty\<rparr>
      = (\<lparr>ring = Some 4, snaplen = 128, device_name = 1\<rparr>, \<lparr>fresh = 2, live = [1 \<mapsto> ''dna:eth0'']\<rparr>)"
    by (simp_all add: heap_ok_def PFring_new_def heap_new_def)
  from PFring_lifecycle [OF this, of counting_api 0] show ?thesis
    by (auto simp: counting_api_def)
qed

end
