(* ===== verification/PFringHandler.thy ===== *)
theory PFringHandler
  imports Complex_Main NetworkHandler PFring
begin

text \<open>
  \<open>socket/PFringHandler.cpp\<close>: the back end of \<open>NetworkHandler\<close> on pf_ring (\<open>USE_PFRING\<close>): opening the
  rings, the queue of frames to send, sending with the Ethernet trailer, receiving, and the
  counters.
\<close>

section \<open>State and constructor\<close>

text \<open>\<open>queueRings\<close> is the array of rings, one per queue, \<open>lib\<close> the state of the pf_ring library and
  \<open>deviceNames\<close> the heap of the copied device names.\<close>

record ('q, 'r) PFringHandler = "'q NetworkHandler" +
  queueRings :: "PFring list"
  lib :: 'r
  deviceNames :: "string heap"

text \<open>
  The loop that opens one wrapper per ring. \<open>pfring_set_poll_watermark\<close> is a call of the library on
  the handle; a ring that cannot be enabled ends the process with \<open>exit(1)\<close>.
\<close>

fun open_rings ::
  "'r pfring_api \<Rightarrow> (nat \<Rightarrow> 'r \<Rightarrow> 'r) \<Rightarrow> string \<Rightarrow> nat \<Rightarrow> nat option list \<Rightarrow> PFring list \<Rightarrow> string heap \<Rightarrow> 'r
     \<Rightarrow> (PFring list \<times> string heap \<times> 'r) res" where
  "open_rings api set_poll_watermark device i [] opened names r = Inr (opened, names, r)"
| "open_rings api set_poll_watermark device i (h # hs) opened names r =
     (let queDeviceName = device @ ''@'' @ show_nat i;
          r = (case h of None \<Rightarrow> r | Some k \<Rightarrow> set_poll_watermark k r);
          (p, names) = PFring_new h queDeviceName 128 names;
          (rc, r) = enable_ring api p r
      in if rc \<ge> 0 then open_rings api set_poll_watermark device (i + 1) hs (opened @ [p]) names r
         else Inl (ProcessExit 1))"

text \<open>
  \<open>rings\<close> is what \<open>pfring_open_multichannel\<close> stores for the device, its length the number it returns.
  That number has 8 bits in the library, so that the 8-bit counter of the loop does not wrap.
  The send queue is bounded to 1000 frames.
\<close>

definition NetworkHandler_new ::
  "interface_api \<Rightarrow> u32 \<Rightarrow> (DataContainer, 'q) tbb_queue \<Rightarrow> 'r pfring_api \<Rightarrow> (nat \<Rightarrow> 'r \<Rightarrow> 'r)
     \<Rightarrow> string \<Rightarrow> nat option list \<Rightarrow> ('q, 'r) PFringHandler \<Rightarrow> ('q, 'r) PFringHandler res" where
  "NetworkHandler_new ifs ipjunk Q api set_poll_watermark device rings s =
     (let s = s\<lparr>deviceName := device\<rparr>
      in bind_res (GetMacOfInterface ifs device) (\<lambda>mac.
           let s = s\<lparr>myMac := mac, myIP := ucast (GetIPOfInterface ifs ipjunk (deviceName s)),
                     numberOfQueues := of_nat (length rings)\<rparr>
           in bind_res (open_rings api set_poll_watermark device 0 rings [] (deviceNames s) (lib s))
             (\<lambda>(opened, nms, r).
               Inr (s\<lparr>queueRings := opened, deviceNames := nms, lib := r,
                      asyncSendData := q_set_capacity Q 1000 (asyncSendData s)\<rparr>))))"

definition GetNumberOfQueues :: "('q, 'r) PFringHandler \<Rightarrow> u64" where
  "GetNumberOfQueues s = numberOfQueues s"

definition GetDeviceName :: "('q, 'r) PFringHandler \<Rightarrow> string" where
  "GetDeviceName s = deviceName s"

section \<open>Sending\<close>

text \<open>
  \<open>pkt\<close> is the memory the packet pointer points to. A packet of less than 60 bytes is copied into a
  fresh block of 60 and padded with zeros, and the block is deleted after sending.
\<close>

definition SendFrameConcurrently ::
  "'r pfring_api \<Rightarrow> (nat \<Rightarrow> nat \<Rightarrow> byte) \<Rightarrow> nat \<Rightarrow> byte list \<Rightarrow> u32 \<Rightarrow> bool \<Rightarrow> bool
     \<Rightarrow> ('q, 'r) PFringHandler \<Rightarrow> (int \<times> ('q, 'r) PFringHandler) res option" where
  "SendFrameConcurrently api junk threadNum pkt pktLen flush activePoll s =
     (let s = s\<lparr>framesSent := framesSent s + 1\<rparr>
      in if threadNum \<ge> length (queueRings s) \<or> unat pktLen > length pkt then Some (Inl OutOfBounds)
         else if pktLen < 60 then
           (let (buff, h) = new_chars junk 60 (bufs s);
                sendLen = 60 :: nat
            in bind_call (Some (heap_read buff h)) (\<lambda>block.
               bind_call (Some (memcpy block pkt (unat pktLen))) (\<lambda>block.
               let block = take (unat pktLen) block @ replicate (60 - unat pktLen) 0
               in bind_call (Some (heap_write buff block h)) (\<lambda>h.
                  case send_packet api (queueRings s ! threadNum) (take sendLen block) flush activePoll (lib s) of
                    None \<Rightarrow> None
                  | Some (rc, r) \<Rightarrow>
                      bind_call (Some (heap_delete buff h)) (\<lambda>h.
                      Some (Inr (rc, s\<lparr>bufs := h, lib := r\<rparr>)))))))
         else
           (case send_packet api (queueRings s ! threadNum) (take (unat pktLen) pkt) flush activePoll (lib s) of
              None \<Rightarrow> None
            | Some (rc, r) \<Rightarrow> Some (Inr (rc, s\<lparr>lib := r\<rparr>))))"

definition DoSendQueuedFrames ::
  "(DataContainer, 'q) tbb_queue \<Rightarrow> 'r pfring_api \<Rightarrow> (nat \<Rightarrow> nat \<Rightarrow> byte) \<Rightarrow> nat
     \<Rightarrow> ('q, 'r) PFringHandler \<Rightarrow> (int \<times> ('q, 'r) PFringHandler) res option" where
  "DoSendQueuedFrames Q api junk threadNum s =
     (case q_try_pop Q (asyncSendData s) of
        None \<Rightarrow> Some (Inr (0, s))
      | Some (data, q) \<Rightarrow>
          let s = s\<lparr>asyncSendData := q\<rparr>
          in bind_call (Some (heap_read (dc_data data) (bufs s))) (\<lambda>pkt.
             bind_call (SendFrameConcurrently api junk threadNum pkt (of_nat (dc_length data)) True True s)
               (\<lambda>(bytes, s).
                 if ownerMayFreeData data
                 then bind_call (Some (heap_delete (dc_data data) (bufs s)))
                        (\<lambda>h. Some (Inr (bytes, s\<lparr>bufs := h\<rparr>)))
                 else Some (Inr (bytes, s)))))"

section \<open>Receiving and statistics\<close>

text \<open>The packet header of the caller is the out parameter; the counters move only for a received
  packet (result 1).\<close>

definition GetNextFrame ::
  "'r pfring_api \<Rightarrow> u32 \<Rightarrow> byte \<Rightarrow> nat \<Rightarrow> ('q, 'r) PFringHandler
     \<Rightarrow> (int \<times> (nat \<times> u32) option \<times> ('q, 'r) PFringHandler) res" where
  "GetNextFrame api pkt_len wait queueNumber s =
     (if queueNumber \<ge> length (queueRings s) then Inl OutOfBounds
      else case get_next_packet api (queueRings s ! queueNumber) True pkt_len wait (lib s) of
        ((result, pkt), r) \<Rightarrow>
          let s = s\<lparr>lib := r\<rparr>
          in Inr (result, pkt,
               if result = 1
               then s\<lparr>bytesReceived := bytesReceived s
                        + (case pkt of None \<Rightarrow> 0 | Some (_, len) \<Rightarrow> ucast len),
                      framesReceived := framesReceived s + 1\<rparr>
               else s))"

text \<open>The loop of \<open>GetFramesDropped\<close>: one \<open>stats\<close> variable for all queues.\<close>

fun sum_dropped :: "'r pfring_api \<Rightarrow> PFring list \<Rightarrow> pfring_stat \<Rightarrow> u64 \<Rightarrow> 'r \<Rightarrow> u64 \<times> 'r" where
  "sum_dropped api [] stats dropped r = (dropped, r)"
| "sum_dropped api (p # ps) stats dropped r =
     (case get_stats api p stats r of
        (_, stats, r) \<Rightarrow> sum_dropped api ps stats (dropped + stat_drop stats) r)"

definition GetFramesDropped :: "'r pfring_api \<Rightarrow> ('q, 'r) PFringHandler \<Rightarrow> u64 \<times> ('q, 'r) PFringHandler" where
  "GetFramesDropped api s =
     (case sum_dropped api (queueRings s) \<lparr>stat_recv = 0, stat_drop = 0\<rparr> 0 (lib s) of
        (dropped, r) \<Rightarrow> (dropped, s\<lparr>lib := r\<rparr>))"

text \<open>
  \<open>PrintStats\<close> logs a row for each ring: its number, the frames received and dropped and the percentage of
  the dropped ones, here without the rounding of \<open>double\<close>. Again one \<open>stats\<close> serves all rings.
\<close>

fun stats_rows :: "'r pfring_api \<Rightarrow> nat \<Rightarrow> PFring list \<Rightarrow> pfring_stat \<Rightarrow> 'r \<Rightarrow> (nat \<times> u64 \<times> u64 \<times> rat) list \<times> 'r" where
  "stats_rows api i [] stats r = ([], r)"
| "stats_rows api i (p # ps) stats r =
     (case get_stats api p stats r of
        (_, stats, r) \<Rightarrow>
          (case stats_rows api (i + 1) ps stats r of
             (rows, r) \<Rightarrow> ((i, stat_recv stats, stat_drop stats,
                 100 * of_nat (unat (stat_drop stats)) / (of_nat (unat (stat_recv stats)) + 1)) # rows, r)))"

definition PrintStats :: "'r pfring_api \<Rightarrow> ('q, 'r) PFringHandler \<Rightarrow> (nat \<times> u64 \<times> u64 \<times> rat) list \<times> ('q, 'r) PFringHandler" where
  "PrintStats api s =
     (case stats_rows api 0 (queueRings s) \<lparr>stat_recv = 0, stat_drop = 0\<rparr> (lib s) of
        (rows, r) \<Rightarrow> (rows, s\<lparr>lib := r\<rparr>))"

section \<open>The gratuitous ARP thread\<close>

text \<open>
  One ARP frame is built before the loop and marked as not to be freed; each iteration copies it to a
  64-byte buffer on the stack for a log line and enqueues the same container again.
\<close>

definition arp_thread_start ::
  "(nat \<Rightarrow> nat \<Rightarrow> byte) \<Rightarrow> ('q, 'r) PFringHandler \<Rightarrow> (DataContainer \<times> ('q, 'r) PFringHandler) res" where
  "arp_thread_start junk s =
     bind_res (GenerateGratuitousARPv4 junk (GetMyMac s) (GetMyIP s) (bufs s)) (\<lambda>(container, h).
     Inr (container\<lparr>ownerMayFreeData := False\<rparr>, s\<lparr>bufs := h\<rparr>))"

definition arp_thread_iteration ::
  "(DataContainer, 'q) tbb_queue \<Rightarrow> DataContainer \<Rightarrow> ('q, 'r) PFringHandler \<Rightarrow> ('q, 'r) PFringHandler res option" where
  "arp_thread_iteration Q container s =
     bind_call (Some (heap_read (dc_data container) (bufs s))) (\<lambda>block.
     bind_call (Some (guard_res (dc_length container \<le> length block \<and> dc_length container \<le> 64) OutOfBounds)) (\<lambda>_.
     map_option Inr (AsyncSendFrame Q container s)))"

section \<open>What a frame becomes on the wire\<close>

text \<open>The bytes handed to \<open>pfring_send\<close> for a packet of \<open>n\<close> bytes: short frames get a trailer.\<close>

definition on_wire :: "byte list \<Rightarrow> nat \<Rightarrow> byte list" where
  "on_wire pkt n = take n pkt @ replicate (60 - n) 0"

lemma length_on_wire: "n \<le> length pkt \<Longrightarrow> length (on_wire pkt n) = max 60 n"
  by (simp add: on_wire_def)

lemma SendFrameConcurrently_spec:
  assumes "heap_ok (bufs s)" and "threadNum < length (queueRings s)" and "unat pktLen \<le> length pkt"
  shows "\<exists>h. heap_ok h \<and> live h = live (bufs s) \<and>
    SendFrameConcurrently api junk threadNum pkt pktLen flush ap s =
      (case send_packet api (queueRings s ! threadNum) (on_wire pkt (unat pktLen)) flush ap (lib s) of
         None \<Rightarrow> None
       | Some (rc, r) \<Rightarrow> Some (Inr (rc, s\<lparr>framesSent := framesSent s + 1, bufs := h, lib := r\<rparr>)))"
proof (cases "pktLen < 60")
  case True
  let ?h = "bufs s"
  let ?a = "fresh ?h"
  have less: "unat pktLen < 60" using True by (simp add: word_less_nat_alt)
  have pos: "0 < ?a" and none: "live ?h ?a = None"
    using assms(1) by (auto simp: heap_ok_def dom_def)
  have wire: "take 60 (take (unat pktLen) pkt @ replicate (60 - unat pktLen) 0) = on_wire pkt (unat pktLen)"
    using less assms(3) by (simp add: on_wire_def)
  show ?thesis
    using True less pos none assms wire
    by (intro exI [of _ "?h\<lparr>fresh := Suc ?a\<rparr>"])
       (auto simp: SendFrameConcurrently_def new_chars_def heap_new_def heap_read_def heap_write_def
         heap_delete_def memcpy_def Let_def heap_ok_def fun_upd_idem less_SucI
         split: option.splits)
next
  case False
  then have "60 \<le> unat pktLen" by (simp add: word_less_nat_alt not_less)
  with False assms show ?thesis
    by (intro exI [of _ "bufs s"])
       (auto simp: SendFrameConcurrently_def on_wire_def Let_def split: option.splits)
qed

section \<open>The back end meets its contract\<close>

context send_queue
begin

lemma DoSendQueuedFrames_empty:
  "elems (asyncSendData s) = [] \<Longrightarrow> DoSendQueuedFrames Q api junk threadNum s = Some (Inr (0, s))"
  by (simp add: DoSendQueuedFrames_def try_pop_empty)

lemma DoSendQueuedFrames_head:
  assumes "threadNum < length (queueRings s)" and "queue_safe (d # ds) (bufs s)"
    and "elems (asyncSendData s) = d # ds" and "live (bufs s) (dc_data d) = Some pkt"
  obtains q h where "elems q = ds" "heap_ok h" "live h = release d (live (bufs s))"
    "DoSendQueuedFrames Q api junk threadNum s =
      (case send_packet api (queueRings s ! threadNum) (on_wire pkt (dc_length d)) True True (lib s) of
         None \<Rightarrow> None
       | Some (rc, r) \<Rightarrow> Some (Inr (rc, s\<lparr>framesSent := framesSent s + 1, asyncSendData := q, bufs := h, lib := r\<rparr>)))"
proof -
  obtain q where q: "q_try_pop Q (asyncSendData s) = Some (d, q)" "elems q = ds"
    using try_pop_head [OF assms(3)] by auto
  have len: "dc_length d \<le> length pkt" "dc_length d < 2 ^ 32" "heap_ok (bufs s)"
    and rd: "heap_read (dc_data d) (bufs s) = Inr pkt"
    using assms(2,4) queue_safe_head [OF assms(2)] by (auto simp: queue_safe_def)
  let ?s = "s\<lparr>asyncSendData := q\<rparr>"
  have n: "unat (of_nat (dc_length d) :: u32) = dc_length d"
    using len(2) by (simp add: unsigned_of_nat take_bit_eq_mod)
  obtain h where h: "heap_ok h" "live h = live (bufs s)" and
    send: "SendFrameConcurrently api junk threadNum pkt (of_nat (dc_length d)) True True ?s =
      (case send_packet api (queueRings s ! threadNum) (on_wire pkt (dc_length d)) True True (lib s) of
         None \<Rightarrow> None
       | Some (rc, r) \<Rightarrow> Some (Inr (rc, ?s\<lparr>framesSent := framesSent ?s + 1, bufs := h, lib := r\<rparr>)))"
    using SendFrameConcurrently_spec [of ?s threadNum "of_nat (dc_length d)" pkt api junk True True] assms(1) len n
    by auto
  have del: "heap_delete (dc_data d) h = Inr (h\<lparr>live := (live h)(dc_data d := None)\<rparr>)"
    using h assms(4) by (simp add: heap_delete_live)
  let ?g = "if ownerMayFreeData d then h\<lparr>live := (live h)(dc_data d := None)\<rparr> else h"
  show ?thesis
  proof (rule that [OF q(2)])
    show "heap_ok ?g" using h(1) heap_ok_upd(1) [OF h(1), of "dc_data d"] by simp
    show "live ?g = release d (live (bufs s))" using h by (simp add: release_def)
    show "DoSendQueuedFrames Q api junk threadNum s =
      (case send_packet api (queueRings s ! threadNum) (on_wire pkt (dc_length d)) True True (lib s) of
         None \<Rightarrow> None
       | Some (rc, r) \<Rightarrow> Some (Inr (rc, s\<lparr>framesSent := framesSent s + 1, asyncSendData := q, bufs := ?g, lib := r\<rparr>)))"
      using q rd send del
      by (auto simp: DoSendQueuedFrames_def split: option.splits)
  qed
qed

sublocale pfring: frame_sender "AsyncSendFrame Q" "DoSendQueuedFrames Q api junk threadNum"
    "\<lambda>s. elems (asyncSendData s)" bufs "\<lambda>s. threadNum < length (queueRings s)"
  for api junk threadNum
proof (unfold_locales, goal_cases)
  case (1 d s s')
  then show ?case using AsyncSendFrame_appends [OF 1] by auto
next
  case (2 s)
  then show ?case by (rule DoSendQueuedFrames_empty)
next
  case (3 s e)
  show ?case
  proof (cases "elems (asyncSendData s)")
    case Nil
    then show ?thesis by (simp add: DoSendQueuedFrames_empty)
  next
    case (Cons d ds)
    with 3 obtain pkt where "live (bufs s) (dc_data d) = Some pkt" by (metis queue_safe_head)
    from 3(1) 3(2) [unfolded Cons] Cons this obtain q h where
      "DoSendQueuedFrames Q api junk threadNum s =
        (case send_packet api (queueRings s ! threadNum) (on_wire pkt (dc_length d)) True True (lib s) of
           None \<Rightarrow> None
         | Some (rc, r) \<Rightarrow> Some (Inr (rc, s\<lparr>framesSent := framesSent s + 1, asyncSendData := q, bufs := h, lib := r\<rparr>)))"
      by (rule DoSendQueuedFrames_head)
    then show ?thesis by (simp split: option.split prod.split)
  qed
next
  case (4 s d ds n s')
  then obtain pkt where "live (bufs s) (dc_data d) = Some pkt" by (metis queue_safe_head)
  with 4(1-3) obtain q h where qh: "elems q = ds" "heap_ok h" "live h = release d (live (bufs s))"
    and eq: "DoSendQueuedFrames Q api junk threadNum s =
      (case send_packet api (queueRings s ! threadNum) (on_wire pkt (dc_length d)) True True (lib s) of
         None \<Rightarrow> None
       | Some (rc, r) \<Rightarrow> Some (Inr (rc, s\<lparr>framesSent := framesSent s + 1, asyncSendData := q, bufs := h, lib := r\<rparr>)))"
    by (rule DoSendQueuedFrames_head)
  from eq [unfolded 4(4)] obtain r where
    "s' = s\<lparr>framesSent := framesSent s + 1, asyncSendData := q, bufs := h, lib := r\<rparr>"
    by (auto split: option.splits)
  with qh 4(1) show ?case by simp
qed

end


section \<open>Properties\<close>

text \<open>
  Sending a packet hands the library exactly its bytes, followed by zeros up to the minimum frame
  length of 60, returns what the library returns, counts one frame, and leaves every block of memory
  as it was (the padding buffer is freed).
\<close>

theorem SendFrameConcurrently_pads:
  assumes "heap_ok (bufs s)" and "threadNum < length (queueRings s)" and "unat pktLen \<le> length pkt"
  shows "\<exists>h. live h = live (bufs s) \<and> heap_ok h \<and> length (on_wire pkt (unat pktLen)) = max 60 (unat pktLen)
    \<and> take (unat pktLen) (on_wire pkt (unat pktLen)) = take (unat pktLen) pkt
    \<and> set (drop (unat pktLen) (on_wire pkt (unat pktLen))) \<subseteq> {0}
    \<and> SendFrameConcurrently api junk threadNum pkt pktLen flush ap s =
      (case send_packet api (queueRings s ! threadNum) (on_wire pkt (unat pktLen)) flush ap (lib s) of
         None \<Rightarrow> None
       | Some (rc, r) \<Rightarrow> Some (Inr (rc, s\<lparr>framesSent := framesSent s + 1, bufs := h, lib := r\<rparr>)))"
  using SendFrameConcurrently_spec [OF assms, of api junk flush ap] assms(3) length_on_wire [OF assms(3)]
  by (auto simp: on_wire_def)

definition example_PFring :: PFring where
  "example_PFring = \<lparr>ring = Some 3, snaplen = 128, device_name = 1\<rparr>"

definition example_state :: "(DataContainer list \<times> nat option, nat) PFringHandler" where
  "example_state = \<lparr>myMac = [2, 4, 6, 8, 10, 12], myIP = 0x0100000a, bytesReceived = 0, framesReceived = 0,
     framesSent = 0, numberOfQueues = 1, deviceName = ''eth0'',
     asyncSendData = ([\<lparr>dc_data = 1, dc_length = 3, ownerMayFreeData = True\<rparr>,
       \<lparr>dc_data = 2, dc_length = 1, ownerMayFreeData = False\<rparr>], Some 1000),
     bufs = \<lparr>fresh = 3, live = [1 \<mapsto> [7, 8, 9], 2 \<mapsto> [5]]\<rparr>,
     queueRings = [example_PFring], lib = 0, deviceNames = \<lparr>fresh = 2, live = [1 \<mapsto> ''eth0@0'']\<rparr>\<rparr>"

lemma example_state_safe: "queue_safe (fst (asyncSendData example_state)) (bufs example_state)"
  "heap_ok (bufs example_state)" "length (queueRings example_state) = 1"
  by (auto simp: example_state_def queue_safe_def container_ok_def heap_ok_def)

theorem SendFrameConcurrently_pads_witness:
  "\<exists>t. SendFrameConcurrently counting_api (\<lambda>_ _. 0) 0 [7, 8, 9] 3 True True example_state = Some (Inr (60, t))
     \<and> live (bufs t) = live (bufs example_state)"
proof -
  have "send_packet counting_api (queueRings example_state ! 0) (on_wire [7, 8, 9] 3) True True (lib example_state)
      = Some (60, 0)"
    by (simp add: example_state_def example_PFring_def send_packet_def on_wire_def)
       (subst send_loop.simps, simp add: counting_api_def)
  moreover have "unat (3 :: u32) \<le> length [7 :: byte, 8, 9]" by simp
  ultimately show ?thesis
    using SendFrameConcurrently_pads [of example_state 0 3 "[7, 8, 9]" counting_api "\<lambda>_ _. 0" True True]
      example_state_safe by auto
qed

text \<open>The sender returns when the library accepts every packet it is handed.\<close>

definition accepting :: "'r pfring_api \<Rightarrow> bool" where
  "accepting api \<longleftrightarrow> (\<forall>h pkt flush r. 0 \<le> fst (pfring_send api h pkt flush r))"

lemma accepting_returns:
  assumes "accepting api"
  shows "\<exists>rc r'. send_packet api p pkt flush ap r = Some (rc, r')"
proof (cases "ring p")
  case (Some h)
  obtain rc r' where "pfring_send api h pkt flush r = (rc, r')" by fastforce
  moreover from this assms have "0 \<le> rc" by (metis accepting_def fst_conv)
  ultimately have "send_loop api h pkt flush ap r = Some (rc, r')"
    by (subst send_loop.simps) simp
  with Some show ?thesis by (auto simp: send_packet_def)
qed (simp add: send_packet_def)

context send_queue
begin

lemma pfring_contract:
  "frame_sender (AsyncSendFrame Q) (DoSendQueuedFrames Q api junk threadNum)
     (\<lambda>s. elems (asyncSendData s)) bufs (\<lambda>s. threadNum < length (queueRings s))"
  by (rule pfring.frame_sender_axioms)

lemma pfring_drain:
  assumes "accepting api" and "threadNum < length (queueRings s)"
    and "queue_safe ds (bufs s)" and "elems (asyncSendData s) = ds"
  shows "\<exists>t. sends (DoSendQueuedFrames Q api junk threadNum) (length ds) s = Some (Inr t)
    \<and> framesSent t = framesSent s + of_nat (length ds)"
  using assms(2-)
proof (induction ds arbitrary: s)
  case (Cons d ds)
  then obtain pkt where "live (bufs s) (dc_data d) = Some pkt" by (metis queue_safe_head)
  with Cons.prems obtain q h where qh: "elems q = ds" "heap_ok h" "live h = release d (live (bufs s))"
    and eq: "DoSendQueuedFrames Q api junk threadNum s =
      (case send_packet api (queueRings s ! threadNum) (on_wire pkt (dc_length d)) True True (lib s) of
         None \<Rightarrow> None
       | Some (rc, r) \<Rightarrow> Some (Inr (rc, s\<lparr>framesSent := framesSent s + 1, asyncSendData := q, bufs := h, lib := r\<rparr>)))"
    by (rule DoSendQueuedFrames_head)
  obtain rc r where "send_packet api (queueRings s ! threadNum) (on_wire pkt (dc_length d)) True True (lib s)
      = Some (rc, r)"
    using accepting_returns [OF assms(1)] by blast
  with eq have step: "DoSendQueuedFrames Q api junk threadNum s =
      Some (Inr (rc, s\<lparr>framesSent := framesSent s + 1, asyncSendData := q, bufs := h, lib := r\<rparr>))" by simp
  have "queue_safe ds h" using queue_safe_release [OF Cons.prems(2) qh(2,3)] .
  with Cons.IH [of "s\<lparr>framesSent := framesSent s + 1, asyncSendData := q, bufs := h, lib := r\<rparr>"]
    Cons.prems(1) qh(1) step
  show ?case by (auto simp: algebra_simps)
qed simp

end

text \<open>
  C13: From a queue whose containers point to live blocks and share none that will be freed, the sender
  never reads or frees a block that is not allocated, however often it runs; and on a library that
  accepts packets as many calls as frames are queued all return, empty the queue, count each frame
  once and free exactly the blocks the sender owns.
\<close>

theorem sender_drains_queue:
  assumes "send_queue Q elems cap" and "threadNum < length (queueRings s)"
    and "queue_safe (elems (asyncSendData s)) (bufs s)"
  shows "sends (DoSendQueuedFrames Q api junk threadNum) n s \<noteq> Some (Inl e)
    \<and> (accepting api \<longrightarrow> (\<exists>t. sends (DoSendQueuedFrames Q api junk threadNum) (length (elems (asyncSendData s))) s
          = Some (Inr t)
        \<and> elems (asyncSendData t) = []
        \<and> framesSent t = framesSent s + of_nat (length (elems (asyncSendData s)))
        \<and> (\<forall>p. live (bufs t) p =
             (if \<exists>d \<in> set (elems (asyncSendData s)). ownerMayFreeData d \<and> dc_data d = p then None
              else live (bufs s) p))))"
proof (intro conjI impI)
  let ?ds = "elems (asyncSendData s)"
  have fs: "frame_sender (AsyncSendFrame Q) (DoSendQueuedFrames Q api junk threadNum)
      (\<lambda>s. elems (asyncSendData s)) bufs (\<lambda>s. threadNum < length (queueRings s))"
    by (rule send_queue.pfring_contract [OF assms(1)])
  show "sends (DoSendQueuedFrames Q api junk threadNum) n s \<noteq> Some (Inl e)"
    using assms(2,3) by (intro frame_sender.sends_no_fault [OF fs]) simp_all
  assume "accepting api"
  from send_queue.pfring_drain [OF assms(1) this assms(2,3) refl, of junk] obtain t where
    t: "sends (DoSendQueuedFrames Q api junk threadNum) (length ?ds) s = Some (Inr t)"
      "framesSent t = framesSent s + of_nat (length ?ds)" by blast
  from frame_sender.sends_drains [OF fs t(1) assms(2,3) refl]
  have "elems (asyncSendData t) = []" "live (bufs t) = fold release ?ds (live (bufs s))" by simp_all
  with t show "\<exists>t. sends (DoSendQueuedFrames Q api junk threadNum) (length ?ds) s = Some (Inr t)
        \<and> elems (asyncSendData t) = []
        \<and> framesSent t = framesSent s + of_nat (length ?ds)
        \<and> (\<forall>p. live (bufs t) p =
             (if \<exists>d \<in> set ?ds. ownerMayFreeData d \<and> dc_data d = p then None else live (bufs s) p))"
    by (simp add: fold_release)
qed

lemma accepting_instance: "accepting (counting_api\<lparr>pfring_send := \<lambda>h pkt fl r. (int (length pkt), r)\<rparr>)"
  by (simp add: accepting_def)

theorem sender_drains_queue_witness:
  "\<exists>t. sends (DoSendQueuedFrames list_queue (counting_api\<lparr>pfring_send := \<lambda>h pkt fl r. (int (length pkt), r)\<rparr>)
        (\<lambda>_ _. 0) 0) 2 example_state = Some (Inr t)
     \<and> fst (asyncSendData t) = [] \<and> framesSent t = 2 \<and> live (bufs t) 1 = None \<and> live (bufs t) 2 = Some [5]"
proof -
  have "length (fst (asyncSendData example_state)) = 2" "framesSent example_state = 0"
    "live (bufs example_state) 2 = Some [5]"
    by (simp_all add: example_state_def)
  moreover have "0 < length (queueRings example_state)" using example_state_safe by simp
  ultimately obtain t where t:
    "sends (DoSendQueuedFrames list_queue (counting_api\<lparr>pfring_send := \<lambda>h pkt fl r. (int (length pkt), r)\<rparr>)
        (\<lambda>_ _. 0) 0) 2 example_state = Some (Inr t)"
    "fst (asyncSendData t) = []" "framesSent t = 2" and
    l: "\<forall>p. live (bufs t) p = (if \<exists>d \<in> set (fst (asyncSendData example_state)). ownerMayFreeData d \<and> dc_data d = p
      then None else live (bufs example_state) p)"
    using sender_drains_queue [OF list_send_queue.send_queue_axioms, where threadNum = 0 and
        s = example_state and api = "counting_api\<lparr>pfring_send := \<lambda>h pkt fl r. (int (length pkt), r)\<rparr>"
        and junk = "\<lambda>_ _. 0" and n = 0 and e = NullDeref]
      example_state_safe(1) accepting_instance
    by auto
  have owned: "\<exists>d \<in> set (fst (asyncSendData example_state)). ownerMayFreeData d \<and> dc_data d = 1"
    "\<not> (\<exists>d \<in> set (fst (asyncSendData example_state)). ownerMayFreeData d \<and> dc_data d = 2)"
    by (simp_all add: example_state_def)
  have "live (bufs t) 1 = None" "live (bufs t) 2 = Some [5]"
    using l [rule_format, of 1] l [rule_format, of 2] owned
    by (simp_all only: if_True if_False) (simp add: example_state_def)
  with t show ?thesis by blast
qed

section \<open>The constructor\<close>

definition ring_name :: "string \<Rightarrow> nat \<Rightarrow> string" where
  "ring_name device i = takeWhile (\<lambda>c. c \<noteq> CHR 0x00) (device @ ''@'' @ show_nat i)"

lemma open_rings_null: "None \<in> set hs \<Longrightarrow> open_rings api wm device i hs opened nms r = Inl (ProcessExit 1)"
proof (induction hs arbitrary: i opened nms r)
  case (Cons h hs)
  show ?case
  proof (cases h)
    case None
    then show ?thesis by (simp add: PFring_new_def enable_ring_def on_ring_def split: prod.split)
  next
    case (Some k)
    with Cons show ?thesis by (simp add: Let_def split: prod.split)
  qed
qed simp

lemma open_rings_all:
  assumes "\<And>k r. 0 \<le> fst (pfring_enable_ring api k r)" and "None \<notin> set hs" and "heap_ok nms"
  shows "\<exists>ps nms' r'. open_rings api wm device i hs opened nms r = Inr (opened @ ps, nms', r')
    \<and> map ring ps = hs \<and> live nms \<subseteq>\<^sub>m live nms'
    \<and> (\<forall>j < length ps. live nms' (device_name (ps ! j)) = Some (ring_name device (i + j)))"
  using assms(2,3)
proof (induction hs arbitrary: i opened nms r)
  case (Cons h hs)
  then obtain k where k: "h = Some k" by (cases h) auto
  obtain a nms1 where new: "heap_new (ring_name device i) nms = (a, nms1)" by fastforce
  let ?p = "\<lparr>ring = Some k, snaplen = 128, device_name = a\<rparr>"
  have p: "PFring_new h (device @ ''@'' @ show_nat i) 128 nms = (?p, nms1)"
    using new k by (simp add: PFring_new_def ring_name_def)
  have ok1: "heap_ok nms1" using heap_ok_new [OF Cons.prems(2) new] .
  have live1: "live nms a = None" "live nms1 = (live nms)(a \<mapsto> ring_name device i)"
    using heap_new_fresh [OF Cons.prems(2) new] by simp_all
  obtain rc r1 where en: "enable_ring api ?p (wm k r) = (rc, r1)" by fastforce
  then have rc: "0 \<le> rc" using assms(1) [of k "wm k r"] by (simp add: enable_ring_def on_ring_def)
  have "None \<notin> set hs" using Cons.prems(1) by simp
  from Cons.IH [OF this ok1, of "i + 1" "opened @ [?p]" r1] obtain ps nms' r' where
    IH: "open_rings api wm device (i + 1) hs (opened @ [?p]) nms1 r1 = Inr ((opened @ [?p]) @ ps, nms', r')"
      "map ring ps = hs" "live nms1 \<subseteq>\<^sub>m live nms'"
      "\<forall>j < length ps. live nms' (device_name (ps ! j)) = Some (ring_name device (i + 1 + j))"
    by blast
  have a: "live nms' a = Some (ring_name device i)"
    using IH(3) live1(2) by (auto simp: map_le_def dom_def)
  have le: "live nms \<subseteq>\<^sub>m live nms'"
    using IH(3) live1 by (auto simp: map_le_def dom_def split: if_splits)
  show ?case
  proof (intro exI [of _ "?p # ps"] exI [of _ nms'] exI [of _ r'] conjI allI impI le)
    show "open_rings api wm device i (h # hs) opened nms r = Inr (opened @ ?p # ps, nms', r')"
      using p k en rc IH(1) by simp
    show "map ring (?p # ps) = h # hs" using IH(2) k by simp
    fix j assume "j < length (?p # ps)"
    then show "live nms' (device_name ((?p # ps) ! j)) = Some (ring_name device (i + j))"
      using a IH(4) by (cases j) simp_all
  qed
qed simp

text \<open>
  C32: When the MAC of the device can be read and every ring can be enabled, the constructor opens one
  ring per handle named \<open>device@0\<close>, \<open>device@1\<close>, ..., keeps what it allocated before, and bounds the send
  queue: a later \<open>AsyncSendFrame\<close> blocks exactly when 1000 frames are waiting. A null handle among
  them ends the process with status 1.
\<close>

theorem NetworkHandler_new_opens:
  assumes "send_queue Q elems cap" and "GetMacOfInterface ifs device = Inr mac"
    and "\<And>k r. 0 \<le> fst (pfring_enable_ring api k r)" and "heap_ok (deviceNames s)"
  shows "if None \<in> set rings
    then NetworkHandler_new ifs j Q api wm device rings s = Inl (ProcessExit 1)
    else \<exists>t. NetworkHandler_new ifs j Q api wm device rings s = Inr t
      \<and> map ring (queueRings t) = rings \<and> GetNumberOfQueues t = of_nat (length rings)
      \<and> GetDeviceName t = device \<and> GetMyMac t = mac \<and> GetMyIP t = GetIPOfInterface ifs j device
      \<and> (\<forall>i < length rings. live (deviceNames t) (device_name (queueRings t ! i)) = Some (ring_name device i))
      \<and> live (deviceNames s) \<subseteq>\<^sub>m live (deviceNames t)
      \<and> elems (asyncSendData t) = elems (asyncSendData s)
      \<and> (\<forall>d u. asyncSendData u = asyncSendData t \<longrightarrow>
            (AsyncSendFrame Q d u = None \<longleftrightarrow> 1000 \<le> length (elems (asyncSendData t))))"
proof (cases "None \<in> set rings")
  case True
  then show ?thesis using assms(2) by (simp add: NetworkHandler_new_def open_rings_null)
next
  case False
  have ip: "ucast (ucast (x :: u32) :: u64) = x" for x
    by (rule bit_word_eqI) (auto simp: bit_simps)
  obtain ps nms r where o: "open_rings api wm device 0 rings [] (deviceNames s) (lib s) = Inr (ps, nms, r)"
    "map ring ps = rings" "live (deviceNames s) \<subseteq>\<^sub>m live nms"
    "\<forall>i < length ps. live nms (device_name (ps ! i)) = Some (ring_name device i)"
    using open_rings_all [where api = api, OF assms(3) False assms(4), of wm device 0 "[]" "lib s"] by auto
  have len: "length ps = length rings" using o(2) by auto
  have fifo: "tbb_fifo Q elems cap" using assms(1) by (simp add: send_queue_def)
  show ?thesis
    using False assms(2) o len
    by (auto simp: NetworkHandler_new_def GetNumberOfQueues_def GetDeviceName_def GetMyMac_def GetMyIP_def ip
        send_queue.AsyncSendFrame_blocks [OF assms(1)] tbb_fifo.set_capacity [OF fifo])
qed

theorem NetworkHandler_new_opens_witness:
  "\<exists>t. NetworkHandler_new \<lparr>ioctl_SIOCGIFHWADDR = \<lambda>_. None, ioctl_SIOCGIFADDR = \<lambda>_. Some 7\<rparr> 0 list_queue
        counting_api (\<lambda>_ r. r) ''eth0'' [Some 4, Some 6] example_state = Inr t
     \<and> map ring (queueRings t) = [Some 4, Some 6] \<and> GetMyIP t = 7"
proof -
  let ?ifs = "\<lparr>ioctl_SIOCGIFHWADDR = \<lambda>_. None, ioctl_SIOCGIFADDR = \<lambda>_. Some 7\<rparr>"
  have "GetMacOfInterface ?ifs ''eth0'' = Inr (replicate 6 0)"
    by (simp add: GetMacOfInterface_def strip_prefix_none strip_suffix_none c_str_def)
  moreover have "heap_ok (deviceNames example_state)" by (auto simp: example_state_def heap_ok_def)
  ultimately show ?thesis
    using NetworkHandler_new_opens [OF list_send_queue.send_queue_axioms, of ?ifs "''eth0''" "replicate 6 0"
        counting_api example_state "[Some 4, Some 6]" 0 "\<lambda>_ r. r"]
    by (fastforce simp: counting_api_def GetIPOfInterface_def)
qed

section \<open>Counters\<close>

text \<open>A sequence of calls of \<open>GetNextFrame\<close>, with the result and the frame of each.\<close>

fun receive_all ::
  "'r pfring_api \<Rightarrow> (u32 \<times> byte \<times> nat) list \<Rightarrow> ('q, 'r) PFringHandler
     \<Rightarrow> ((int \<times> (nat \<times> u32) option) list \<times> ('q, 'r) PFringHandler) res" where
  "receive_all api [] s = Inr ([], s)"
| "receive_all api ((pkt_len, wait, queueNumber) # calls) s =
     bind_res (GetNextFrame api pkt_len wait queueNumber s) (\<lambda>(result, pkt, s).
     bind_res (receive_all api calls s) (\<lambda>(rs, s). Inr ((result, pkt) # rs, s)))"

definition frame_bytes :: "(int \<times> (nat \<times> u32) option) \<Rightarrow> u64" where
  "frame_bytes x =
     (if fst x = 1 then (case snd x of None \<Rightarrow> 0 | Some (_, len) \<Rightarrow> ucast len) else 0)"

text \<open>
  Over any sequence of receive calls on existing queues, the frame counter grows by the number of
  calls that returned 1 and the byte counter by the sum of the lengths of those frames; no call
  touches the send queue, the frame memory or the sent counter.
\<close>

theorem receive_counters:
  assumes "\<forall>(pkt_len, wait, k) \<in> set calls. k < length (queueRings s)"
  shows "\<exists>rs t. receive_all api calls s = Inr (rs, t) \<and> length rs = length calls
    \<and> GetFramesReceived t = GetFramesReceived s + of_nat (length (filter (\<lambda>(result, _). result = 1) rs))
    \<and> GetBytesReceived t = GetBytesReceived s + sum_list (map frame_bytes rs)
    \<and> asyncSendData t = asyncSendData s \<and> bufs t = bufs s \<and> GetFramesSent t = GetFramesSent s"
  using assms
proof (induction calls arbitrary: s)
  case (Cons c calls)
  obtain pkt_len wait k where c: "c = (pkt_len, wait, k)" by (cases c)
  obtain result pkt u where u: "GetNextFrame api pkt_len wait k s = Inr (result, pkt, u)"
    and h: "GetFramesReceived u = GetFramesReceived s + (if result = 1 then 1 else 0)"
      "GetBytesReceived u = GetBytesReceived s + frame_bytes (result, pkt)"
      "asyncSendData u = asyncSendData s" "bufs u = bufs s" "GetFramesSent u = GetFramesSent s"
      "queueRings u = queueRings s"
    using Cons.prems c
    by (fastforce simp: GetNextFrame_def GetFramesReceived_def GetBytesReceived_def GetFramesSent_def
        frame_bytes_def Let_def split: prod.splits option.splits)
  from Cons.prems h(6) have "\<forall>(pkt_len, wait, k) \<in> set calls. k < length (queueRings u)" by simp
  from Cons.IH [OF this] obtain rs t where "receive_all api calls u = Inr (rs, t)" "length rs = length calls"
    "GetFramesReceived t = GetFramesReceived u + of_nat (length (filter (\<lambda>(result, _). result = 1) rs))"
    "GetBytesReceived t = GetBytesReceived u + sum_list (map frame_bytes rs)"
    "asyncSendData t = asyncSendData u" "bufs t = bufs u" "GetFramesSent t = GetFramesSent u"
    by blast
  with u h show ?case
    by (intro exI [of _ "(result, pkt) # rs"] exI [of _ t]) (simp add: c algebra_simps)
qed simp

theorem receive_counters_witness:
  "\<exists>rs t. receive_all counting_api [(0, 1, 0), (0, 0, 0)] example_state = Inr (rs, t) \<and> length rs = 2
     \<and> bufs t = bufs example_state"
  using receive_counters [of "[(0, 1, 0), (0, 0, 0)]" example_state counting_api] example_state_safe(3) by auto

text \<open>The drop counts the statistics calls report, \<open>None\<close> for one that fails.\<close>

fun drops_seen :: "'r pfring_api \<Rightarrow> PFring list \<Rightarrow> 'r \<Rightarrow> u64 option list" where
  "drops_seen api [] r = []"
| "drops_seen api (p # ps) r = (case ring p of
       None \<Rightarrow> None # drops_seen api ps r
     | Some h \<Rightarrow> (case pfring_stats api h r of ((rc, out), r) \<Rightarrow> map_option stat_drop out # drops_seen api ps r))"

fun carried :: "u64 \<Rightarrow> u64 option list \<Rightarrow> u64 list" where
  "carried d [] = []"
| "carried d (None # xs) = d # carried d xs"
| "carried d (Some x # xs) = x # carried x xs"

lemma sum_dropped_carried:
  "fst (sum_dropped api ps stats acc r) = acc + sum_list (carried (stat_drop stats) (drops_seen api ps r))"
proof (induction ps arbitrary: stats acc r)
  case (Cons p ps)
  show ?case
  proof (cases "ring p")
    case None
    then show ?thesis by (simp add: Cons.IH get_stats_def algebra_simps)
  next
    case (Some h)
    obtain rc out r1 where st: "pfring_stats api h r = ((rc, out), r1)" by (metis prod.exhaust)
    then show ?thesis
      using Some by (cases out) (simp_all add: Cons.IH get_stats_def algebra_simps)
  qed
qed simp

lemma carried_Some: "None \<notin> set xs \<Longrightarrow> carried d xs = map the xs"
  by (induction d xs rule: carried.induct) simp_all

text \<open>
  \<open>GetFramesDropped\<close> is the sum of the drop counts of the queues when every statistics call
  succeeds; a queue whose call fails counts with the number of the last queue before it that
  answered, because all calls share one \<open>stats\<close> variable.
\<close>

theorem GetFramesDropped_sum:
  shows "fst (GetFramesDropped api s) = sum_list (carried 0 (drops_seen api (queueRings s) (lib s)))
    \<and> (None \<notin> set (drops_seen api (queueRings s) (lib s)) \<longrightarrow>
        fst (GetFramesDropped api s) = sum_list (map the (drops_seen api (queueRings s) (lib s))))
    \<and> (drops_seen api (queueRings s) (lib s) = [Some d, None] \<longrightarrow> fst (GetFramesDropped api s) = d + d)"
proof -
  have "fst (GetFramesDropped api s) = sum_list (carried 0 (drops_seen api (queueRings s) (lib s)))"
    using sum_dropped_carried [of api "queueRings s" "\<lparr>stat_recv = 0, stat_drop = 0\<rparr>" 0 "lib s"]
    by (auto simp: GetFramesDropped_def split: prod.splits)
  then show ?thesis by (simp add: carried_Some)
qed

theorem GetFramesDropped_sum_witness:
  "fst (GetFramesDropped counting_api (example_state\<lparr>queueRings := [example_PFring, example_PFring]\<rparr>)) = 6
   \<and> fst (GetFramesDropped counting_api (example_state\<lparr>queueRings := [example_PFring, example_PFring\<lparr>ring := None\<rparr>]\<rparr>)) = 6"
  using GetFramesDropped_sum [of counting_api "example_state\<lparr>queueRings := [example_PFring, example_PFring]\<rparr>" 3]
    GetFramesDropped_sum [of counting_api "example_state\<lparr>queueRings := [example_PFring, example_PFring\<lparr>ring := None\<rparr>]\<rparr>" 3]
  by (simp add: example_PFring_def counting_api_def)

text \<open>
  \<open>PrintStats\<close> asks the rings as \<open>GetFramesDropped\<close> does: its rows are numbered, and the column of dropped
  frames adds up to that function's result.
\<close>

lemma stats_rows_sum_dropped:
  "sum_dropped api ps stats acc r = (case stats_rows api i ps stats r of
     (rows, r') \<Rightarrow> (acc + sum_list (map (\<lambda>(_, _, drop, _). drop) rows), r'))"
proof (induction ps arbitrary: i stats acc r)
  case (Cons p ps)
  obtain rc st r1 where g: "get_stats api p stats r = (rc, st, r1)" by (metis prod.exhaust)
  obtain rows r2 where rows: "stats_rows api (i + 1) ps st r1 = (rows, r2)" by fastforce
  show ?case using Cons.IH [of st "acc + stat_drop st" r1 "i + 1"] g rows by (simp add: add.assoc)
qed simp

lemma stats_rows_numbered: "map fst (fst (stats_rows api i ps stats r)) = [i..<i + length ps]"
proof (induction ps arbitrary: i stats r)
  case (Cons p ps)
  obtain rc st r1 where g: "get_stats api p stats r = (rc, st, r1)" by (metis prod.exhaust)
  have "[i..<i + length (p # ps)] = i # [Suc i..<Suc i + length ps]" by (simp add: upt_conv_Cons del: upt_Suc)
  with Cons.IH [of "Suc i" st r1] g show ?case by (auto split: prod.splits simp del: upt_Suc)
qed simp

theorem PrintStats_GetFramesDropped:
  "map fst (fst (PrintStats api s)) = [0..<length (queueRings s)]
   \<and> GetFramesDropped api s = (sum_list (map (\<lambda>(_, _, drop, _). drop) (fst (PrintStats api s))), snd (PrintStats api s))"
  using stats_rows_numbered [of api 0 "queueRings s" "\<lparr>stat_recv = 0, stat_drop = 0\<rparr>" "lib s"]
  by (auto simp: PrintStats_def GetFramesDropped_def stats_rows_sum_dropped [where i = 0] split: prod.splits)

section \<open>The ARP thread\<close>

text \<open>
  The ARP thread of this back end builds its frame once, in one fresh block: as long as that block
  is live each iteration either blocks on the full queue or enqueues the same container, allocates
  nothing, keeps the queue safe, and the sender never frees the block.
\<close>

lemma arp_thread_one_block:
  fixes s :: "('q, 'r) PFringHandler"
  assumes "send_queue Q elems cap" and "heap_ok (bufs s)" and "length (myMac s) = 6"
  shows "\<exists>c t block. arp_thread_start junk s = Inr (c, t)
    \<and> live (bufs t) = (live (bufs s))(dc_data c \<mapsto> block) \<and> live (bufs s) (dc_data c) = None
    \<and> \<not> ownerMayFreeData c
    \<and> (\<forall>u :: ('q, 'r) PFringHandler. queue_safe (elems (asyncSendData u)) (bufs u) \<and> live (bufs u) (dc_data c) = Some block
           \<and> (\<forall>e \<in> set (elems (asyncSendData u)). ownerMayFreeData e \<longrightarrow> dc_data e \<noteq> dc_data c) \<longrightarrow>
         (arp_thread_iteration Q c u = None \<or>
          (\<exists>q. arp_thread_iteration Q c u = Some (Inr (u\<lparr>asyncSendData := q\<rparr>))
             \<and> elems q = elems (asyncSendData u) @ [c] \<and> queue_safe (elems q) (bufs u)
             \<and> (\<forall>e \<in> set (elems q). ownerMayFreeData e \<longrightarrow> dc_data e \<noteq> dc_data c))))"
proof -
  obtain hdr rest where gen:
    "GenerateARPv4 junk (myMac s) (replicate 6 0) (GetMyIP s) (GetMyIP s) 1 (bufs s) =
       Inr (\<lparr>dc_data = fresh (bufs s), dc_length = 42, ownerMayFreeData = True\<rparr>,
            (bufs s)\<lparr>fresh := Suc (fresh (bufs s)),
              live := (live (bufs s))(fresh (bufs s) \<mapsto> pack_ARP_HDR hdr @ rest)\<rparr>)"
    and hdr: "valid_ARP_HDR hdr" "length rest = 22"
    by (rule GenerateARPv4_ok [OF assms(2,3), of "replicate 6 0" junk "GetMyIP s" "GetMyIP s" 1]) auto
  let ?c = "\<lparr>dc_data = fresh (bufs s), dc_length = 42, ownerMayFreeData = False\<rparr>"
  let ?block = "pack_ARP_HDR hdr @ rest"
  have len: "length ?block = 64" using hdr by (simp add: arp_hdr.length_pack)
  have none: "live (bufs s) (fresh (bufs s)) = None" using assms(2) by (auto simp: heap_ok_def dom_def)
  have step: "arp_thread_iteration Q ?c u = None \<or>
      (\<exists>q. arp_thread_iteration Q ?c u = Some (Inr (u\<lparr>asyncSendData := q\<rparr>))
         \<and> elems q = elems (asyncSendData u) @ [?c] \<and> queue_safe (elems q) (bufs u)
         \<and> (\<forall>e \<in> set (elems q). ownerMayFreeData e \<longrightarrow> dc_data e \<noteq> dc_data ?c))"
    if u: "queue_safe (elems (asyncSendData u)) (bufs u)" "live (bufs u) (dc_data ?c) = Some ?block"
      "\<forall>e \<in> set (elems (asyncSendData u)). ownerMayFreeData e \<longrightarrow> dc_data e \<noteq> dc_data ?c"
    for u :: "('q, 'r) PFringHandler"
  proof -
    have rd: "heap_read (dc_data ?c) (bufs u) = Inr ?block"
      using u(1,2) by (intro heap_read_live) (auto simp: queue_safe_def)
    have safe: "queue_safe (elems (asyncSendData u) @ [?c]) (bufs u)"
      using u(2,3) len by (intro queue_safe_push [OF u(1)]) (auto simp: container_ok_def)
    from rd len have it: "arp_thread_iteration Q ?c u = map_option Inr (AsyncSendFrame Q ?c u)"
      by (simp add: arp_thread_iteration_def)
    show ?thesis
    proof (cases "AsyncSendFrame Q ?c u")
      case (Some v)
      from send_queue.AsyncSendFrame_appends [OF assms(1) Some] obtain q where
        q: "v = u\<lparr>asyncSendData := q\<rparr>" "elems q = elems (asyncSendData u) @ [?c]" by blast
      then show ?thesis using it Some safe u(3) by (intro disjI2 exI [of _ q]) simp
    qed (simp add: it)
  qed
  from gen have "arp_thread_start junk s = Inr (?c, s\<lparr>bufs := (bufs s)\<lparr>fresh := Suc (fresh (bufs s)),
      live := (live (bufs s))(fresh (bufs s) \<mapsto> ?block)\<rparr>\<rparr>)"
    by (simp add: arp_thread_start_def GenerateGratuitousARPv4_def GetMyMac_def)
  with step none show ?thesis by (intro exI conjI allI impI) (assumption | simp)+
qed

theorem arp_thread_one_block_witness:
  "\<exists>c t. arp_thread_start (\<lambda>_ _. 0) example_state = Inr (c, t) \<and> dom (live (bufs t)) = {1, 2, dc_data c}"
proof -
  have "length (myMac example_state) = 6" "dom (live (bufs example_state)) = {1, 2}"
    by (auto simp: example_state_def)
  with arp_thread_one_block [OF list_send_queue.send_queue_axioms example_state_safe(2), of "\<lambda>_ _. 0"]
  show ?thesis by fastforce
qed

end
