(* ===== verification/PCapHandler.thy ===== *)
theory PCapHandler
  imports NetworkHandler
begin

text \<open>
  \<open>socket/PCapHandler.cpp\<close>: the back end of \<open>NetworkHandler\<close> on a raw packet socket, compiled without
  \<open>USE_PFRING\<close>. The kernel is a parameter: \<open>socket\<close>, \<open>ioctl\<close>, \<open>setsockopt\<close>, \<open>recvfrom\<close>, \<open>sendto\<close>
  and \<open>close\<close> thread an opaque kernel state \<open>'k\<close>. The names shared with the other back end carry the
  suffix \<open>_pcap\<close>.
\<close>

section \<open>The kernel as a parameter\<close>

datatype sockopt =
    SO_REUSEADDR
  | SO_BINDTODEVICE string
  | SO_RCVTIMEO int int
  | SO_RCVBUF int

text \<open>
  The interface requests see the name the kernel reads; a failing \<open>ioctl\<close> is \<open>None\<close> and leaves the
  request as it was. \<open>recvfrom\<close> gives the bytes received, \<open>None\<close> on error or timeout.
\<close>

record 'k kernel_api =
  sys_socket :: "'k \<Rightarrow> int \<times> 'k"
  sys_SIOCGIFFLAGS :: "int \<Rightarrow> string \<Rightarrow> 'k \<Rightarrow> u16 option"
  sys_SIOCSIFFLAGS :: "int \<Rightarrow> string \<Rightarrow> u16 \<Rightarrow> 'k \<Rightarrow> 'k"
  sys_SIOCGIFINDEX :: "int \<Rightarrow> string \<Rightarrow> 'k \<Rightarrow> int option"
  sys_setsockopt :: "int \<Rightarrow> sockopt \<Rightarrow> 'k \<Rightarrow> int \<times> 'k"
  sys_recvfrom :: "int \<Rightarrow> nat \<Rightarrow> 'k \<Rightarrow> byte list option \<times> 'k"
  sys_sendto :: "int \<Rightarrow> int \<Rightarrow> byte list \<Rightarrow> 'k \<Rightarrow> int \<times> 'k"
  sys_close :: "int \<Rightarrow> 'k \<Rightarrow> 'k"

text \<open>\<open>strncpy\<close>: exactly \<open>n\<close> bytes are written, the string cut or padded with NULs.\<close>

definition strncpy :: "string \<Rightarrow> string \<Rightarrow> nat \<Rightarrow> string res" where
  "strncpy dst src n =
     (if n > length dst then Inl OutOfBounds
      else Inr (take n (c_str src @ replicate n (CHR 0x00)) @ drop n dst))"

text \<open>The kernel ends the 16 bytes of \<open>ifr_name\<close> at byte 15.\<close>

definition kernel_name :: "string \<Rightarrow> string" where
  "kernel_name ifr_name = c_str (take 15 ifr_name)"

definition BUF_SIZE :: nat where
  "BUF_SIZE = 9000"

section \<open>State and constructor\<close>

record ('q, 'k) PCapHandler = "'q NetworkHandler" +
  socket_fd :: int
  sll_ifindex :: int
  recvBuffer :: "byte list"
  kernel :: 'k

text \<open>
  \<open>ifopts\<close> is not initialised: its 16 name bytes and, when the flags cannot be read, its flags are
  indeterminate. \<open>deviceName.length() - 1\<close> is unsigned. \<open>IFF_PROMISC\<close> is \<open>0x100\<close>.
\<close>

definition set_promiscuous ::
  "'k kernel_api \<Rightarrow> string \<Rightarrow> u16 \<Rightarrow> string \<Rightarrow> int \<Rightarrow> 'k \<Rightarrow> 'k res" where
  "set_promiscuous api ifopts_name ifopts_flags device fd k =
     bind_res (strncpy ifopts_name device (unat (of_nat (length device) - 1 :: u64))) (\<lambda>ifr_name.
     let flags = (case sys_SIOCGIFFLAGS api fd (kernel_name ifr_name) k of None \<Rightarrow> ifopts_flags | Some f \<Rightarrow> f)
     in Inr (sys_SIOCSIFFLAGS api fd (kernel_name ifr_name) (flags OR 0x100) k))"

text \<open>An option that must be accepted: otherwise the process ends with \<open>EXIT_FAILURE\<close>.\<close>

definition required_option :: "'k kernel_api \<Rightarrow> int \<Rightarrow> sockopt \<Rightarrow> 'k \<Rightarrow> 'k res" where
  "required_option api fd opt k =
     (case sys_setsockopt api fd opt k of (rc, k) \<Rightarrow> if rc = - 1 then Inl (ProcessExit 1) else Inr k)"

definition interface_index :: "'k kernel_api \<Rightarrow> string \<Rightarrow> int \<Rightarrow> 'k \<Rightarrow> int res" where
  "interface_index api device fd k =
     bind_res (strncpy (replicate 16 (CHR 0x00)) device (length device)) (\<lambda>ifr_name.
     Inr (case sys_SIOCGIFINDEX api fd (kernel_name ifr_name) k of None \<Rightarrow> 0 | Some i \<Rightarrow> i))"

definition NetworkHandler_new_pcap ::
  "interface_api \<Rightarrow> u32 \<Rightarrow> 'k kernel_api \<Rightarrow> string \<Rightarrow> u16 \<Rightarrow> string
     \<Rightarrow> ('q, 'k) PCapHandler \<Rightarrow> ('q, 'k) PCapHandler res" where
  "NetworkHandler_new_pcap ifs ipjunk api ifopts_name ifopts_flags device s =
     (let s = s\<lparr>myIP := ucast (GetIPOfInterface ifs ipjunk device)\<rparr>
      in bind_res (GetMacOfInterface ifs device) (\<lambda>mac.
         let s = s\<lparr>myMac := mac\<rparr>
         in case sys_socket api (kernel s) of (fd, k) \<Rightarrow>
            let s = s\<lparr>socket_fd := fd, kernel := k\<rparr>
            in if fd = - 1 then Inr s
               else
                 bind_res (set_promiscuous api ifopts_name ifopts_flags device fd k) (\<lambda>k.
                 bind_res (required_option api fd SO_REUSEADDR k) (\<lambda>k.
                 bind_res (required_option api fd (SO_BINDTODEVICE device) k) (\<lambda>k.
                 bind_res (required_option api fd (SO_RCVTIMEO 0 1000) k) (\<lambda>k.
                 let k = snd (sys_setsockopt api fd (SO_RCVBUF (1024 * 512)) k)
                 in bind_res (interface_index api device fd k) (\<lambda>idx.
                    Inr (s\<lparr>kernel := k, sll_ifindex := idx\<rparr>))))))))"

definition NetworkHandler_destroy_pcap :: "'k kernel_api \<Rightarrow> ('q, 'k) PCapHandler \<Rightarrow> ('q, 'k) PCapHandler" where
  "NetworkHandler_destroy_pcap api s = s\<lparr>kernel := sys_close api (socket_fd s) (kernel s)\<rparr>"

definition GetNumberOfQueues_pcap :: "('q, 'k) PCapHandler \<Rightarrow> u64" where
  "GetNumberOfQueues_pcap s = 1"

section \<open>Receiving\<close>

text \<open>The frame is left in the one receive buffer; the result is its length, 0 when there is none.\<close>

definition GetNextFrame_pcap ::
  "'k kernel_api \<Rightarrow> ('q, 'k) PCapHandler \<Rightarrow> int \<times> u32 option \<times> ('q, 'k) PCapHandler" where
  "GetNextFrame_pcap api s =
     (case sys_recvfrom api (socket_fd s) BUF_SIZE (kernel s) of
        (None, k) \<Rightarrow> (0, None, s\<lparr>kernel := k\<rparr>)
      | (Some frame, k) \<Rightarrow>
          let len = of_nat (length frame) :: u32
          in (sint len, Some len,
              s\<lparr>kernel := k, recvBuffer := frame @ drop (length frame) (recvBuffer s),
                framesReceived := framesReceived s + 1, bytesReceived := bytesReceived s + ucast len\<rparr>))"

definition GetFramesDropped_pcap :: "('q, 'k) PCapHandler \<Rightarrow> u64" where
  "GetFramesDropped_pcap s = 0"

section \<open>Sending\<close>

text \<open>The result of \<open>sendto\<close> is only used for a message.\<close>

definition SendFrameConcurrently_pcap ::
  "'k kernel_api \<Rightarrow> byte list \<Rightarrow> u32 \<Rightarrow> ('q, 'k) PCapHandler \<Rightarrow> (int \<times> ('q, 'k) PCapHandler) res" where
  "SendFrameConcurrently_pcap api pkt pktLen s =
     (let s = s\<lparr>framesSent := framesSent s + 1\<rparr>
      in bind_res (guard_res (unat pktLen \<le> length pkt) OutOfBounds) (\<lambda>_.
         Inr (sint pktLen,
           s\<lparr>kernel := snd (sys_sendto api (socket_fd s) (sll_ifindex s) (take (unat pktLen) pkt) (kernel s))\<rparr>)))"

definition AsyncSendFrame_pcap ::
  "(DataContainer, 'q) tbb_queue \<Rightarrow> DataContainer \<Rightarrow> ('q, 'k) PCapHandler \<Rightarrow> ('q, 'k) PCapHandler option" where
  "AsyncSendFrame_pcap Q data s =
     (case q_push Q data (asyncSendData s) of None \<Rightarrow> None | Some q \<Rightarrow> Some (s\<lparr>asyncSendData := q\<rparr>))"

definition DoSendQueuedFrames_pcap ::
  "(DataContainer, 'q) tbb_queue \<Rightarrow> 'k kernel_api \<Rightarrow> ('q, 'k) PCapHandler
     \<Rightarrow> (int \<times> ('q, 'k) PCapHandler) res" where
  "DoSendQueuedFrames_pcap Q api s =
     (case q_try_pop Q (asyncSendData s) of
        None \<Rightarrow> Inr (0, s)
      | Some (data, q) \<Rightarrow>
          let s = s\<lparr>asyncSendData := q\<rparr>
          in bind_res (heap_read (dc_data data) (bufs s)) (\<lambda>pkt.
             bind_res (SendFrameConcurrently_pcap api pkt (of_nat (dc_length data)) s) (\<lambda>(bytes, s).
             bind_res (if ownerMayFreeData data then heap_delete (dc_data data) (bufs s) else Inr (bufs s)) (\<lambda>h.
             Inr (bytes, s\<lparr>bufs := h, framesSent := framesSent s + 1\<rparr>)))))"

text \<open>One iteration of the ARP thread: a new frame each time, marked as not to be freed.\<close>

definition arp_iteration_pcap ::
  "(DataContainer, 'q) tbb_queue \<Rightarrow> (nat \<Rightarrow> nat \<Rightarrow> byte) \<Rightarrow> ('q, 'k) PCapHandler
     \<Rightarrow> ('q, 'k) PCapHandler res option" where
  "arp_iteration_pcap Q junk s =
     bind_call (Some (GenerateGratuitousARPv4 junk (GetMyMac s) (GetMyIP s) (bufs s))) (\<lambda>(container, h).
     let s = s\<lparr>bufs := h\<rparr>
     in map_option Inr (AsyncSendFrame_pcap Q (container\<lparr>ownerMayFreeData := False\<rparr>) s))"

lemma AsyncSendFrame_pcap_eq: "AsyncSendFrame_pcap Q d s = AsyncSendFrame Q d s"
  by (simp add: AsyncSendFrame_pcap_def AsyncSendFrame_def split: option.split)

section \<open>The back end meets its contract\<close>

text \<open>What the kernel is asked to send for a container, and what a call leaves.\<close>

definition sendto_container :: "'k kernel_api \<Rightarrow> int \<Rightarrow> int \<Rightarrow> (nat \<rightharpoonup> byte list) \<Rightarrow> DataContainer \<Rightarrow> 'k \<Rightarrow> 'k" where
  "sendto_container api fd idx m d k = snd (sys_sendto api fd idx (take (dc_length d) (the (m (dc_data d)))) k)"

context send_queue
begin

lemma DoSendQueuedFrames_pcap_head:
  assumes "queue_safe (d # ds) (bufs s)" and "elems (asyncSendData s) = d # ds"
  obtains q h n where "elems q = ds" "heap_ok h" "live h = release d (live (bufs s))"
    "DoSendQueuedFrames_pcap Q api s = Inr (n, s\<lparr>asyncSendData := q, bufs := h, framesSent := framesSent s + 2,
       kernel := sendto_container api (socket_fd s) (sll_ifindex s) (live (bufs s)) d (kernel s)\<rparr>)"
proof -
  obtain q where q: "q_try_pop Q (asyncSendData s) = Some (d, q)" "elems q = ds"
    using try_pop_head [OF assms(2)] by auto
  obtain pkt where pkt: "live (bufs s) (dc_data d) = Some pkt" "dc_length d \<le> length pkt"
      "dc_length d < 2 ^ 32" "heap_read (dc_data d) (bufs s) = Inr pkt"
    using queue_safe_head [OF assms(1)] by metis
  have ok: "heap_ok (bufs s)" using assms(1) by (simp add: queue_safe_def)
  have n: "unat (of_nat (dc_length d) :: u32) = dc_length d"
    using pkt(3) by (simp add: unsigned_of_nat take_bit_eq_mod)
  have del: "heap_delete (dc_data d) (bufs s) = Inr ((bufs s)\<lparr>live := (live (bufs s))(dc_data d := None)\<rparr>)"
    using ok pkt(1) by (rule heap_delete_live)
  let ?h = "if ownerMayFreeData d then (bufs s)\<lparr>live := (live (bufs s))(dc_data d := None)\<rparr> else bufs s"
  show ?thesis
  proof (rule that [OF q(2)])
    show "heap_ok ?h" using ok heap_ok_upd(1) [OF ok, of "dc_data d"] by simp
    show "live ?h = release d (live (bufs s))" by (simp add: release_def)
    show "DoSendQueuedFrames_pcap Q api s = Inr (sint (of_nat (dc_length d) :: u32),
        s\<lparr>asyncSendData := q, bufs := ?h, framesSent := framesSent s + 2,
          kernel := sendto_container api (socket_fd s) (sll_ifindex s) (live (bufs s)) d (kernel s)\<rparr>)"
      using q pkt n del
      by (simp add: DoSendQueuedFrames_pcap_def SendFrameConcurrently_pcap_def sendto_container_def Let_def)
  qed
qed

sublocale pcap: frame_sender "AsyncSendFrame_pcap Q" "\<lambda>s. Some (DoSendQueuedFrames_pcap Q api s)"
    "\<lambda>s. elems (asyncSendData s)" bufs "\<lambda>s. True"
  for api
proof (unfold_locales, goal_cases)
  case (1 d s s')
  then show ?case using AsyncSendFrame_appends [of d s s'] by (auto simp: AsyncSendFrame_pcap_eq)
next
  case (2 s)
  then show ?case by (simp add: DoSendQueuedFrames_pcap_def try_pop_empty)
next
  case (3 s e)
  show ?case
  proof (cases "elems (asyncSendData s)")
    case Nil
    then show ?thesis by (simp add: DoSendQueuedFrames_pcap_def try_pop_empty)
  next
    case (Cons d ds)
    show ?thesis
      by (rule DoSendQueuedFrames_pcap_head [OF 3(2) [unfolded Cons] Cons, of api]) simp
  qed
next
  case (4 s d ds n s')
  show ?case
    by (rule DoSendQueuedFrames_pcap_head [OF 4(2,3), of api]) (use 4 in auto)
qed

lemma pcap_contract:
  "frame_sender (AsyncSendFrame_pcap Q) (\<lambda>s. Some (DoSendQueuedFrames_pcap Q api s))
     (\<lambda>s. elems (asyncSendData s)) bufs (\<lambda>s. True)"
  by (rule pcap.frame_sender_axioms)

text \<open>A block that is still queued is not changed by the release of the head.\<close>

lemma fold_sendto_release:
  assumes "\<forall>e \<in> set ds. ownerMayFreeData d \<longrightarrow> dc_data e \<noteq> dc_data d"
  shows "fold (sendto_container api fd idx (release d m)) ds k = fold (sendto_container api fd idx m) ds k"
  using assms by (induction ds arbitrary: k) (auto simp: sendto_container_def release_def)

lemma pcap_drain:
  assumes "queue_safe ds (bufs s)" and "elems (asyncSendData s) = ds"
  shows "\<exists>t. sends (\<lambda>s. Some (DoSendQueuedFrames_pcap Q api s)) (length ds) s = Some (Inr t)
    \<and> framesSent t = framesSent s + 2 * of_nat (length ds)
    \<and> kernel t = fold (sendto_container api (socket_fd s) (sll_ifindex s) (live (bufs s))) ds (kernel s)"
  using assms
proof (induction ds arbitrary: s)
  case (Cons d ds)
  obtain q h n where qh: "elems q = ds" "heap_ok h" "live h = release d (live (bufs s))"
    and step: "DoSendQueuedFrames_pcap Q api s = Inr (n, s\<lparr>asyncSendData := q, bufs := h, framesSent := framesSent s + 2,
       kernel := sendto_container api (socket_fd s) (sll_ifindex s) (live (bufs s)) d (kernel s)\<rparr>)"
    by (rule DoSendQueuedFrames_pcap_head [OF Cons.prems])
  have apart: "\<forall>e \<in> set ds. ownerMayFreeData d \<longrightarrow> dc_data e \<noteq> dc_data d"
    using Cons.prems(1) by (auto simp: queue_safe_def list_all_iff)
  have "queue_safe ds h" using queue_safe_release [OF Cons.prems(1) qh(2,3)] .
  with Cons.IH [of "s\<lparr>asyncSendData := q, bufs := h, framesSent := framesSent s + 2,
       kernel := sendto_container api (socket_fd s) (sll_ifindex s) (live (bufs s)) d (kernel s)\<rparr>"]
    qh(1,3) step fold_sendto_release [OF apart]
  show ?case by (auto simp: algebra_simps)
qed simp

end

section \<open>Properties\<close>

text \<open>A kernel that records the frames it is given and finds every interface.\<close>

definition recording_kernel :: "(byte list list \<times> string list) kernel_api" where
  "recording_kernel =
     \<lparr>sys_socket = (\<lambda>k. (5, k)), sys_SIOCGIFFLAGS = (\<lambda>_ _ _. Some 0x41),
      sys_SIOCSIFFLAGS = (\<lambda>_ name _ (sent, promisc). (sent, promisc @ [name])),
      sys_SIOCGIFINDEX = (\<lambda>_ _ _. Some 2), sys_setsockopt = (\<lambda>_ _ k. (0, k)),
      sys_recvfrom = (\<lambda>_ _ k. (None, k)),
      sys_sendto = (\<lambda>_ _ frame (sent, promisc). (int (length frame), sent @ [frame], promisc)),
      sys_close = (\<lambda>_ k. k)\<rparr>"

definition example_pcap :: "(DataContainer list \<times> nat option, byte list list \<times> string list) PCapHandler" where
  "example_pcap = \<lparr>myMac = [2, 4, 6, 8, 10, 12], myIP = 0x0100000a, bytesReceived = 0, framesReceived = 0,
     framesSent = 0, numberOfQueues = 1, deviceName = ''eth0'',
     asyncSendData = ([\<lparr>dc_data = 1, dc_length = 3, ownerMayFreeData = True\<rparr>,
       \<lparr>dc_data = 2, dc_length = 1, ownerMayFreeData = False\<rparr>], None),
     bufs = \<lparr>fresh = 3, live = [1 \<mapsto> [7, 8, 9], 2 \<mapsto> [5]]\<rparr>,
     socket_fd = 5, sll_ifindex = 2, recvBuffer = [], kernel = ([], [])\<rparr>"

lemma example_pcap_safe: "queue_safe (fst (asyncSendData example_pcap)) (bufs example_pcap)"
  by (auto simp: example_pcap_def queue_safe_def container_ok_def heap_ok_def)

text \<open>
  C14: On a safe queue the socket back end always returns and never touches memory that is not
  allocated: as many calls as frames are queued hand the kernel the first \<open>length\<close> bytes of each
  block once, in the order of the queue and unpadded, and free exactly the blocks the sender owns; but
  every frame is counted twice in \<open>framesSent\<close>.
\<close>

theorem pcap_sender_drains_queue:
  assumes "send_queue Q elems cap" and "queue_safe (elems (asyncSendData s)) (bufs s)"
  shows "\<exists>t. sends (\<lambda>s. Some (DoSendQueuedFrames_pcap Q api s)) (length (elems (asyncSendData s))) s = Some (Inr t)
    \<and> elems (asyncSendData t) = []
    \<and> kernel t = fold (sendto_container api (socket_fd s) (sll_ifindex s) (live (bufs s)))
                   (elems (asyncSendData s)) (kernel s)
    \<and> (\<forall>p. live (bufs t) p =
         (if \<exists>d \<in> set (elems (asyncSendData s)). ownerMayFreeData d \<and> dc_data d = p then None
          else live (bufs s) p))
    \<and> GetFramesSent t = GetFramesSent s + 2 * of_nat (length (elems (asyncSendData s)))"
proof -
  let ?ds = "elems (asyncSendData s)"
  from send_queue.pcap_drain [OF assms refl, of api] obtain t where
    t: "sends (\<lambda>s. Some (DoSendQueuedFrames_pcap Q api s)) (length ?ds) s = Some (Inr t)"
      "framesSent t = framesSent s + 2 * of_nat (length ?ds)"
      "kernel t = fold (sendto_container api (socket_fd s) (sll_ifindex s) (live (bufs s))) ?ds (kernel s)"
    by blast
  from frame_sender.sends_drains [OF send_queue.pcap_contract [OF assms(1)] t(1) TrueI assms(2) refl]
  have "elems (asyncSendData t) = []" "live (bufs t) = fold release ?ds (live (bufs s))" by simp_all
  with t show ?thesis by (simp add: fold_release GetFramesSent_def)
qed

theorem pcap_sender_drains_queue_witness:
  "\<exists>t. sends (\<lambda>s. Some (DoSendQueuedFrames_pcap list_queue recording_kernel s)) 2 example_pcap = Some (Inr t)
     \<and> kernel t = ([[7, 8, 9], [5]], []) \<and> GetFramesSent t = 4"
proof -
  have "length (fst (asyncSendData example_pcap)) = 2" "GetFramesSent example_pcap = 0"
    "fold (sendto_container recording_kernel (socket_fd example_pcap) (sll_ifindex example_pcap)
       (live (bufs example_pcap))) (fst (asyncSendData example_pcap)) (kernel example_pcap)
     = ([[7, 8, 9], [5]], [])"
    by (simp_all add: example_pcap_def GetFramesSent_def sendto_container_def recording_kernel_def)
  with pcap_sender_drains_queue [OF list_send_queue.send_queue_axioms example_pcap_safe, of recording_kernel]
  show ?thesis by auto
qed

text \<open>\<open>n\<close> iterations of the ARP thread with nothing else running.\<close>

fun arp_iterations_pcap ::
  "(DataContainer, 'q) tbb_queue \<Rightarrow> (nat \<Rightarrow> nat \<Rightarrow> byte) \<Rightarrow> nat \<Rightarrow> ('q, 'k) PCapHandler
     \<Rightarrow> ('q, 'k) PCapHandler res option" where
  "arp_iterations_pcap Q junk 0 s = Some (Inr s)"
| "arp_iterations_pcap Q junk (Suc n) s =
     bind_call (arp_iteration_pcap Q junk s) (arp_iterations_pcap Q junk n)"

lemma arp_iteration_pcap_step:
  assumes "send_queue Q elems cap" and "cap (asyncSendData s) = None"
    and "queue_safe (elems (asyncSendData s)) (bufs s)" and "length (myMac s) = 6"
  obtains q h c block where "arp_iteration_pcap Q junk s = Some (Inr (s\<lparr>bufs := h, asyncSendData := q\<rparr>))"
    "elems q = elems (asyncSendData s) @ [c]" "cap q = None" "\<not> ownerMayFreeData c"
    "live (bufs s) (dc_data c) = None" "live h = (live (bufs s))(dc_data c \<mapsto> block)" "queue_safe (elems q) h"
proof -
  have ok: "heap_ok (bufs s)" using assms(3) by (simp add: queue_safe_def)
  obtain hdr rest where gen:
    "GenerateARPv4 junk (myMac s) (replicate 6 0) (GetMyIP s) (GetMyIP s) 1 (bufs s) =
       Inr (\<lparr>dc_data = fresh (bufs s), dc_length = 42, ownerMayFreeData = True\<rparr>,
            (bufs s)\<lparr>fresh := Suc (fresh (bufs s)),
              live := (live (bufs s))(fresh (bufs s) \<mapsto> pack_ARP_HDR hdr @ rest)\<rparr>)"
    and hdr: "valid_ARP_HDR hdr" "length rest = 22"
    by (rule GenerateARPv4_ok [OF ok assms(4), of "replicate 6 0" junk "GetMyIP s" "GetMyIP s" 1]) auto
  let ?c = "\<lparr>dc_data = fresh (bufs s), dc_length = 42, ownerMayFreeData = False\<rparr>"
  let ?block = "pack_ARP_HDR hdr @ rest"
  let ?h = "(bufs s)\<lparr>fresh := Suc (fresh (bufs s)), live := (live (bufs s))(fresh (bufs s) \<mapsto> ?block)\<rparr>"
  have fifo: "tbb_fifo Q elems cap" using assms(1) by (simp add: send_queue_def)
  obtain q where q: "q_push Q ?c (asyncSendData s) = Some q" "elems q = elems (asyncSendData s) @ [?c]" "cap q = None"
    using tbb_fifo.push_room [OF fifo, of "asyncSendData s" ?c] assms(2) by auto
  have none: "live (bufs s) (fresh (bufs s)) = None" using ok by (auto simp: heap_ok_def dom_def)
  have "heap_ok ?h" using ok by (auto simp: heap_ok_def less_Suc_eq)
  from queue_safe_fresh(2) [OF assms(3) this none, of ?block ?c] hdr
  have safe: "queue_safe (elems q) ?h" by (simp add: q arp_hdr.length_pack)
  show ?thesis
    by (rule that [of q "?h" "?c" "?block"])
       (use gen q none safe in \<open>simp_all add: arp_iteration_pcap_def GenerateGratuitousARPv4_def GetMyMac_def
          AsyncSendFrame_pcap_def\<close>)
qed

lemma arp_iterations_pcap_blocks:
  assumes "send_queue Q elems cap" and "cap (asyncSendData s) = None"
    and "queue_safe (elems (asyncSendData s)) (bufs s)" and "length (myMac s) = 6"
  shows "\<exists>t cs. arp_iterations_pcap Q junk n s = Some (Inr t) \<and> queue_safe (elems (asyncSendData t)) (bufs t)
    \<and> elems (asyncSendData t) = elems (asyncSendData s) @ cs \<and> length cs = n
    \<and> distinct (map dc_data cs) \<and> (\<forall>c \<in> set cs. \<not> ownerMayFreeData c)
    \<and> dc_data ` set cs \<inter> dom (live (bufs s)) = {}
    \<and> dom (live (bufs t)) = dom (live (bufs s)) \<union> dc_data ` set cs"
  using assms(2-)
proof (induction n arbitrary: s)
  case (Suc n)
  obtain q h c block where st: "arp_iteration_pcap Q junk s = Some (Inr (s\<lparr>bufs := h, asyncSendData := q\<rparr>))"
    "elems q = elems (asyncSendData s) @ [c]" "cap q = None" "\<not> ownerMayFreeData c"
    "live (bufs s) (dc_data c) = None" "live h = (live (bufs s))(dc_data c \<mapsto> block)" "queue_safe (elems q) h"
    by (rule arp_iteration_pcap_step [OF assms(1) Suc.prems])
  let ?u = "s\<lparr>bufs := h, asyncSendData := q\<rparr>"
  have "cap (asyncSendData ?u) = None" "queue_safe (elems (asyncSendData ?u)) (bufs ?u)" "length (myMac ?u) = 6"
    using st(3,7) Suc.prems(3) by simp_all
  from Suc.IH [OF this] obtain t cs where t:
    "arp_iterations_pcap Q junk n ?u = Some (Inr t)" "queue_safe (elems (asyncSendData t)) (bufs t)"
    "elems (asyncSendData t) = elems (asyncSendData ?u) @ cs" "length cs = n" "distinct (map dc_data cs)"
    "\<forall>c \<in> set cs. \<not> ownerMayFreeData c" "dc_data ` set cs \<inter> dom (live (bufs ?u)) = {}"
    "dom (live (bufs t)) = dom (live (bufs ?u)) \<union> dc_data ` set cs"
    by (elim exE conjE)
  have dom: "dom (live h) = insert (dc_data c) (dom (live (bufs s)))"
    using st(6) by simp
  show ?case
    by (rule exI [of _ t], rule exI [of _ "c # cs"])
       (use st(1,2,4,5) t dom in auto)
qed simp

lemma owned_apart_shared:
  "owned_apart ds \<Longrightarrow> c \<in> set ds \<Longrightarrow> d \<in> set ds \<Longrightarrow> dc_data d = dc_data c \<Longrightarrow>
     \<not> ownerMayFreeData c \<Longrightarrow> \<not> ownerMayFreeData d"
  by (induction ds) (auto simp: list_all_iff)

text \<open>
  C40: The ARP thread of the socket back end leaks: on an unbounded queue \<open>n\<close> iterations all return and
  enqueue \<open>n\<close> containers with \<open>n\<close> different fresh blocks, and when the sender has emptied the queue
  these blocks are all still allocated.
\<close>

theorem arp_thread_pcap_leaks:
  assumes "send_queue Q elems cap" and "cap (asyncSendData s) = None"
    and "queue_safe (elems (asyncSendData s)) (bufs s)" and "length (myMac s) = 6"
  shows "\<exists>t cs u. arp_iterations_pcap Q junk n s = Some (Inr t)
    \<and> elems (asyncSendData t) = elems (asyncSendData s) @ cs \<and> length cs = n
    \<and> card (dc_data ` set cs) = n \<and> dc_data ` set cs \<inter> dom (live (bufs s)) = {}
    \<and> sends (\<lambda>s. Some (DoSendQueuedFrames_pcap Q api s)) (length (elems (asyncSendData t))) t = Some (Inr u)
    \<and> elems (asyncSendData u) = [] \<and> dc_data ` set cs \<subseteq> dom (live (bufs u))"
proof -
  obtain t cs where t: "arp_iterations_pcap Q junk n s = Some (Inr t)"
    "queue_safe (elems (asyncSendData t)) (bufs t)" "elems (asyncSendData t) = elems (asyncSendData s) @ cs"
    "length cs = n" "distinct (map dc_data cs)" "\<forall>c \<in> set cs. \<not> ownerMayFreeData c"
    "dc_data ` set cs \<inter> dom (live (bufs s)) = {}"
    "dom (live (bufs t)) = dom (live (bufs s)) \<union> dc_data ` set cs"
    using arp_iterations_pcap_blocks [OF assms, of junk n] by (elim exE conjE)
  obtain u where u: "sends (\<lambda>s. Some (DoSendQueuedFrames_pcap Q api s)) (length (elems (asyncSendData t))) t
      = Some (Inr u)"
    using send_queue.pcap_drain [OF assms(1) t(2) refl, of api] by blast
  from frame_sender.sends_drains [OF send_queue.pcap_contract [OF assms(1)] u TrueI t(2) refl]
  have drained: "elems (asyncSendData u) = []"
    "live (bufs u) = fold release (elems (asyncSendData t)) (live (bufs t))" by simp_all
  have "owned_apart (elems (asyncSendData t))" using t(2) by (simp add: queue_safe_def)
  from owned_apart_shared [OF this] t(3,6)
  have keep: "live (bufs u) (dc_data c) = live (bufs t) (dc_data c)" if "c \<in> set cs" for c
    using that by (auto simp: drained(2) fold_release)
  have "dc_data ` set cs \<subseteq> dom (live (bufs u))"
  proof
    fix p assume "p \<in> dc_data ` set cs"
    then obtain c where "c \<in> set cs" "p = dc_data c" by blast
    with keep t(8) show "p \<in> dom (live (bufs u))" by (auto simp: dom_def)
  qed
  moreover have "card (dc_data ` set cs) = n"
    using t(4) distinct_card [OF t(5)] by simp
  ultimately show ?thesis
    using t(1,3,4,7) u drained(1) by (intro exI conjI)
qed

theorem arp_thread_pcap_leaks_witness:
  "\<exists>t cs u. arp_iterations_pcap list_queue (\<lambda>_ _. 0) 3 example_pcap = Some (Inr t)
     \<and> fst (asyncSendData t) = fst (asyncSendData example_pcap) @ cs \<and> card (dc_data ` set cs) = 3
     \<and> sends (\<lambda>s. Some (DoSendQueuedFrames_pcap list_queue recording_kernel s)) (length (fst (asyncSendData t))) t
         = Some (Inr u)
     \<and> dc_data ` set cs \<subseteq> dom (live (bufs u))"
proof -
  have "snd (asyncSendData example_pcap) = None" "length (myMac example_pcap) = 6"
    by (simp_all add: example_pcap_def)
  from arp_thread_pcap_leaks [OF list_send_queue.send_queue_axioms this(1) example_pcap_safe this(2),
      of "\<lambda>_ _. 0" 3 recording_kernel]
  show ?thesis by (elim exE conjE, intro exI conjI)
qed

lemma c_str_id: "CHR 0x00 \<notin> set s \<Longrightarrow> c_str s = s"
  by (induction s) (auto simp: c_str_def)

lemma c_str_append: "CHR 0x00 \<notin> set s \<Longrightarrow> c_str (s @ t) = s @ c_str t"
  by (induction s) (auto simp: c_str_def)

text \<open>
  The constructor asks for promiscuous mode of the wrong interface name: the device without its
  last character, followed by whatever the uninitialised request holds, so the flag is set on the
  device only if that memory happens to contain the missing character; for the empty name the copy
  runs over the request.
\<close>

theorem promiscuous_name_off_by_one:
  assumes "CHR 0x00 \<notin> set device" and "length device \<le> 15" and "length ifopts_name = 16"
  shows "if device = [] then set_promiscuous api ifopts_name fl device fd k = Inl OutOfBounds
    else \<exists>name flags. set_promiscuous api ifopts_name fl device fd k = Inr (sys_SIOCSIFFLAGS api fd name (flags OR 0x100) k)
      \<and> name = butlast device @ c_str (take (16 - length device) (drop (length device - 1) ifopts_name))
      \<and> (name = device \<longrightarrow> ifopts_name ! (length device - 1) = last device)"
proof (cases "device = []")
  case True
  have "unat (- 1 :: u64) = 18446744073709551615"
    by (simp add: unsigned_minus_1_eq_mask mask_eq_exp_minus_1)
  with True assms(3) show ?thesis by (simp add: set_promiscuous_def strncpy_def)
next
  case False
  let ?n = "length device - 1"
  have n: "unat (of_nat (length device) - 1 :: u64) = ?n"
    using False assms(2) by (cases "length device") (simp_all add: unsigned_of_nat take_bit_eq_mod)
  let ?name = "butlast device @ c_str (take (16 - length device) (drop ?n ifopts_name))"
  have cut: "take ?n (c_str device @ replicate ?n (CHR 0x00)) = butlast device"
    using assms(1) by (simp add: c_str_id butlast_conv_take)
  have "CHR 0x00 \<notin> set (butlast device)" using assms(1) by (meson in_set_butlastD)
  then have name: "kernel_name (butlast device @ drop ?n ifopts_name) = ?name"
    using False assms(2) by (cases "length device") (simp_all add: kernel_name_def c_str_append)
  have last: "ifopts_name ! ?n = last device" if "?name = device"
  proof -
    have "?name = butlast device @ [last device]" using that False by simp
    then have "c_str (take (16 - length device) (drop ?n ifopts_name)) = [last device]" by simp
    then have "take (16 - length device) (drop ?n ifopts_name) ! 0 = last device"
      by (cases "take (16 - length device) (drop ?n ifopts_name)") (auto simp: c_str_def split: if_splits)
    with assms(2,3) show ?thesis by simp
  qed
  show ?thesis
    using False n cut name last assms(2,3)
    by (auto simp: set_promiscuous_def strncpy_def Let_def)
qed

theorem promiscuous_name_off_by_one_witness:
  "\<exists>name flags. set_promiscuous recording_kernel (replicate 16 (CHR 0x00)) 0 ''eth0'' 5 ([], [])
       = Inr (sys_SIOCSIFFLAGS recording_kernel 5 name (flags OR 0x100) ([], []))
     \<and> name = ''eth''"
  using promiscuous_name_off_by_one [of "''eth0''" "replicate 16 (CHR 0x00)" recording_kernel 0 5 "([], [])"]
  by (simp add: c_str_def numeral_eq_Suc)

end
