(* ===== verification/L1Thread.thy ===== *)
theory L1Thread
  imports L1Distribution PFringHandler PCapHandler
begin

text \<open>
  The thread of \<open>L1DistributionHandler\<close> among the others: event builder threads that request data,
  the flag of the burst handler that may change at any time, and a packet handler thread that sends
  queued frames. The loop is a state machine whose steps are its accesses to shared state.
\<close>

section \<open>The state machine\<close>

text \<open>
  \<open>Drain\<close> is before the test of the flag in the inner loop and \<open>Discard\<close> between it and \<open>try_pop\<close>. \<open>Sending\<close>
  holds the local variables of \<open>Async_SendMRP\<close>: the buffer and its contents, the number of
  triggers, the offset and the destinations still to be served.
\<close>

datatype l1_pc =
    Fill
  | Drain
  | Discard
  | Take
  | Decide
  | Sending nat u32 u64 "byte list" "MRP_FRAME_HDR list"
  | Crashed fault

record ('tq, 'n) L1_system =
  handler :: "('tq, 'n) L1DistributionHandler"
  flushBurst :: bool
  pc :: l1_pc
  multicastRequests :: "nat list"
  admitted :: "(Event \<times> bool) list"
  holding :: "(Event \<times> bool \<times> nat) list"

text \<open>
  The event builder threads are between two statements of \<open>Async_RequestL1DataMulticast\<close>: \<open>admitted\<close> has those
  that have passed the test of the flag, \<open>holding\<close> those that have made their trigger and not yet pushed it.
\<close>

fun held_triggers :: "(Event \<times> bool \<times> nat) list \<Rightarrow> nat list" where
  "held_triggers [] = []"
| "held_triggers ((event, z, p) # hs) = p # held_triggers hs"

lemma held_triggers_append [simp]: "held_triggers (hs @ hs') = held_triggers hs @ held_triggers hs'"
  by (induction hs rule: held_triggers.induct) simp_all

lemma in_held_triggers: "(event, z, p) \<in> set hs \<Longrightarrow> p \<in> set (held_triggers hs)"
  by (induction hs rule: held_triggers.induct) auto

datatype l1_label =
    Refused
  | Admitted Event bool
  | Created Event bool
  | Requested Event bool
  | SetFlush bool
  | SenderRuns
  | Discarded nat
  | Popped nat
  | Built nat
  | FrameQueued
  | PacketDone
  | Silent

text \<open>
  \<open>send_next\<close> is \<open>DoSendQueuedFrames\<close> of the back end. A step that would fault goes to \<open>Crashed\<close>.
\<close>

inductive l1_step ::
  "(nat, 'tq) tbb_queue \<Rightarrow> (DataContainer, 'q) tbb_queue \<Rightarrow> checksum_api \<Rightarrow> (nat \<Rightarrow> nat \<Rightarrow> byte)
     \<Rightarrow> (('q, 'm) NetworkHandler_scheme \<Rightarrow> (int \<times> ('q, 'm) NetworkHandler_scheme) res option)
     \<Rightarrow> ('tq, ('q, 'm) NetworkHandler_scheme) L1_system \<Rightarrow> l1_label
     \<Rightarrow> ('tq, ('q, 'm) NetworkHandler_scheme) L1_system \<Rightarrow> bool"
  for T Q cs junk send_next where
  refuse: "flushBurst s \<Longrightarrow> l1_step T Q cs junk send_next s Refused s"
| admit: "\<not> flushBurst s \<Longrightarrow>
    l1_step T Q cs junk send_next s (Admitted event z) (s\<lparr>admitted := (event, z) # admitted s\<rparr>)"
| create: "admitted s = es @ (event, z) # es' \<Longrightarrow> generateTriggerHDR event z (trigger_heap (handler s)) = (p, h) \<Longrightarrow>
    l1_step T Q cs junk send_next s (Created event z)
      (s\<lparr>handler := (handler s)\<lparr>trigger_heap := h\<rparr>, admitted := es @ es', holding := (event, z, p) # holding s\<rparr>)"
| request: "holding s = hs @ (event, z, p) # hs' \<Longrightarrow> q_push T p (multicastMRPQueue (handler s)) = Some q \<Longrightarrow>
    l1_step T Q cs junk send_next s (Requested event z)
      (s\<lparr>handler := (handler s)\<lparr>multicastMRPQueue := q\<rparr>, holding := hs @ hs'\<rparr>)"
| set_flush: "l1_step T Q cs junk send_next s (SetFlush b) (s\<lparr>flushBurst := b\<rparr>)"
| sender: "send_next (net (handler s)) = Some (Inr (k, n)) \<Longrightarrow>
    l1_step T Q cs junk send_next s SenderRuns (s\<lparr>handler := (handler s)\<lparr>net := n\<rparr>\<rparr>)"
| fill_more: "pc s = Fill \<Longrightarrow>
    length (multicastRequests s) \<noteq> unat (MAX_TRIGGERS_PER_L1MRP (handler s)) \<and> \<not> q_empty T (multicastMRPQueue (handler s)) \<Longrightarrow>
    l1_step T Q cs junk send_next s Silent (s\<lparr>pc := Drain\<rparr>)"
| fill_done: "pc s = Fill \<Longrightarrow>
    \<not> (length (multicastRequests s) \<noteq> unat (MAX_TRIGGERS_PER_L1MRP (handler s)) \<and> \<not> q_empty T (multicastMRPQueue (handler s))) \<Longrightarrow>
    l1_step T Q cs junk send_next s Silent (s\<lparr>pc := Decide\<rparr>)"
| drain_test: "pc s = Drain \<Longrightarrow>
    l1_step T Q cs junk send_next s Silent (s\<lparr>pc := (if flushBurst s then Discard else Take)\<rparr>)"
| drain: "pc s = Discard \<Longrightarrow> q_try_pop T (multicastMRPQueue (handler s)) = Some (hdr, q) \<Longrightarrow>
    heap_delete hdr (trigger_heap (handler s)) = Inr h \<Longrightarrow>
    l1_step T Q cs junk send_next s (Discarded hdr)
      (s\<lparr>handler := (handler s)\<lparr>multicastMRPQueue := q, trigger_heap := h\<rparr>, pc := Drain\<rparr>)"
| drain_fault: "pc s = Discard \<Longrightarrow> q_try_pop T (multicastMRPQueue (handler s)) = Some (hdr, q) \<Longrightarrow>
    heap_delete hdr (trigger_heap (handler s)) = Inl e \<Longrightarrow>
    l1_step T Q cs junk send_next s Silent (s\<lparr>pc := Crashed e\<rparr>)"
| drain_done: "pc s = Discard \<Longrightarrow> q_try_pop T (multicastMRPQueue (handler s)) = None \<Longrightarrow>
    l1_step T Q cs junk send_next s Silent (s\<lparr>pc := Take\<rparr>)"
| pop: "pc s = Take \<Longrightarrow> q_try_pop T (multicastMRPQueue (handler s)) = Some (hdr, q) \<Longrightarrow>
    l1_step T Q cs junk send_next s (Popped hdr)
      (s\<lparr>handler := (handler s)\<lparr>multicastMRPQueue := q\<rparr>, multicastRequests := multicastRequests s @ [hdr], pc := Fill\<rparr>)"
| pop_wait: "pc s = Take \<Longrightarrow> q_try_pop T (multicastMRPQueue (handler s)) = None \<Longrightarrow>
    l1_step T Q cs junk send_next s Silent s"
| idle: "pc s = Decide \<Longrightarrow> multicastRequests s = [] \<Longrightarrow>
    l1_step T Q cs junk send_next s Silent (s\<lparr>pc := Fill\<rparr>)"
| build: "pc s = Decide \<Longrightarrow> multicastRequests s \<noteq> [] \<Longrightarrow>
    begin_MRP junk (multicastRequests s) (handler s) = Inr (rest, b, k, offset, buff, l) \<Longrightarrow>
    l1_step T Q cs junk send_next s (Built (unat k)) (s\<lparr>handler := l, multicastRequests := rest,
      pc := Sending b k offset buff (L1_UnicastRequestHdrs l @ L1_MulticastRequestHdrs l)\<rparr>)"
| build_fault: "pc s = Decide \<Longrightarrow> multicastRequests s \<noteq> [] \<Longrightarrow>
    begin_MRP junk (multicastRequests s) (handler s) = Inl e \<Longrightarrow>
    l1_step T Q cs junk send_next s Silent (s\<lparr>pc := Crashed e\<rparr>)"
| send: "pc s = Sending b k offset buff (hdr # hdrs) \<Longrightarrow>
    send_frame cs Q junk buff offset k hdr (net (handler s)) = Some (Inr n) \<Longrightarrow>
    l1_step T Q cs junk send_next s FrameQueued
      (s\<lparr>handler := (handler s)\<lparr>net := n\<rparr>, pc := Sending b k offset buff hdrs\<rparr>)"
| send_fault: "pc s = Sending b k offset buff (hdr # hdrs) \<Longrightarrow>
    send_frame cs Q junk buff offset k hdr (net (handler s)) = Some (Inl e) \<Longrightarrow>
    l1_step T Q cs junk send_next s Silent (s\<lparr>pc := Crashed e\<rparr>)"
| finish: "pc s = Sending b k offset buff [] \<Longrightarrow> finish_MRP b k (handler s) = Inr l \<Longrightarrow>
    l1_step T Q cs junk send_next s PacketDone (s\<lparr>handler := l, pc := Fill\<rparr>)"
| finish_fault: "pc s = Sending b k offset buff [] \<Longrightarrow> finish_MRP b k (handler s) = Inl e \<Longrightarrow>
    l1_step T Q cs junk send_next s Silent (s\<lparr>pc := Crashed e\<rparr>)"

inductive l1_run ::
  "(nat, 'tq) tbb_queue \<Rightarrow> (DataContainer, 'q) tbb_queue \<Rightarrow> checksum_api \<Rightarrow> (nat \<Rightarrow> nat \<Rightarrow> byte)
     \<Rightarrow> (('q, 'm) NetworkHandler_scheme \<Rightarrow> (int \<times> ('q, 'm) NetworkHandler_scheme) res option)
     \<Rightarrow> ('tq, ('q, 'm) NetworkHandler_scheme) L1_system \<Rightarrow> l1_label list
     \<Rightarrow> ('tq, ('q, 'm) NetworkHandler_scheme) L1_system \<Rightarrow> bool"
  for T Q cs junk send_next where
  stop: "l1_run T Q cs junk send_next s [] s"
| more: "l1_step T Q cs junk send_next s a t \<Longrightarrow> l1_run T Q cs junk send_next t tr u \<Longrightarrow>
    l1_run T Q cs junk send_next s (a # tr) u"

lemma l1_run_append:
  "l1_run T Q cs junk send_next s tr t \<Longrightarrow> l1_run T Q cs junk send_next t tr' u \<Longrightarrow>
     l1_run T Q cs junk send_next s (tr @ tr') u"
  by (induction rule: l1_run.induct) (auto intro: l1_run.intros)

lemma l1_run_snoc:
  "l1_run T Q cs junk send_next s tr t \<Longrightarrow> l1_step T Q cs junk send_next t a u \<Longrightarrow>
     l1_run T Q cs junk send_next s (tr @ [a]) u"
  by (rule l1_run_append) (auto intro: l1_run.intros)

text \<open>The statements of an event builder in a row are the function.\<close>

lemma Async_RequestL1DataMulticast_is_steps:
  assumes "Async_RequestL1DataMulticast T (flushBurst s) event z (handler s) = Some l"
  shows "l1_run T Q cs junk send_next s
    (if flushBurst s then [Refused] else [Admitted event z, Created event z, Requested event z]) (s\<lparr>handler := l\<rparr>)"
proof (cases "flushBurst s")
  case True
  with assms have "s\<lparr>handler := l\<rparr> = s" by (simp add: Async_RequestL1DataMulticast_def)
  with l1_run.more [OF l1_step.refuse [OF True] l1_run.stop] True show ?thesis by simp
next
  case False
  obtain p h where g: "generateTriggerHDR event z (trigger_heap (handler s)) = (p, h)" by fastforce
  obtain q where q: "q_push T p (multicastMRPQueue (handler s)) = Some q"
    and l: "l = (handler s)\<lparr>trigger_heap := h, multicastMRPQueue := q\<rparr>"
    using assms False g by (auto simp: Async_RequestL1DataMulticast_def)
  let ?a = "s\<lparr>admitted := (event, z) # admitted s\<rparr>"
  let ?b = "?a\<lparr>handler := (handler ?a)\<lparr>trigger_heap := h\<rparr>, admitted := [] @ admitted s, holding := (event, z, p) # holding ?a\<rparr>"
  let ?c = "?b\<lparr>handler := (handler ?b)\<lparr>multicastMRPQueue := q\<rparr>, holding := [] @ holding s\<rparr>"
  have "l1_step T Q cs junk send_next s (Admitted event z) ?a" by (rule l1_step.admit [OF False])
  moreover have "l1_step T Q cs junk send_next ?a (Created event z) ?b" by (rule l1_step.create) (simp_all add: g)
  moreover have "l1_step T Q cs junk send_next ?b (Requested event z) ?c"
    by (rule l1_step.request [where hs = "[]" and p = p]) (simp_all add: q)
  ultimately have "l1_run T Q cs junk send_next s [Admitted event z, Created event z, Requested event z] ?c"
    by (rule l1_run.more [OF _ l1_run.more [OF _ l1_run.more [OF _ l1_run.stop]]])
  moreover have "?c = s\<lparr>handler := l\<rparr>" by (simp add: l)
  ultimately show ?thesis using False by simp
qed

section \<open>The environment\<close>

text \<open>
  What the thread and its clients rely on by themselves: checksums, the queue of triggers, and that a frame
  it enqueues comes last. \<open>elems\<close> may hold more frames than the queue, those that senders are working on.
\<close>

locale l1_client = inet_checksum cs + triggers: tbb_fifo T telems tcap
  for cs and T :: "(nat, 'tq) tbb_queue" and telems tcap +
  fixes Q :: "(DataContainer, 'q) tbb_queue" and elems :: "'q \<Rightarrow> DataContainer list"
    and ready :: "('q, 'm) NetworkHandler_scheme \<Rightarrow> bool"
  assumes enqueue_law: "AsyncSendFrame Q d n = Some n' \<Longrightarrow>
      (\<exists>q. n' = n\<lparr>asyncSendData := q\<rparr> \<and> elems q = elems (asyncSendData n) @ [d]) \<and> ready n' = ready n"
    and ready_blocks: "ready (n\<lparr>bufs := h\<rparr>) = ready n"

text \<open>With a packet handler thread whose calls are not interrupted.\<close>

locale l1_environment = inet_checksum cs + send_queue Q elems cap + triggers: tbb_fifo T telems tcap
  + back_end: frame_sender "AsyncSendFrame Q" send_next "\<lambda>n. elems (asyncSendData n)" bufs ready
  for cs and Q :: "(DataContainer, 'q) tbb_queue" and elems cap
    and T :: "(nat, 'tq) tbb_queue" and telems tcap
    and send_next :: "('q, 'm) NetworkHandler_scheme \<Rightarrow> (int \<times> ('q, 'm) NetworkHandler_scheme) res option"
    and ready +
  assumes ready_bufs: "ready (n\<lparr>bufs := h\<rparr>) = ready n"

section \<open>The invariant\<close>

text \<open>
  The live triggers are exactly those in the queue, in the vector and with event builders, each once; the frames in the
  send queue are safe; a packet under construction has its buffer.
\<close>

fun pc_ok :: "l1_pc \<Rightarrow> nat list \<Rightarrow> nat \<Rightarrow> DataContainer list \<Rightarrow> byte list heap \<Rightarrow> bool" where
  "pc_ok (Sending b k offset buff hdrs) reqs maxT ds h \<longleftrightarrow>
     live h b = Some buff \<and> (\<forall>d \<in> set ds. dc_data d \<noteq> b) \<and> list_all request_hdr_ok hdrs
     \<and> 0 < unat k \<and> unat k \<le> maxT \<and> unat k \<le> 5457 \<and> offset = of_nat (54 + 12 * unat k) \<and> length buff = 54 + 12 * unat k"
| "pc_ok (Crashed e) reqs maxT ds h \<longleftrightarrow> False"
| "pc_ok Drain reqs maxT ds h \<longleftrightarrow> length reqs < maxT"
| "pc_ok Discard reqs maxT ds h \<longleftrightarrow> length reqs < maxT"
| "pc_ok Take reqs maxT ds h \<longleftrightarrow> length reqs < maxT"
| "pc_ok p reqs maxT ds h \<longleftrightarrow> True"

definition l1_inv ::
  "('q \<Rightarrow> DataContainer list) \<Rightarrow> ('tq \<Rightarrow> nat list) \<Rightarrow> (('q, 'm) NetworkHandler_scheme \<Rightarrow> bool)
     \<Rightarrow> ('tq, ('q, 'm) NetworkHandler_scheme) L1_system \<Rightarrow> bool" where
  "l1_inv elems telems ready s \<longleftrightarrow>
     (let l = handler s; pending = telems (multicastMRPQueue l) @ multicastRequests s @ held_triggers (holding s)
      in heap_ok (trigger_heap l) \<and> distinct pending \<and> set pending = dom (live (trigger_heap l))
       \<and> length (multicastRequests s) \<le> unat (MAX_TRIGGERS_PER_L1MRP l) \<and> unat (MAX_TRIGGERS_PER_L1MRP l) \<le> 5457
       \<and> list_all request_hdr_ok (L1_UnicastRequestHdrs l @ L1_MulticastRequestHdrs l)
       \<and> queue_safe (elems (asyncSendData (net l))) (bufs (net l)) \<and> ready (net l)
       \<and> pc_ok (pc s) (multicastRequests s) (unat (MAX_TRIGGERS_PER_L1MRP l)) (elems (asyncSendData (net l))) (bufs (net l)))"

lemma pc_ok_heap:
  assumes "pc_ok p reqs m ds h" and "\<And>b k off buff hdrs. p = Sending b k off buff hdrs \<Longrightarrow> live h' b = live h b \<and>
    (\<forall>d \<in> set ds'. dc_data d \<noteq> b)"
  shows "pc_ok p reqs m ds' h'"
  using assms by (cases p) simp_all

context l1_client
begin

abbreviation inv :: "('tq, ('q, 'm) NetworkHandler_scheme) L1_system \<Rightarrow> bool" where
  "inv \<equiv> l1_inv elems telems ready"

lemma inv_create:
  assumes "inv s" and "generateTriggerHDR event z (trigger_heap (handler s)) = (p, h)"
  shows "inv (s\<lparr>handler := (handler s)\<lparr>trigger_heap := h\<rparr>, admitted := es, holding := (event, z, p) # holding s\<rparr>)"
proof -
  have ok: "heap_ok (trigger_heap (handler s))" using assms(1) by (simp add: l1_inv_def Let_def)
  note g = assms(2) [unfolded generateTriggerHDR_def]
  have new: "live (trigger_heap (handler s)) p = None" "dom (live h) = insert p (dom (live (trigger_heap (handler s))))"
      "heap_ok h" using heap_new_fresh [OF ok g] heap_ok_new [OF ok g] by simp_all
  have "p \<notin> set (telems (multicastMRPQueue (handler s)) @ multicastRequests s @ held_triggers (holding s))"
    using assms(1) new(1) unfolding l1_inv_def Let_def by (metis domIff)
  with assms(1) new show ?thesis by (auto simp: l1_inv_def Let_def)
qed

lemma inv_request:
  assumes "inv s" and "holding s = hs @ (event, z, p) # hs'" and "q_push T p (multicastMRPQueue (handler s)) = Some q"
  shows "inv (s\<lparr>handler := (handler s)\<lparr>multicastMRPQueue := q\<rparr>, holding := hs @ hs'\<rparr>)"
    and "telems q = telems (multicastMRPQueue (handler s)) @ [p]"
proof -
  show e: "telems q = telems (multicastMRPQueue (handler s)) @ [p]" using triggers.push_elems [OF assms(3)] by simp
  have "set (telems q @ multicastRequests s @ held_triggers (hs @ hs'))
      = set (telems (multicastMRPQueue (handler s)) @ multicastRequests s @ held_triggers (holding s))"
    using e assms(2) by auto
  moreover have "distinct (telems q @ multicastRequests s @ held_triggers (hs @ hs'))
      = distinct (telems (multicastMRPQueue (handler s)) @ multicastRequests s @ held_triggers (holding s))"
    using e assms(2) by auto
  ultimately show "inv (s\<lparr>handler := (handler s)\<lparr>multicastMRPQueue := q\<rparr>, holding := hs @ hs'\<rparr>)"
    using assms(1) by (simp add: l1_inv_def Let_def del: distinct_append set_append)
qed

lemma inv_drain:
  assumes "inv s" and "pc s = Discard" and "q_try_pop T (multicastMRPQueue (handler s)) = Some (hdr, q)"
  shows "\<exists>h. heap_delete hdr (trigger_heap (handler s)) = Inr h
    \<and> inv (s\<lparr>handler := (handler s)\<lparr>multicastMRPQueue := q, trigger_heap := h\<rparr>, pc := Drain\<rparr>)"
    and "telems (multicastMRPQueue (handler s)) = hdr # telems q"
proof -
  let ?th = "trigger_heap (handler s)"
  show e: "telems (multicastMRPQueue (handler s)) = hdr # telems q" using triggers.try_pop_Some [OF assms(3)] by simp
  have ok: "heap_ok ?th" using assms(1) by (simp add: l1_inv_def Let_def)
  have "hdr \<in> dom (live ?th)" using assms(1) e by (auto simp: l1_inv_def Let_def)
  then obtain x where "live ?th hdr = Some x" by auto
  then have del: "heap_delete hdr ?th = Inr (?th\<lparr>live := (live ?th)(hdr := None)\<rparr>)"
    by (rule heap_delete_live [OF ok])
  have dom: "set (telems q @ multicastRequests s @ held_triggers (holding s)) = dom (live ?th) - {hdr}"
    "distinct (telems q @ multicastRequests s @ held_triggers (holding s))"
    using assms(1) e by (auto simp: l1_inv_def Let_def)
  show "\<exists>h. heap_delete hdr ?th = Inr h
    \<and> inv (s\<lparr>handler := (handler s)\<lparr>multicastMRPQueue := q, trigger_heap := h\<rparr>, pc := Drain\<rparr>)"
    using assms(1,2) del dom heap_ok_upd(1) [OF ok, of hdr]
    by (intro exI [of _ "?th\<lparr>live := (live ?th)(hdr := None)\<rparr>"]) (simp add: l1_inv_def Let_def)
qed

lemma inv_pop:
  assumes "inv s" and "pc s = Take" and "q_try_pop T (multicastMRPQueue (handler s)) = Some (hdr, q)"
  shows "inv (s\<lparr>handler := (handler s)\<lparr>multicastMRPQueue := q\<rparr>, multicastRequests := multicastRequests s @ [hdr], pc := Fill\<rparr>)"
proof -
  have e: "telems (multicastMRPQueue (handler s)) = hdr # telems q" using triggers.try_pop_Some [OF assms(3)] by simp
  with assms(1,2) show ?thesis by (auto simp: l1_inv_def Let_def)
qed

lemma inv_build:
  assumes "inv s" and "multicastRequests s \<noteq> []"
  obtains b k buff h where "begin_MRP junk (multicastRequests s) (handler s) = Inr ([], b, of_nat k, of_nat (54 + 12 * k), buff,
      (handler s)\<lparr>trigger_heap := (trigger_heap (handler s))\<lparr>live :=
          live (trigger_heap (handler s)) |` (- set (multicastRequests s))\<rparr>,
        net := (net (handler s))\<lparr>bufs := h\<rparr>\<rparr>)"
    "k = length (multicastRequests s)" "k \<le> 5457"
    "drop 54 buff = trigger_bytes (live (trigger_heap (handler s))) (rev (multicastRequests s))"
    "inv (s\<lparr>handler := (handler s)\<lparr>trigger_heap := (trigger_heap (handler s))\<lparr>live :=
          live (trigger_heap (handler s)) |` (- set (multicastRequests s))\<rparr>,
        net := (net (handler s))\<lparr>bufs := h\<rparr>\<rparr>, multicastRequests := [],
      pc := Sending b (of_nat k) (of_nat (54 + 12 * k)) buff
        (L1_UnicastRequestHdrs (handler s) @ L1_MulticastRequestHdrs (handler s))\<rparr>)"
    "heap_ok h" "live (bufs (net (handler s))) \<subseteq>\<^sub>m live h"
proof -
  let ?l = "handler s" and ?reqs = "multicastRequests s"
  let ?max = "MAX_TRIGGERS_PER_L1MRP ?l" and ?n = "net ?l"
  have i: "heap_ok (trigger_heap ?l)" "distinct (telems (multicastMRPQueue ?l) @ ?reqs @ held_triggers (holding s))"
    "set (telems (multicastMRPQueue ?l) @ ?reqs @ held_triggers (holding s)) = dom (live (trigger_heap ?l))" "length ?reqs \<le> unat ?max"
    "unat ?max \<le> 5457" "queue_safe (elems (asyncSendData ?n)) (bufs ?n)" "ready ?n"
    "list_all request_hdr_ok (L1_UnicastRequestHdrs ?l @ L1_MulticastRequestHdrs ?l)"
    using assms(1) by (simp_all only: l1_inv_def Let_def)
  have b: "batch ?max ?reqs = ?reqs" "remaining ?max ?reqs = []" using i(4) by (simp_all add: batch_def remaining_def)
  have prems: "distinct ?reqs" "set ?reqs \<subseteq> dom (live (trigger_heap ?l))" "length (batch ?max ?reqs) \<le> 5457"
    "heap_ok (bufs ?n)" using i b by (auto simp: queue_safe_def)
  let ?payload = "trigger_bytes (live (trigger_heap ?l)) (rev ?reqs)"
  obtain p pre h where st: "begin_MRP junk ?reqs ?l = Inr (remaining ?max ?reqs, p,
      of_nat (length (batch ?max ?reqs)), of_nat (54 + 12 * length (batch ?max ?reqs)),
      pre @ trigger_bytes (live (trigger_heap ?l)) (rev (batch ?max ?reqs)),
      ?l\<lparr>trigger_heap := (trigger_heap ?l)\<lparr>live := live (trigger_heap ?l) |` (- set (batch ?max ?reqs))\<rparr>,
        net := ?n\<lparr>bufs := h\<rparr>\<rparr>)"
    "length pre = 54" "heap_ok h" "live (bufs ?n) p = None"
    "live h = (live (bufs ?n))(p \<mapsto> pre @ trigger_bytes (live (trigger_heap ?l)) (rev (batch ?max ?reqs)))"
    by (rule begin_MRP_ok [OF i(1) prems])
  have safe: "queue_safe (elems (asyncSendData ?n)) h"
    using queue_safe_fresh(1) [OF i(6) st(3-5), where d = "\<lparr>dc_data = p, dc_length = 0, ownerMayFreeData = True\<rparr>"]
    by simp
  have old: "\<forall>d \<in> set (elems (asyncSendData ?n)). dc_data d \<noteq> p"
    using i(6) st(4) by (auto simp: queue_safe_def list_all_iff container_ok_def split: option.splits)
  have un: "unat (of_nat (length ?reqs) :: u32) = length ?reqs"
    using i(4,5) by (intro unat_of_nat_less) simp
  let ?th = "(trigger_heap ?l)\<lparr>live := live (trigger_heap ?l) |` (- set ?reqs)\<rparr>"
  have th: "heap_ok ?th" using i(1) by (auto simp: heap_ok_def)
  have dom: "set (telems (multicastMRPQueue ?l)) \<union> set (held_triggers (holding s)) = dom (live (trigger_heap ?l)) \<inter> - set ?reqs"
    "set (telems (multicastMRPQueue ?l)) \<inter> set (held_triggers (holding s)) = {}"
    using i(2,3) by auto
  show ?thesis
  proof (rule that)
    show "begin_MRP junk ?reqs ?l = Inr ([], p, of_nat (length ?reqs), of_nat (54 + 12 * length ?reqs), pre @ ?payload,
        ?l\<lparr>trigger_heap := ?th, net := ?n\<lparr>bufs := h\<rparr>\<rparr>)"
      using st(1) by (simp only: b)
    show "length ?reqs = length ?reqs" "length ?reqs \<le> 5457" using i(4,5) by simp_all
    show "drop 54 (pre @ ?payload) = ?payload" using st(2) by simp
    show "heap_ok h" "live (bufs ?n) \<subseteq>\<^sub>m live h" using st(3-5) by (auto simp: map_le_def)
    show "inv (s\<lparr>handler := ?l\<lparr>trigger_heap := ?th, net := ?n\<lparr>bufs := h\<rparr>\<rparr>, multicastRequests := [],
      pc := Sending p (of_nat (length ?reqs)) (of_nat (54 + 12 * length ?reqs)) (pre @ ?payload)
        (L1_UnicastRequestHdrs ?l @ L1_MulticastRequestHdrs ?l)\<rparr>)"
      using i safe old un th dom st(2,5) b(1) assms(2) by (simp add: l1_inv_def Let_def ready_blocks)
  qed
qed

lemma send_enqueues:
  assumes "inv s" and "pc s = Sending b k offset buff (hdr # hdrs)"
  obtains h d where "send_frame cs Q junk buff offset k hdr (net (handler s))
      = map_option Inr (AsyncSendFrame Q d ((net (handler s))\<lparr>bufs := h\<rparr>))"
    "queue_safe (elems (asyncSendData (net (handler s))) @ [d]) h" "frame_for cs (drop 54 buff) (live h) hdr d"
    "live (bufs (net (handler s))) (dc_data d) = None" "live (bufs (net (handler s))) \<subseteq>\<^sub>m live h"
proof -
  let ?n = "net (handler s)"
  have i: "queue_safe (elems (asyncSendData ?n)) (bufs ?n)" using assms(1) by (simp add: l1_inv_def Let_def)
  have p: "request_hdr_ok hdr" "unat k \<le> 5457" "offset = of_nat (54 + 12 * unat k)" "length buff = 54 + 12 * unat k"
    using assms by (simp_all add: l1_inv_def Let_def)
  have len: "length (take 54 buff) = 54" "length (drop 54 buff) = 12 * unat k" using p(4) by simp_all
  obtain h d where "send_frame cs Q junk (take 54 buff @ drop 54 buff) (of_nat (54 + 12 * unat k)) (of_nat (unat k)) hdr ?n
       = map_option Inr (AsyncSendFrame Q d (?n\<lparr>bufs := h\<rparr>))"
    "queue_safe (elems (asyncSendData ?n) @ [d]) h" "frame_for cs (drop 54 buff) (live h) hdr d"
      "live (bufs ?n) (dc_data d) = None" "live (bufs ?n) \<subseteq>\<^sub>m live h"
    by (rule send_frame_eq [OF inet_checksum_axioms p(1) len p(2) i, of Q junk])
  then show ?thesis using p(3) by (intro that [of d h]) simp_all
qed

lemma inv_send:
  assumes "inv s" and "pc s = Sending b k offset buff (hdr # hdrs)"
  shows "send_frame cs Q junk buff offset k hdr (net (handler s)) \<noteq> Some (Inl e)"
    and "send_frame cs Q junk buff offset k hdr (net (handler s)) = Some (Inr n) \<Longrightarrow>
      inv (s\<lparr>handler := (handler s)\<lparr>net := n\<rparr>, pc := Sending b k offset buff hdrs\<rparr>)
      \<and> (\<exists>d. elems (asyncSendData n) = elems (asyncSendData (net (handler s))) @ [d]
           \<and> live (bufs (net (handler s))) (dc_data d) = None
           \<and> frame_for cs (drop 54 buff) (live (bufs n)) hdr d)"
proof -
  let ?n = "net (handler s)"
  obtain h d where eq: "send_frame cs Q junk buff offset k hdr ?n = map_option Inr (AsyncSendFrame Q d (?n\<lparr>bufs := h\<rparr>))"
    and rest: "queue_safe (elems (asyncSendData ?n) @ [d]) h" "frame_for cs (drop 54 buff) (live h) hdr d"
      "live (bufs ?n) (dc_data d) = None" "live (bufs ?n) \<subseteq>\<^sub>m live h"
    by (rule send_enqueues [OF assms, of junk])
  then show "send_frame cs Q junk buff offset k hdr ?n \<noteq> Some (Inl e)" by auto
  assume "send_frame cs Q junk buff offset k hdr ?n = Some (Inr n)"
  then have as: "AsyncSendFrame Q d (?n\<lparr>bufs := h\<rparr>) = Some n" using eq by auto
  from enqueue_law [OF as] obtain q where
    n: "n = ?n\<lparr>bufs := h, asyncSendData := q\<rparr>" "elems q = elems (asyncSendData ?n) @ [d]" by auto
  have "ready n" using enqueue_law [OF as] assms(1) by (simp add: ready_blocks l1_inv_def Let_def)
  moreover have b: "live (bufs ?n) b = Some buff" using assms by (simp add: l1_inv_def Let_def)
  then have "live h b = Some buff" using rest(4) by (auto simp: map_le_def dom_def)
  moreover have "dc_data d \<noteq> b" using rest(3) b by auto
  ultimately have "inv (s\<lparr>handler := (handler s)\<lparr>net := n\<rparr>, pc := Sending b k offset buff hdrs\<rparr>)"
    using assms rest(1) n by (simp add: l1_inv_def Let_def)
  then show "inv (s\<lparr>handler := (handler s)\<lparr>net := n\<rparr>, pc := Sending b k offset buff hdrs\<rparr>)
      \<and> (\<exists>d. elems (asyncSendData n) = elems (asyncSendData ?n) @ [d]
           \<and> live (bufs ?n) (dc_data d) = None \<and> frame_for cs (drop 54 buff) (live (bufs n)) hdr d)"
    using n rest by auto
qed

lemma inv_finish:
  assumes "inv s" and "pc s = Sending b k offset buff []"
  shows "\<exists>l. finish_MRP b k (handler s) = Inr l \<and> inv (s\<lparr>handler := l, pc := Fill\<rparr>)
    \<and> multicastMRPQueue l = multicastMRPQueue (handler s)"
proof -
  let ?n = "net (handler s)"
  have i: "queue_safe (elems (asyncSendData ?n)) (bufs ?n)" "ready ?n" using assms(1) by (simp_all add: l1_inv_def Let_def)
  have p: "live (bufs ?n) b = Some buff" "\<forall>d \<in> set (elems (asyncSendData ?n)). dc_data d \<noteq> b" "unat k \<le> 5457"
    using assms by (simp_all add: l1_inv_def Let_def)
  have ok: "heap_ok (bufs ?n)" using i(1) by (simp add: queue_safe_def)
  let ?h = "(bufs ?n)\<lparr>live := (live (bufs ?n))(b := None)\<rparr>"
  have "queue_safe (elems (asyncSendData ?n)) ?h"
    using p(2) heap_ok_upd(1) [OF ok, of b] by (intro queue_safe_drop_block [OF i(1)]) (simp_all, blast)
  with assms(1) i(2) have "inv (s\<lparr>handler := (handler s)\<lparr>net := ?n\<lparr>bufs := ?h\<rparr>,
      L1TriggersSent := x, L1MRPsSent := y\<rparr>, pc := Fill\<rparr>)" for x y
    by (simp add: l1_inv_def Let_def ready_blocks)
  with finish_MRP_ok [OF ok p(1,3)] show ?thesis by simp
qed

end

section \<open>Every run keeps the invariant\<close>

text \<open>Triggers that come in and go out with a step, and those that are waiting.\<close>

fun triggers_in :: "l1_label \<Rightarrow> nat" where
  "triggers_in (Requested event z) = 1"
| "triggers_in _ = 0"

fun triggers_out :: "l1_label \<Rightarrow> nat" where
  "triggers_out (Discarded p) = 1"
| "triggers_out (Built k) = k"
| "triggers_out _ = 0"

definition waiting :: "('tq \<Rightarrow> nat list) \<Rightarrow> ('tq, 'n) L1_system \<Rightarrow> nat" where
  "waiting telems s = length (telems (multicastMRPQueue (handler s))) + length (multicastRequests s)"

inductive_cases l1_runE [elim]: "l1_run T Q cs junk send_next s tr t"

context l1_client
begin

lemma inv_pc:
  "inv s \<Longrightarrow> pc_ok p (multicastRequests s) (unat (MAX_TRIGGERS_PER_L1MRP (handler s)))
      (elems (asyncSendData (net (handler s)))) (bufs (net (handler s))) \<Longrightarrow> inv (s\<lparr>pc := p\<rparr>)"
  by (simp add: l1_inv_def Let_def)

lemma inv_fill: "inv s \<Longrightarrow> length (multicastRequests s) \<noteq> unat (MAX_TRIGGERS_PER_L1MRP (handler s)) \<Longrightarrow>
    length (multicastRequests s) < unat (MAX_TRIGGERS_PER_L1MRP (handler s))"
  by (simp add: l1_inv_def Let_def)

lemma inv_step_own:
  assumes "l1_step T Q cs junk send_next s a t" and "inv s" and "a \<noteq> SenderRuns"
  shows "inv t \<and> waiting telems t + triggers_out a = waiting telems s + triggers_in a"
  using assms(1)
proof cases
  case (create es event z es' p h)
  from inv_create [OF assms(2) create(4)] show ?thesis by (simp add: create(1,2) waiting_def)
next
  case (request hs event z p hs' q)
  from inv_request [OF assms(2) request(3,4)] show ?thesis by (simp add: request(1,2) waiting_def)
next
  case (sender k n)
  with assms(3) show ?thesis by simp
next
  case fill_more
  then show ?thesis using inv_fill [OF assms(2)] inv_pc [OF assms(2), of Drain] by (simp add: waiting_def)
next
  case drain_test
  then show ?thesis using assms(2) by (intro conjI) (auto simp: l1_inv_def Let_def waiting_def)
next
  case (drain hdr q h)
  from inv_drain [OF assms(2) drain(3,4)] drain show ?thesis by (simp add: waiting_def)
next
  case (drain_fault hdr q e)
  from inv_drain(1) [OF assms(2) drain_fault(3,4)] drain_fault(5) show ?thesis by simp
next
  case drain_done
  then show ?thesis using assms(2) by (intro conjI) (simp_all add: l1_inv_def Let_def waiting_def)
next
  case (pop hdr q)
  from inv_pop [OF assms(2) pop(3,4)] triggers.try_pop_Some [OF pop(4)] pop show ?thesis
    by (simp add: waiting_def)
next
  case (build rest b k offset buff l)
  obtain b' k' buff' h where b: "begin_MRP junk (multicastRequests s) (handler s) = Inr ([], b', of_nat k', of_nat (54 + 12 * k'), buff',
      (handler s)\<lparr>trigger_heap := (trigger_heap (handler s))\<lparr>live :=
          live (trigger_heap (handler s)) |` (- set (multicastRequests s))\<rparr>,
        net := (net (handler s))\<lparr>bufs := h\<rparr>\<rparr>)"
    "k' = length (multicastRequests s)" "k' \<le> 5457"
    "inv (s\<lparr>handler := (handler s)\<lparr>trigger_heap := (trigger_heap (handler s))\<lparr>live :=
          live (trigger_heap (handler s)) |` (- set (multicastRequests s))\<rparr>,
        net := (net (handler s))\<lparr>bufs := h\<rparr>\<rparr>, multicastRequests := [],
      pc := Sending b' (of_nat k') (of_nat (54 + 12 * k')) buff'
        (L1_UnicastRequestHdrs (handler s) @ L1_MulticastRequestHdrs (handler s))\<rparr>)"
    by (rule inv_build [OF assms(2) build(4), of junk])
  have "unat (of_nat k' :: u32) = k'" using b(3) by (intro unat_of_nat_less) simp
  with b build(5) show ?thesis by (simp add: build(1,2) waiting_def)
next
  case (build_fault e)
  from inv_build [OF assms(2) build_fault(4), of junk] build_fault(5) show ?thesis by (metis Inl_Inr_False)
next
  case (send b k offset buff hdr hdrs n)
  from inv_send(2) [OF assms(2) send(3,4)] show ?thesis by (simp add: send(1,2) waiting_def)
next
  case (send_fault b k offset buff hdr hdrs e)
  from inv_send(1) [OF assms(2) send_fault(3)] send_fault(4) show ?thesis by blast
next
  case (finish b k offset buff l)
  from inv_finish [OF assms(2) finish(3)] finish(4) show ?thesis by (simp add: finish(1,2) waiting_def)
next
  case (finish_fault b k offset buff e)
  from inv_finish [OF assms(2) finish_fault(3)] finish_fault(4) show ?thesis by simp
qed (use assms(2) in \<open>simp_all add: l1_inv_def Let_def waiting_def\<close>)

end

sublocale l1_environment \<subseteq> l1_client cs T telems tcap Q elems ready
proof unfold_locales
  show "(\<exists>q. n' = n\<lparr>asyncSendData := q\<rparr> \<and> elems q = elems (asyncSendData n) @ [d]) \<and> ready n' = ready n"
    if "AsyncSendFrame Q d n = Some n'" for d and n n' :: "('q, 'm) NetworkHandler_scheme"
    using AsyncSendFrame_appends [OF that] back_end.enqueue_appends [OF that] by blast
qed (rule ready_bufs)

context l1_environment
begin

lemma client_contract: "l1_client cs T telems tcap Q elems ready"
  by (rule l1_client_axioms)

lemma inv_sender:
  assumes "inv s" and "send_next (net (handler s)) = Some (Inr (k, n))"
  shows "inv (s\<lparr>handler := (handler s)\<lparr>net := n\<rparr>\<rparr>)"
proof -
  let ?n = "net (handler s)"
  have safe: "queue_safe (elems (asyncSendData ?n)) (bufs ?n)" "ready ?n"
    using assms(1) by (simp_all add: l1_inv_def Let_def)
  have safe': "queue_safe (elems (asyncSendData n)) (bufs n)" "ready n"
    using back_end.send_safe [OF safe(2,1) assms(2)] by simp_all
  have pc: "pc_ok (pc s) r m (elems (asyncSendData n)) (bufs n)"
    if "pc_ok (pc s) r m (elems (asyncSendData ?n)) (bufs ?n)" for r m
  proof (cases "elems (asyncSendData ?n)")
    case Nil
    then have "n = ?n" using back_end.send_nothing [OF Nil] assms(2) by simp
    with that show ?thesis by simp
  next
    case (Cons d ds)
    have "queue_safe (d # ds) (bufs ?n)" using safe(1) Cons by simp
    from back_end.send_head [OF safe(2) this Cons assms(2)]
    have "elems (asyncSendData n) = ds" "live (bufs n) = release d (live (bufs ?n))" by simp_all
    with that Cons show ?thesis
      by (intro pc_ok_heap [OF that]) (auto simp: release_def)
  qed
  show ?thesis using assms(1) safe' pc by (simp add: l1_inv_def Let_def)
qed

lemma inv_step:
  assumes "l1_step T Q cs junk send_next s a t" and "inv s"
  shows "inv t \<and> waiting telems t + triggers_out a = waiting telems s + triggers_in a"
proof (cases "a = SenderRuns")
  case True
  from assms(1) [unfolded True] obtain k n where
    "send_next (net (handler s)) = Some (Inr (k, n))" "t = s\<lparr>handler := (handler s)\<lparr>net := n\<rparr>\<rparr>"
    by cases (auto split: if_splits)
  with inv_sender [OF assms(2)] True show ?thesis by (simp add: waiting_def)
next
  case False
  then show ?thesis by (rule inv_step_own [OF assms])
qed

lemma inv_run:
  assumes "l1_run T Q cs junk send_next s tr t" and "inv s"
  shows "inv t \<and> waiting telems t + sum_list (map triggers_out tr) = waiting telems s + sum_list (map triggers_in tr)"
  using assms
proof (induction rule: l1_run.induct)
  case (more s a t tr u)
  from inv_step [OF more.hyps(1) more.prems] more.IH show ?case by simp
qed simp

end

section \<open>Both back ends are such an environment\<close>

lemma l1_environment_pfring:
  assumes "inet_checksum cs" and "send_queue Q elems cap" and "tbb_fifo T telems tcap"
  shows "l1_environment cs Q elems cap T telems tcap (DoSendQueuedFrames Q api junk threadNum)
    (\<lambda>s. threadNum < length (queueRings s))"
  using assms send_queue.pfring_contract [OF assms(2), of api junk threadNum]
  by (simp add: l1_environment_def l1_environment_axioms_def)

lemma l1_environment_pcap:
  assumes "inet_checksum cs" and "send_queue Q elems cap" and "tbb_fifo T telems tcap"
  shows "l1_environment cs Q elems cap T telems tcap (\<lambda>s :: ('q, 'k) PCapHandler. Some (DoSendQueuedFrames_pcap Q api s))
    (\<lambda>s. True)"
proof -
  have "(AsyncSendFrame_pcap Q :: DataContainer \<Rightarrow> ('q, 'k) PCapHandler \<Rightarrow> _) = AsyncSendFrame Q"
    by (simp add: fun_eq_iff AsyncSendFrame_pcap_eq)
  with assms send_queue.pcap_contract [OF assms(2), of api] show ?thesis
    by (simp add: l1_environment_def l1_environment_axioms_def)
qed

interpretation l1_pfring: l1_environment rfc1071 list_queue fst snd list_queue fst snd
    "DoSendQueuedFrames list_queue api junk threadNum" "\<lambda>s. threadNum < length (queueRings s)"
  for api junk threadNum
  by (rule l1_environment_pfring [OF rfc1071.inet_checksum_axioms list_send_queue.send_queue_axioms
      list_queue.tbb_fifo_axioms])

interpretation l1_pcap: l1_environment rfc1071 list_queue fst snd list_queue fst snd
    "\<lambda>s. Some (DoSendQueuedFrames_pcap list_queue api s)" "\<lambda>s. True"
  for api
  by (rule l1_environment_pcap [OF rfc1071.inet_checksum_axioms list_send_queue.send_queue_axioms
      list_queue.tbb_fifo_axioms])

section \<open>Properties of the thread\<close>

text \<open>The state after \<open>Initialize\<close>, before the first request.\<close>

definition l1_start ::
  "('q \<Rightarrow> DataContainer list) \<Rightarrow> ('tq \<Rightarrow> nat list) \<Rightarrow> (('q, 'm) NetworkHandler_scheme \<Rightarrow> bool)
     \<Rightarrow> ('tq, ('q, 'm) NetworkHandler_scheme) L1_system \<Rightarrow> bool" where
  "l1_start elems telems ready s \<longleftrightarrow> pc s = Fill \<and> multicastRequests s = [] \<and> admitted s = [] \<and> holding s = []
     \<and> telems (multicastMRPQueue (handler s)) = [] \<and> live (trigger_heap (handler s)) = Map.empty
     \<and> heap_ok (trigger_heap (handler s)) \<and> unat (MAX_TRIGGERS_PER_L1MRP (handler s)) \<le> 5457
     \<and> list_all request_hdr_ok (L1_UnicastRequestHdrs (handler s) @ L1_MulticastRequestHdrs (handler s))
     \<and> queue_safe (elems (asyncSendData (net (handler s)))) (bufs (net (handler s))) \<and> ready (net (handler s))"

lemma l1_start_inv: "l1_start elems telems ready s \<Longrightarrow> l1_inv elems telems ready s"
  by (simp add: l1_start_def l1_inv_def Let_def)

text \<open>
  C5: However requests, changes of the flush flag and the sender interleave with the thread, it never
  touches memory that is not allocated: the triggers in memory are at every moment exactly those in
  the queue, in its vector and with event builders about to push them, each once, so none is leaked or deleted twice; the vector never grows
  beyond \<open>MAX_TRIGGERS_PER_L1MRP\<close>; the send queue stays safe; and the triggers accepted are those
  discarded, those packed and those waiting.
\<close>

theorem L1_thread_safe:
  assumes "l1_environment cs Q elems cap T telems tcap send_next ready"
    and "l1_start elems telems ready s" and "l1_run T Q cs junk send_next s tr t"
  shows "(\<forall>e. pc t \<noteq> Crashed e)
    \<and> distinct (telems (multicastMRPQueue (handler t)) @ multicastRequests t @ held_triggers (holding t))
    \<and> set (telems (multicastMRPQueue (handler t)) @ multicastRequests t @ held_triggers (holding t)) = dom (live (trigger_heap (handler t)))
    \<and> length (multicastRequests t) \<le> unat (MAX_TRIGGERS_PER_L1MRP (handler t))
    \<and> queue_safe (elems (asyncSendData (net (handler t)))) (bufs (net (handler t)))
    \<and> sum_list (map triggers_in tr) = sum_list (map triggers_out tr) + waiting telems t"
proof -
  from l1_environment.inv_run [OF assms(1,3) l1_start_inv [OF assms(2)]]
  have "l1_inv elems telems ready t"
    and "waiting telems t + sum_list (map triggers_out tr) = sum_list (map triggers_in tr)"
    using assms(2) by (simp_all add: waiting_def l1_start_def)
  moreover from this(1) have "pc t \<noteq> Crashed e" for e by (auto simp: l1_inv_def Let_def)
  ultimately show ?thesis by (simp add: l1_inv_def Let_def)
qed

definition example_event :: Event where
  "example_event = \<lparr>getTimestamp = 5, getFinetime = 7, getTriggerTypeWord = 1, getEventNumber = 2\<rparr>"

definition example_system ::
  "(nat list \<times> nat option, (DataContainer list \<times> nat option, byte list list \<times> string list) PCapHandler) L1_system" where
  "example_system = \<lparr>handler = \<lparr>multicastMRPQueue = ([], None), trigger_heap = \<lparr>fresh = 1, live = Map.empty\<rparr>,
      L1_MulticastRequestHdrs = [example_header], L1_UnicastRequestHdrs = [],
      L1_UnicastRequestHdr = None, L1TriggersSent = 0, L1MRPsSent = 0,
      MAX_TRIGGERS_PER_L1MRP = 2, MIN_USEC_BETWEEN_L1_REQUESTS = 1000, net = example_pcap\<rparr>,
    flushBurst = False, pc = Fill, multicastRequests = [], admitted = [], holding = []\<rparr>"

lemma example_system_start: "l1_start fst fst (\<lambda>_. True) example_system"
  using example_pcap_safe by (simp add: l1_start_def example_system_def heap_ok_def request_hdr_ok_example)

abbreviation example_step where
  "example_step \<equiv> l1_step list_queue list_queue rfc1071 (\<lambda>_ _. 0)
     (\<lambda>s. Some (DoSendQueuedFrames_pcap list_queue recording_kernel s))"

abbreviation example_run_to where
  "example_run_to \<equiv> l1_run list_queue list_queue rfc1071 (\<lambda>_ _. 0)
     (\<lambda>s. Some (DoSendQueuedFrames_pcap list_queue recording_kernel s)) example_system"

abbreviation example_requests :: "l1_label list" where
  "example_requests \<equiv> [Admitted example_event False, Created example_event False, Requested example_event False]"

text \<open>A request that is not refused, from any state whose queue of triggers has no bound.\<close>

lemma request_run:
  assumes "\<not> flushBurst s" "multicastMRPQueue (handler s) = (ps, None)"
  shows "\<exists>h p. l1_run list_queue Q cs junk send_next s [Admitted event z, Created event z, Requested event z]
      (s\<lparr>handler := (handler s)\<lparr>trigger_heap := h, multicastMRPQueue := (ps @ [p], None)\<rparr>\<rparr>)
    \<and> p = fresh (trigger_heap (handler s)) \<and> fresh h = Suc p"
proof -
  obtain p h where g: "generateTriggerHDR event z (trigger_heap (handler s)) = (p, h)" by fastforce
  then have "Async_RequestL1DataMulticast list_queue (flushBurst s) event z (handler s)
      = Some ((handler s)\<lparr>trigger_heap := h, multicastMRPQueue := (ps @ [p], None)\<rparr>)"
    using assms by (simp add: Async_RequestL1DataMulticast_def list_queue_def)
  from Async_RequestL1DataMulticast_is_steps [OF this] assms(1) g show ?thesis
    by (intro exI [of _ h] exI [of _ p]) (auto simp: generateTriggerHDR_def heap_new_def)
qed

text \<open>One request, and the thread takes it.\<close>

lemma example_run:
  "\<exists>t. example_run_to (example_requests @ [Silent, Silent, Popped 1]) t \<and> multicastRequests t = [1] \<and> pc t = Fill
   \<and> multicastMRPQueue (handler t) = ([], None) \<and> fresh (trigger_heap (handler t)) = 2
   \<and> admitted t = [] \<and> holding t = [] \<and> \<not> flushBurst t \<and> MAX_TRIGGERS_PER_L1MRP (handler t) = 2
   \<and> L1_UnicastRequestHdrs (handler t) @ L1_MulticastRequestHdrs (handler t) = [example_header]"
proof -
  let ?s = example_system
  have st: "\<not> flushBurst ?s" "multicastMRPQueue (handler ?s) = ([], None)" "pc ?s = Fill" "multicastRequests ?s = []"
    "fresh (trigger_heap (handler ?s)) = 1" "MAX_TRIGGERS_PER_L1MRP (handler ?s) = 2" "admitted ?s = []" "holding ?s = []"
    "L1_UnicastRequestHdrs (handler ?s) @ L1_MulticastRequestHdrs (handler ?s) = [example_header]"
    by (simp_all add: example_system_def)
  from request_run [OF st(1,2)] st(5) obtain h where
    run: "example_run_to example_requests (?s\<lparr>handler := (handler ?s)\<lparr>trigger_heap := h, multicastMRPQueue := ([1], None)\<rparr>\<rparr>)"
      "fresh h = 2" by fastforce
  let ?a = "?s\<lparr>handler := (handler ?s)\<lparr>trigger_heap := h, multicastMRPQueue := ([1], None)\<rparr>\<rparr>"
  let ?b = "?a\<lparr>pc := Drain\<rparr>"
  let ?c = "?b\<lparr>pc := (if flushBurst ?b then Discard else Take)\<rparr>"
  let ?d = "?c\<lparr>handler := (handler ?c)\<lparr>multicastMRPQueue := ([], None)\<rparr>, multicastRequests := multicastRequests ?c @ [1], pc := Fill\<rparr>"
  have "example_step ?a Silent ?b" by (rule l1_step.fill_more) (simp_all add: st list_queue_def)
  moreover have "example_step ?b Silent ?c" by (rule l1_step.drain_test) simp
  moreover have "example_step ?c (Popped 1) ?d" by (rule l1_step.pop) (simp_all add: st list_queue_def)
  ultimately have "l1_run list_queue list_queue rfc1071 (\<lambda>_ _. 0)
     (\<lambda>s. Some (DoSendQueuedFrames_pcap list_queue recording_kernel s)) ?a [Silent, Silent, Popped 1] ?d"
    by (rule l1_run.more [OF _ l1_run.more [OF _ l1_run.more [OF _ l1_run.stop]]])
  from l1_run_append [OF run(1) this] st run(2) show ?thesis by (intro exI conjI) (assumption | simp)+
qed

theorem L1_thread_safe_witness:
  "\<exists>t. example_run_to (example_requests @ [Silent, Silent, Popped 1]) t \<and> multicastRequests t = [1]
     \<and> dom (live (trigger_heap (handler t))) = {1}"
proof -
  obtain t where t: "example_run_to (example_requests @ [Silent, Silent, Popped 1]) t" "multicastRequests t = [1]"
    "multicastMRPQueue (handler t) = ([], None)" "holding t = []"
    using example_run by blast
  from L1_thread_safe [OF l1_pcap.l1_environment_axioms example_system_start t(1)] t(2-4)
  have "dom (live (trigger_heap (handler t))) = {1}" by (simp add: waiting_def)
  with t show ?thesis by (intro exI [of _ t]) simp
qed

text \<open>
  C7: In every reachable state in which a packet is being sent, the frame enqueued next is a good
  frame for the next destination: its payload is the packet's triggers, at least one and at most
  \<open>MAX_TRIGGERS_PER_L1MRP\<close> of them, its lengths and checksums are right, and its block is fresh; and
  the call never faults, it can only wait for room in the send queue.
\<close>

theorem L1_thread_frames:
  assumes "l1_environment cs Q elems cap T telems tcap send_next ready"
    and "l1_start elems telems ready s" and "l1_run T Q cs junk send_next s tr t"
    and "pc t = Sending b k offset buff (hdr # hdrs)"
  shows "(\<forall>e. send_frame cs Q junk buff offset k hdr (net (handler t)) \<noteq> Some (Inl e))
    \<and> length (drop 54 buff) = 12 * unat k \<and> 1 \<le> unat k
    \<and> unat k \<le> unat (MAX_TRIGGERS_PER_L1MRP (handler t)) \<and> request_hdr_ok hdr
    \<and> (\<forall>n. send_frame cs Q junk buff offset k hdr (net (handler t)) = Some (Inr n) \<longrightarrow>
         (\<exists>d. elems (asyncSendData n) = elems (asyncSendData (net (handler t))) @ [d]
            \<and> live (bufs (net (handler t))) (dc_data d) = None
            \<and> frame_for cs (drop 54 buff) (live (bufs n)) hdr d))"
proof -
  have inv: "l1_inv elems telems ready t"
    using l1_environment.inv_run [OF assms(1,3) l1_start_inv [OF assms(2)]] by blast
  then have "length (drop 54 buff) = 12 * unat k \<and> 1 \<le> unat k
    \<and> unat k \<le> unat (MAX_TRIGGERS_PER_L1MRP (handler t)) \<and> request_hdr_ok hdr"
    using assms(4) by (simp add: l1_inv_def Let_def)
  with l1_client.inv_send [OF l1_environment.client_contract [OF assms(1)] inv assms(4)] show ?thesis by blast
qed

section \<open>A flush while the thread is at work\<close>

text \<open>
  The thread in the inner loops with the flag up, holding the triggers \<open>ps\<close> as they are in \<open>m\<close>, and no event
  builder on its way to a push.
\<close>

definition flushing ::
  "('tq \<Rightarrow> nat list) \<Rightarrow> nat list \<Rightarrow> (nat \<rightharpoonup> TRIGGER_RAW_HDR) \<Rightarrow> ('tq, 'n) L1_system \<Rightarrow> bool" where
  "flushing telems ps m s \<longleftrightarrow> flushBurst s \<and> admitted s = [] \<and> holding s = []
     \<and> pc s \<in> {Drain, Discard, Take} \<and> (pc s = Take \<longrightarrow> telems (multicastMRPQueue (handler s)) = [])
     \<and> multicastRequests s = ps \<and> (\<forall>p \<in> set ps. live (trigger_heap (handler s)) p = m p)"

context l1_environment
begin

lemma flushing_step:
  assumes "l1_step T Q cs junk send_next s a t" "inv s" "flushing telems ps m s" "a \<noteq> SetFlush False"
  shows "flushing telems ps m t \<and> (\<forall>event z. a \<noteq> Requested event z) \<and> (\<forall>k. a \<noteq> Built k) \<and> (\<forall>p. a \<noteq> Popped p)"
  using assms(1)
proof cases
  case (drain hdr q h)
  then have e: "telems (multicastMRPQueue (handler s)) = hdr # telems q" using triggers.try_pop_Some by blast
  have ok: "heap_ok (trigger_heap (handler s))" and new: "hdr \<notin> set (multicastRequests s)"
    and "hdr \<in> dom (live (trigger_heap (handler s)))"
    using assms(2) e by (auto simp: l1_inv_def Let_def)
  then have "live h = (live (trigger_heap (handler s)))(hdr := None)"
    using drain(5) heap_delete_live [OF ok, of hdr] by auto
  with drain(1,2) new assms(3) show ?thesis by (auto simp: flushing_def)
next
  case (pop hdr q)
  with assms(3) triggers.try_pop_empty [of "multicastMRPQueue (handler s)"] show ?thesis by (simp add: flushing_def)
next
  case (drain_fault hdr q e)
  from inv_drain(1) [OF assms(2) drain_fault(3,4)] drain_fault(5) show ?thesis by simp
next
  case drain_done
  with assms(3) show ?thesis by (simp add: flushing_def triggers.try_pop_None)
qed (use assms(3,4) in \<open>auto simp: flushing_def\<close>)

lemma flushing_run:
  assumes "l1_run T Q cs junk send_next s tr t" "inv s" "flushing telems ps m s" "SetFlush False \<notin> set tr"
  shows "flushing telems ps m t \<and> (\<forall>a \<in> set tr. (\<forall>event z. a \<noteq> Requested event z) \<and> (\<forall>k. a \<noteq> Built k) \<and> (\<forall>p. a \<noteq> Popped p))"
  using assms
proof (induction rule: l1_run.induct)
  case (more s a t tr u)
  have a: "a \<noteq> SetFlush False" "SetFlush False \<notin> set tr" using more.prems(3) by auto
  note st = flushing_step [OF more.hyps(1) more.prems(1,2) a(1)]
  have "inv t" using inv_step [OF more.hyps(1) more.prems(1)] by blast
  from more.IH [OF this conjunct1 [OF st] a(2)] st show ?case by simp
qed simp

text \<open>By itself the thread empties the queue and comes to the inner \<open>try_pop\<close> loop.\<close>

abbreviation flushes_to where
  "flushes_to junk s u \<equiv> (\<exists>tr. l1_run T Q cs junk send_next s tr u \<and> (\<forall>a \<in> set tr. a = Silent \<or> (\<exists>p. a = Discarded p)))"

lemma flushes_step:
  "l1_step T Q cs junk send_next s a t \<Longrightarrow> a = Silent \<or> (\<exists>p. a = Discarded p) \<Longrightarrow> flushes_to junk t u \<Longrightarrow> flushes_to junk s u"
  by (meson l1_run.more set_ConsD)

lemma flushes_to_wait:
  assumes "inv s" "flushBurst s" "pc s \<in> {Drain, Discard}"
  shows "\<exists>u. flushes_to junk s u \<and> pc u = Take"
  using assms
proof (induction "length (telems (multicastMRPQueue (handler s)))" arbitrary: s rule: less_induct)
  case less
  have discard: "\<exists>u. flushes_to junk x u \<and> pc u = Take"
    if x: "inv x" "flushBurst x" "pc x = Discard" "handler x = handler s" for x
  proof (cases "q_try_pop T (multicastMRPQueue (handler x))")
    case None
    have "flushes_to junk (x\<lparr>pc := Take\<rparr>) (x\<lparr>pc := Take\<rparr>)" by (intro exI [of _ "[]"]) (simp add: l1_run.stop)
    from flushes_step [OF l1_step.drain_done [OF x(3) None] _ this] show ?thesis
      by (intro exI [of _ "x\<lparr>pc := Take\<rparr>"] conjI) simp_all
  next
    case (Some r)
    then obtain hdr q where q: "q_try_pop T (multicastMRPQueue (handler x)) = Some (hdr, q)" by (cases r) auto
    from inv_drain [OF x(1,3) q] obtain h where h: "heap_delete hdr (trigger_heap (handler x)) = Inr h"
      "inv (x\<lparr>handler := (handler x)\<lparr>multicastMRPQueue := q, trigger_heap := h\<rparr>, pc := Drain\<rparr>)"
      "telems (multicastMRPQueue (handler x)) = hdr # telems q" by blast
    let ?y = "x\<lparr>handler := (handler x)\<lparr>multicastMRPQueue := q, trigger_heap := h\<rparr>, pc := Drain\<rparr>"
    have "\<exists>u. flushes_to junk ?y u \<and> pc u = Take"
      using less.hyps [OF _ h(2)] h(3) x(2,4) by simp
    with flushes_step [OF l1_step.drain [OF x(3) q h(1)]] show ?thesis by blast
  qed
  show ?case
  proof (cases "pc s = Discard")
    case True
    with discard less.prems show ?thesis by blast
  next
    case False
    then have pc: "pc s = Drain" using less.prems(3) by simp
    let ?x = "s\<lparr>pc := Discard\<rparr>"
    have step: "l1_step T Q cs junk send_next s Silent ?x"
      using l1_step.drain_test [OF pc] less.prems(2) by (metis (full_types))
    then have "inv ?x" using inv_step less.prems(1) by blast
    with discard [of ?x] less.prems(2) obtain u where "flushes_to junk ?x u" "pc u = Take" by auto
    with flushes_step [OF step] show ?thesis by blast
  qed
qed

end

text \<open>
  C35: The thread can get stuck with triggers it has already taken. Suppose it has seen a non-empty queue,
  the flag of the burst handler goes up before it tests it, and no event builder is between its own test of
  the flag and the push. Then as long as the flag stays up nothing any thread does lets the distribution
  thread out of its inner loops: nothing is requested, popped or packed any more, the triggers it holds are
  neither sent nor deleted; and from every such moment it can go on by itself, discarding what is left in the
  queue, to the \<open>try_pop\<close> loop that does not look at the flag, where the queue stays empty.
\<close>

theorem L1_thread_stuck:
  assumes "l1_environment cs Q elems cap T telems tcap send_next ready"
    and "l1_start elems telems ready s\<^sub>0" and "l1_run T Q cs junk send_next s\<^sub>0 tr\<^sub>0 s"
    and "pc s = Drain" and "flushBurst s" and "admitted s = []" and "holding s = []"
    and "l1_run T Q cs junk send_next s tr t" and "SetFlush False \<notin> set tr"
  shows "pc t \<in> {Drain, Discard, Take} \<and> multicastRequests t = multicastRequests s
    \<and> (\<forall>p \<in> set (multicastRequests s). live (trigger_heap (handler t)) p = live (trigger_heap (handler s)) p)
    \<and> (\<forall>a \<in> set tr. (\<forall>event z. a \<noteq> Requested event z) \<and> (\<forall>k. a \<noteq> Built k) \<and> (\<forall>p. a \<noteq> Popped p))
    \<and> (pc t = Take \<longrightarrow> telems (multicastMRPQueue (handler t)) = [])
    \<and> (\<exists>tr' u. l1_run T Q cs junk send_next t tr' u \<and> (\<forall>a \<in> set tr'. a = Silent \<or> (\<exists>p. a = Discarded p)) \<and> pc u = Take)"
proof -
  have inv: "l1_inv elems telems ready s"
    using l1_environment.inv_run [OF assms(1,3) l1_start_inv [OF assms(2)]] by blast
  have "flushing telems (multicastRequests s) (live (trigger_heap (handler s))) s"
    using assms(4-7) by (simp add: flushing_def)
  note st = l1_environment.flushing_run [OF assms(1,8) inv this assms(9)]
  have inv': "l1_inv elems telems ready t" using l1_environment.inv_run [OF assms(1,8) inv] by blast
  have "\<exists>tr' u. l1_run T Q cs junk send_next t tr' u \<and> (\<forall>a \<in> set tr'. a = Silent \<or> (\<exists>p. a = Discarded p)) \<and> pc u = Take"
  proof (cases "pc t = Take")
    case True
    then show ?thesis by (intro exI [of _ "[]"] exI [of _ t]) (simp add: l1_run.stop)
  next
    case False
    with st have "pc t \<in> {Drain, Discard}" "flushBurst t" by (auto simp: flushing_def)
    from l1_environment.flushes_to_wait [OF assms(1) inv' this(2,1), of junk] show ?thesis by blast
  qed
  with st show ?thesis unfolding flushing_def by blast
qed

lemma example_sending:
  "\<exists>t tr b k offset buff. example_run_to tr t \<and> pc t = Sending b k offset buff [example_header]"
proof -
  obtain t where t: "example_run_to (example_requests @ [Silent, Silent, Popped 1]) t" "multicastRequests t = [1]" "pc t = Fill"
     "multicastMRPQueue (handler t) = ([], None)"
     "L1_UnicastRequestHdrs (handler t) @ L1_MulticastRequestHdrs (handler t) = [example_header]"
    using example_run by blast
  let ?u = "t\<lparr>pc := Decide\<rparr>"
  have "example_step t Silent ?u"
    by (rule l1_step.fill_done) (simp_all add: t(3,4) list_queue_def)
  note run = l1_run_snoc [OF t(1) this]
  have inv: "l1_inv fst fst (\<lambda>_. True) ?u"
    using l1_pcap.inv_run [OF run l1_start_inv [OF example_system_start]] by blast
  have ne: "multicastRequests ?u \<noteq> []" using t(2) by simp
  show ?thesis
  proof (rule l1_pcap.inv_build [OF inv ne, where junk = "\<lambda>_ _. 0"])
    fix b k buff h
    assume b: "begin_MRP (\<lambda>_ _. 0) (multicastRequests ?u) (handler ?u) = Inr ([], b, of_nat k, of_nat (54 + 12 * k), buff,
      (handler ?u)\<lparr>trigger_heap := (trigger_heap (handler ?u))\<lparr>live :=
          live (trigger_heap (handler ?u)) |` (- set (multicastRequests ?u))\<rparr>,
        net := (net (handler ?u))\<lparr>bufs := h\<rparr>\<rparr>)"
    have "pc ?u = Decide" by simp
    from l1_run_snoc [OF run l1_step.build [OF this ne b]] t(5)
    show ?thesis by fastforce
  qed
qed

theorem L1_thread_frames_witness:
  "\<exists>t b k offset buff hdrs. pc t = Sending b k offset buff (example_header # hdrs)
     \<and> send_frame rfc1071 list_queue (\<lambda>_ _. 0) buff offset k example_header (net (handler (t
         :: (nat list \<times> nat option, (DataContainer list \<times> nat option, byte list list \<times> string list) PCapHandler) L1_system)))
       \<noteq> Some (Inl UseAfterFree)
     \<and> unat k \<ge> 1"
proof -
  obtain t tr b k offset buff where t: "l1_run list_queue list_queue rfc1071 (\<lambda>_ _. 0)
     (\<lambda>s. Some (DoSendQueuedFrames_pcap list_queue recording_kernel s)) example_system tr t"
     "pc t = Sending b k offset buff [example_header]"
    using example_sending by blast
  from L1_thread_frames [OF l1_pcap.l1_environment_axioms example_system_start t] t(2) show ?thesis by blast
qed

text \<open>One trigger taken, a second one seen, and the flag goes up.\<close>

lemma example_flush:
  "\<exists>t. example_run_to ((example_requests @ [Silent, Silent, Popped 1]) @ example_requests @ [Silent, SetFlush True]) t
   \<and> pc t = Drain \<and> flushBurst t \<and> admitted t = [] \<and> holding t = [] \<and> multicastRequests t = [1]"
proof -
  obtain s where s: "example_run_to (example_requests @ [Silent, Silent, Popped 1]) s" "multicastRequests s = [1]" "pc s = Fill"
    "multicastMRPQueue (handler s) = ([], None)" "admitted s = []" "holding s = []" "\<not> flushBurst s"
    "MAX_TRIGGERS_PER_L1MRP (handler s) = 2"
    using example_run by blast
  from request_run [OF s(7,4)] obtain h p where
    run: "l1_run list_queue list_queue rfc1071 (\<lambda>_ _. 0) (\<lambda>s. Some (DoSendQueuedFrames_pcap list_queue recording_kernel s)) s
      example_requests (s\<lparr>handler := (handler s)\<lparr>trigger_heap := h, multicastMRPQueue := ([p], None)\<rparr>\<rparr>)" by fastforce
  let ?a = "s\<lparr>handler := (handler s)\<lparr>trigger_heap := h, multicastMRPQueue := ([p], None)\<rparr>\<rparr>"
  let ?b = "?a\<lparr>pc := Drain\<rparr>"
  have "example_step ?a Silent ?b" by (rule l1_step.fill_more) (simp_all add: s list_queue_def)
  moreover have "example_step ?b (SetFlush True) (?b\<lparr>flushBurst := True\<rparr>)" by (rule l1_step.set_flush)
  ultimately have "l1_run list_queue list_queue rfc1071 (\<lambda>_ _. 0) (\<lambda>s. Some (DoSendQueuedFrames_pcap list_queue recording_kernel s))
      ?a [Silent, SetFlush True] (?b\<lparr>flushBurst := True\<rparr>)"
    by (rule l1_run.more [OF _ l1_run.more [OF _ l1_run.stop]])
  from l1_run_append [OF s(1) l1_run_append [OF run this]] s(2,5,6) show ?thesis
    by (intro exI conjI) (assumption | simp)+
qed

theorem L1_thread_stuck_witness:
  "\<exists>s tr u. example_run_to tr s \<and> flushBurst s \<and> multicastRequests s = [1]
     \<and> (\<exists>tr'. l1_run list_queue list_queue rfc1071 (\<lambda>_ _. 0)
          (\<lambda>s. Some (DoSendQueuedFrames_pcap list_queue recording_kernel s)) s tr' u) \<and> pc u = Take"
proof -
  obtain s where s: "example_run_to ((example_requests @ [Silent, Silent, Popped 1]) @ example_requests @ [Silent, SetFlush True]) s"
    "pc s = Drain" "flushBurst s" "admitted s = []" "holding s = []" "multicastRequests s = [1]"
    using example_flush by blast
  have "SetFlush False \<notin> set []" by simp
  from L1_thread_stuck [OF l1_pcap.l1_environment_axioms example_system_start s(1-5) l1_run.stop this] s show ?thesis by blast
qed

end
