(* ===== verification/L1Refinement.thy ===== *)
theory L1Refinement
  imports L1Thread "HOL-Library.Sublist"
begin

text \<open>
  What \<open>L1DistributionHandler\<close> promises, without queues, heap and buffers: a machine that collects
  triggers in order and cuts them into packets. The thread's state machine refines it, label by label.
\<close>

section \<open>The specification\<close>

text \<open>
  Triggers that wait in the queue, triggers the thread has taken, and the packets made so far; a packet
  has its youngest trigger first.
\<close>

record batcher =
  asked :: "TRIGGER_RAW_HDR list"
  taken :: "TRIGGER_RAW_HDR list"
  packets :: "TRIGGER_RAW_HDR list list"

definition no_batches :: batcher where
  "no_batches = \<lparr>asked = [], taken = [], packets = []\<rparr>"

definition trigger_of :: "Event \<Rightarrow> bool \<Rightarrow> TRIGGER_RAW_HDR" where
  "trigger_of event zSuppressed = \<lparr>timestamp = htonl (getTimestamp event), fineTime = getFinetime event,
     requestZeroSuppressed = (if zSuppressed then 1 else 0),
     triggerTypeWord = htons (getTriggerTypeWord event), reserved2 = 0,
     eventNumber = ucast (drop_bit 8 (htonl (getEventNumber event)))\<rparr>"

fun batcher_step :: "l1_label \<Rightarrow> batcher \<Rightarrow> batcher" where
  "batcher_step (Requested event z) a = a\<lparr>asked := asked a @ [trigger_of event z]\<rparr>"
| "batcher_step (Discarded p) a = a\<lparr>asked := tl (asked a)\<rparr>"
| "batcher_step (Popped p) a = a\<lparr>asked := tl (asked a), taken := taken a @ [hd (asked a)]\<rparr>"
| "batcher_step (Built k) a = a\<lparr>taken := [], packets := packets a @ [rev (taken a)]\<rparr>"
| "batcher_step _ a = a"

text \<open>The accepted requests of a run, and the triggers of a state in the order of their requests.\<close>

fun requested :: "l1_label list \<Rightarrow> TRIGGER_RAW_HDR list" where
  "requested [] = []"
| "requested (Requested event z # tr) = trigger_of event z # requested tr"
| "requested (_ # tr) = requested tr"

definition in_order :: "batcher \<Rightarrow> TRIGGER_RAW_HDR list" where
  "in_order a = concat (map rev (packets a)) @ taken a @ asked a"

section \<open>The refinement\<close>

abbreviation content :: "('tq, 'n) L1_system \<Rightarrow> nat \<Rightarrow> TRIGGER_RAW_HDR" where
  "content s p \<equiv> the (live (trigger_heap (handler s)) p)"

text \<open>A packet under way is the last one that was made.\<close>

fun packet_of :: "l1_pc \<Rightarrow> TRIGGER_RAW_HDR list list \<Rightarrow> bool" where
  "packet_of (Sending b k offset buff hdrs) ps \<longleftrightarrow> ps \<noteq> []
     \<and> drop 54 buff = concat (map pack_TRIGGER_RAW_HDR (last ps)) \<and> length (last ps) = unat k"
| "packet_of _ ps \<longleftrightarrow> True"

definition implements :: "('tq \<Rightarrow> nat list) \<Rightarrow> ('tq, 'n) L1_system \<Rightarrow> batcher \<Rightarrow> bool" where
  "implements telems s a \<longleftrightarrow>
     map (content s) (telems (multicastMRPQueue (handler s))) = asked a
     \<and> map (content s) (multicastRequests s) = taken a
     \<and> (\<forall>p \<in> set (packets a). 1 \<le> length p \<and> length p \<le> unat (MAX_TRIGGERS_PER_L1MRP (handler s)))
     \<and> packet_of (pc s) (packets a)
     \<and> (\<forall>event z p. (event, z, p) \<in> set (holding s) \<longrightarrow> live (trigger_heap (handler s)) p = Some (trigger_of event z))"

lemma implements_net:
  "implements telems s a \<Longrightarrow> implements telems (s\<lparr>handler := (handler s)\<lparr>net := n\<rparr>\<rparr>) a"
  by (simp add: implements_def)

lemma map_content:
  "(\<And>p. p \<in> set ps \<Longrightarrow> m p = live (trigger_heap (handler s)) p) \<Longrightarrow> map (content s) ps = ts \<Longrightarrow>
     map (\<lambda>p. the (m p)) ps = ts"
  by (metis (no_types, lifting) map_cong)

lemma implements_contents:
  "implements telems s a \<Longrightarrow> map (content s) (telems (multicastMRPQueue (handler s))) = asked a"
  "implements telems s a \<Longrightarrow> map (content s) (multicastRequests s) = taken a"
  "implements telems s a \<Longrightarrow> (event, z, p) \<in> set (holding s) \<Longrightarrow>
     live (trigger_heap (handler s)) p = Some (trigger_of event z)"
  by (simp_all add: implements_def)

lemma generateTriggerHDR_new: "generateTriggerHDR event z h = heap_new (trigger_of event z) h"
  by (simp add: generateTriggerHDR_def trigger_of_def)

context l1_client
begin

lemma implements_create:
  assumes "inv s" "implements telems s a"
    and "generateTriggerHDR event z (trigger_heap (handler s)) = (p, h)"
  shows "implements telems
    (s\<lparr>handler := (handler s)\<lparr>trigger_heap := h\<rparr>, admitted := es, holding := (event, z, p) # holding s\<rparr>) a"
proof -
  have ok: "heap_ok (trigger_heap (handler s))" and
    dom: "set (telems (multicastMRPQueue (handler s)) @ multicastRequests s @ held_triggers (holding s))
      = dom (live (trigger_heap (handler s)))"
    using assms(1) by (simp_all add: l1_inv_def Let_def)
  from heap_new_fresh [OF ok assms(3) [unfolded generateTriggerHDR_new]]
  have new: "live (trigger_heap (handler s)) p = None"
    "live h = (live (trigger_heap (handler s)))(p \<mapsto> trigger_of event z)" by simp_all
  then have old: "live h x = live (trigger_heap (handler s)) x"
    if "x \<in> set (telems (multicastMRPQueue (handler s)) @ multicastRequests s)" for x
    using dom that by auto
  have "map (\<lambda>x. the (live h x)) (telems (multicastMRPQueue (handler s))) = asked a"
    by (rule map_content [OF old implements_contents(1) [OF assms(2)]]) simp
  moreover have "map (\<lambda>x. the (live h x)) (multicastRequests s) = taken a"
    by (rule map_content [OF old implements_contents(2) [OF assms(2)]]) simp
  moreover have "live h p' = Some (trigger_of event' z')" if "(event', z', p') \<in> set (holding s)" for event' z' p'
    using implements_contents(3) [OF assms(2) that] new by auto
  ultimately show ?thesis using assms(2) new(2) by (auto simp: implements_def)
qed

lemma implements_request:
  assumes "implements telems s a" "holding s = hs @ (event, z, p) # hs'"
    and "q_push T p (multicastMRPQueue (handler s)) = Some q"
  shows "implements telems (s\<lparr>handler := (handler s)\<lparr>multicastMRPQueue := q\<rparr>, holding := hs @ hs'\<rparr>)
    (batcher_step (Requested event z) a)"
proof -
  have "content s p = trigger_of event z" using implements_contents(3) [OF assms(1), of event z p] assms(2) by simp
  with assms(1,2) triggers.push_elems [OF assms(3)] show ?thesis by (auto simp: implements_def)
qed

lemma implements_drain:
  assumes "inv s" "implements telems s a" "pc s = Discard"
    and "q_try_pop T (multicastMRPQueue (handler s)) = Some (hdr, q)"
    and "heap_delete hdr (trigger_heap (handler s)) = Inr h"
  shows "asked a \<noteq> []" "implements telems (s\<lparr>handler := (handler s)\<lparr>multicastMRPQueue := q, trigger_heap := h\<rparr>, pc := Drain\<rparr>)
    (a\<lparr>asked := tl (asked a)\<rparr>)"
proof -
  have e: "telems (multicastMRPQueue (handler s)) = hdr # telems q" using triggers.try_pop_Some [OF assms(4)] by simp
  then show "asked a \<noteq> []" using assms(2) by (auto simp: implements_def)
  have i: "hdr \<notin> set (telems q @ multicastRequests s @ held_triggers (holding s))" "heap_ok (trigger_heap (handler s))"
    "hdr \<in> dom (live (trigger_heap (handler s)))"
    using assms(1) e by (auto simp: l1_inv_def Let_def)
  then have h: "live h = (live (trigger_heap (handler s)))(hdr := None)"
    using assms(5) heap_delete_live [OF i(2), of hdr] by auto
  have old: "live h x = live (trigger_heap (handler s)) x" if "x \<in> set (telems q @ multicastRequests s)" for x
    using h i(1) that by auto
  have "map (\<lambda>x. the (live h x)) (telems q) = map (content s) (telems q)"
    by (rule map_content [OF old refl]) simp
  moreover have "map (\<lambda>x. the (live h x)) (multicastRequests s) = taken a"
    by (rule map_content [OF old implements_contents(2) [OF assms(2)]]) simp
  moreover have "asked a = content s hdr # map (content s) (telems q)" using assms(2) e by (simp add: implements_def)
  moreover have "live h p = Some (trigger_of event z)" if "(event, z, p) \<in> set (holding s)" for event z p
    using implements_contents(3) [OF assms(2) that] in_held_triggers [OF that] h i(1) by auto
  ultimately show "implements telems (s\<lparr>handler := (handler s)\<lparr>multicastMRPQueue := q, trigger_heap := h\<rparr>, pc := Drain\<rparr>)
    (a\<lparr>asked := tl (asked a)\<rparr>)" using assms(2,3) by (simp add: implements_def)
qed

lemma implements_pop:
  assumes "implements telems s a" and "q_try_pop T (multicastMRPQueue (handler s)) = Some (hdr, q)"
  shows "asked a \<noteq> []" "implements telems (s\<lparr>handler := (handler s)\<lparr>multicastMRPQueue := q\<rparr>,
      multicastRequests := multicastRequests s @ [hdr], pc := Fill\<rparr>) (batcher_step (Popped hdr) a)"
proof -
  have e: "telems (multicastMRPQueue (handler s)) = hdr # telems q" using triggers.try_pop_Some [OF assms(2)] by simp
  with assms(1) have "asked a = content s hdr # map (content s) (telems q)" by (simp add: implements_def)
  with assms(1) show "asked a \<noteq> []" "implements telems (s\<lparr>handler := (handler s)\<lparr>multicastMRPQueue := q\<rparr>,
      multicastRequests := multicastRequests s @ [hdr], pc := Fill\<rparr>) (batcher_step (Popped hdr) a)"
    by (simp_all add: implements_def)
qed

lemma implements_build:
  assumes "inv s" "implements telems s a" "multicastRequests s \<noteq> []"
    and "begin_MRP junk (multicastRequests s) (handler s) = Inr (rest, b, k, offset, buff, l)"
  shows "implements telems (s\<lparr>handler := l, multicastRequests := rest, pc := Sending b k offset buff hdrs\<rparr>)
    (batcher_step (Built n) a)"
proof -
  let ?reqs = "multicastRequests s" and ?live = "live (trigger_heap (handler s))"
  obtain b' k' buff' h where m: "begin_MRP junk ?reqs (handler s) = Inr ([], b', of_nat k', of_nat (54 + 12 * k'), buff',
      (handler s)\<lparr>trigger_heap := (trigger_heap (handler s))\<lparr>live := ?live |` (- set ?reqs)\<rparr>,
        net := (net (handler s))\<lparr>bufs := h\<rparr>\<rparr>)"
    "k' = length ?reqs" "k' \<le> 5457" "drop 54 buff' = trigger_bytes ?live (rev ?reqs)"
    by (rule inv_build [OF assms(1,3), of junk])
  have eq: "rest = []" "k = of_nat k'" "buff = buff'" "trigger_heap l = (trigger_heap (handler s))\<lparr>live := ?live |` (- set ?reqs)\<rparr>"
    "multicastMRPQueue l = multicastMRPQueue (handler s)" "MAX_TRIGGERS_PER_L1MRP l = MAX_TRIGGERS_PER_L1MRP (handler s)"
    using assms(4) m(1) by auto
  have k: "unat k = length ?reqs" using m(2,3) eq(2) by (simp add: unat_of_nat_less)
  have "set (telems (multicastMRPQueue (handler s))) \<inter> set ?reqs = {}" "length ?reqs \<le> unat (MAX_TRIGGERS_PER_L1MRP (handler s))"
    using assms(1) by (auto simp: l1_inv_def Let_def)
  note disj = this
  have old: "(?live |` (- set ?reqs)) x = ?live x" if "x \<in> set (telems (multicastMRPQueue (handler s)))" for x
    using disj(1) that by (auto simp: restrict_map_def)
  have "map (\<lambda>x. the ((?live |` (- set ?reqs)) x)) (telems (multicastMRPQueue (handler s))) = asked a"
    by (rule map_content [OF old implements_contents(1) [OF assms(2)]])
  moreover have "drop 54 buff = concat (map pack_TRIGGER_RAW_HDR (rev (taken a)))" "length (taken a) = length ?reqs"
    unfolding eq(3) m(4) trigger_bytes_def implements_contents(2) [OF assms(2), symmetric]
    by (simp_all add: rev_map comp_def)
  moreover have "1 \<le> length ?reqs" using assms(3) by (cases ?reqs) simp_all
  moreover have "(?live |` (- set ?reqs)) p = Some (trigger_of event z)" if "(event, z, p) \<in> set (holding s)" for event z p
  proof -
    have "p \<notin> set ?reqs" using in_held_triggers [OF that] assms(1) by (auto simp: l1_inv_def Let_def)
    with implements_contents(3) [OF assms(2) that] show ?thesis by simp
  qed
  ultimately show ?thesis using assms(2) eq k disj(2) by (simp add: implements_def)
qed

lemma finish_MRP_frame:
  "finish_MRP b k l = Inr l' \<Longrightarrow> trigger_heap l' = trigger_heap l \<and> multicastMRPQueue l' = multicastMRPQueue l
    \<and> MAX_TRIGGERS_PER_L1MRP l' = MAX_TRIGGERS_PER_L1MRP l"
  by (auto simp: finish_MRP_def bind_res_Inr_iff)

lemma subseq_tl: "subseq (xs @ tl ys) (xs @ ys)"
  by (cases ys) (auto intro: subseq_append_iff [THEN iffD2])

lemma implements_step:
  assumes "l1_step T Q cs junk send_next s l t" "inv s" "implements telems s a"
  shows "implements telems t (batcher_step l a)
    \<and> subseq (in_order (batcher_step l a)) (in_order a @ requested [l])
    \<and> ((\<forall>p. l \<noteq> Discarded p) \<longrightarrow> in_order (batcher_step l a) = in_order a @ requested [l])"
  using assms(1)
proof cases
  case (create es event z es' p h)
  from implements_create [OF assms(2,3) create(4)] show ?thesis by (simp add: create(1,2) in_order_def)
next
  case (request hs event z p hs' q)
  from implements_request [OF assms(3) request(3,4)] show ?thesis by (simp add: request(1,2) in_order_def)
next
  case (sender k n)
  with implements_net [OF assms(3)] show ?thesis by simp
next
  case (drain hdr q h)
  from implements_drain(2) [OF assms(2,3) drain(3-5)] drain(1,2) show ?thesis
    using subseq_tl [of "concat (map rev (packets a)) @ taken a" "asked a"] by (simp add: in_order_def)
next
  case (pop hdr q)
  from implements_pop [OF assms(3) pop(4)] pop(1,2) show ?thesis by (simp add: in_order_def)
next
  case (build rest b k offset buff h)
  from implements_build [OF assms(2,3) build(4,5)] show ?thesis by (simp add: build(1,2) in_order_def)
next
  case (send b k offset buff hdr hdrs n)
  with implements_net [OF assms(3)] show ?thesis by (simp add: implements_def)
next
  case (finish b k offset buff h)
  with finish_MRP_frame [OF finish(4)] assms(3) show ?thesis by (simp add: implements_def)
qed (use assms(3) in \<open>simp_all add: implements_def\<close>)

end

context l1_environment
begin

lemma implements_run:
  assumes "l1_run T Q cs junk send_next s tr t" "inv s" "implements telems s a"
  shows "implements telems t (fold batcher_step tr a)
    \<and> subseq (in_order (fold batcher_step tr a)) (in_order a @ requested tr)
    \<and> ((\<forall>p. Discarded p \<notin> set tr) \<longrightarrow> in_order (fold batcher_step tr a) = in_order a @ requested tr)"
  using assms
proof (induction arbitrary: a rule: l1_run.induct)
  case (more s l t tr u)
  note st = implements_step [OF more.hyps(1) more.prems]
  have "inv t" using inv_step [OF more.hyps(1) more.prems(1)] by blast
  note ih = more.IH [OF this, of "batcher_step l a"]
  have req: "requested (l # tr) = requested [l] @ requested tr" by (cases l) simp_all
  have "subseq (in_order (batcher_step l a) @ requested tr) (in_order a @ requested [l] @ requested tr)"
    using st list_emb_append_mono [OF _ subseq_order.refl, of _ "in_order a @ requested [l]" "requested tr"] by simp
  with st ih show ?case by (auto simp: req intro: subseq_order.order_trans)
qed simp

end

text \<open>
  C4: The thread refines the batching machine: in every reachable state the queue and the vector hold the
  triggers it says, the packet being sent is the last one it made, byte by byte and youngest trigger
  first, no packet is empty or longer than \<open>MAX_TRIGGERS_PER_L1MRP\<close>, and packets, vector and queue
  together are the accepted requests in their order, without the discarded ones and with no other missing,
  doubled or moved.
\<close>

theorem L1_refines_batcher:
  assumes "l1_environment cs Q elems cap T telems tcap send_next ready"
    and "l1_start elems telems ready s" and "l1_run T Q cs junk send_next s tr t"
  shows "implements telems t (fold batcher_step tr no_batches)
    \<and> subseq (in_order (fold batcher_step tr no_batches)) (requested tr)
    \<and> ((\<forall>p. Discarded p \<notin> set tr) \<longrightarrow> in_order (fold batcher_step tr no_batches) = requested tr)"
proof -
  have "implements telems s no_batches" "in_order no_batches = []"
    using assms(2) by (simp_all add: implements_def l1_start_def no_batches_def in_order_def)
  with l1_environment.implements_run [OF assms(1,3) l1_start_inv [OF assms(2)]] show ?thesis by fastforce
qed

theorem L1_refines_batcher_witness:
  "\<exists>t. example_run_to (example_requests @ [Silent, Silent, Popped 1]) t
   \<and> multicastRequests t = [1] \<and> content t 1 = trigger_of example_event False"
proof -
  obtain t where t: "example_run_to (example_requests @ [Silent, Silent, Popped 1]) t" "multicastRequests t = [1]"
    using example_run by blast
  from L1_refines_batcher [OF l1_pcap.l1_environment_axioms example_system_start t(1)]
  have "map (content t) (multicastRequests t) = [trigger_of example_event False]"
    by (simp add: implements_def no_batches_def)
  with t show ?thesis by (intro exI [of _ t]) simp
qed

end
