(* ===== verification/SenderThreads.thy ===== *)
theory SenderThreads
  imports PFringHandler PCapHandler
begin

text \<open>
  Several packet handler threads that call \<open>DoSendQueuedFrames\<close> at the same time, while others enqueue
  frames. The call is cut into its accesses to shared state: it takes a container from the queue, hands its
  bytes to the back end and frees the block. The steps are shown to be \<open>DoSendQueuedFrames\<close> when nothing
  comes between.
\<close>

section \<open>The state machine\<close>

text \<open>Between two steps a thread holds the local variables of the call: the container, then the result too.\<close>

datatype sender_pc =
    Idle
  | Dequeued DataContainer
  | Handed DataContainer int
  | Broken fault

record 'n sender_system =
  network :: 'n
  sender :: "nat \<Rightarrow> sender_pc"

text \<open>The bytes of a frame in memory.\<close>

definition bytes_of :: "('q, 'm) NetworkHandler_scheme \<Rightarrow> DataContainer \<Rightarrow> byte list" where
  "bytes_of n d = take (dc_length d) (the (live (bufs n) (dc_data d)))"

fun held :: "sender_pc \<Rightarrow> DataContainer list" where
  "held (Dequeued d) = [d]"
| "held (Handed d k) = [d]"
| "held _ = []"

definition in_flight :: "nat \<Rightarrow> (nat \<Rightarrow> sender_pc) \<Rightarrow> DataContainer list" where
  "in_flight threads f = concat (map (\<lambda>t. held (f t)) [0..<threads])"

datatype sender_label =
    Other
  | Enqueued "byte list"
  | Took nat "byte list"
  | NoFrame nat
  | Sent nat "byte list"
  | Returned nat int
  | Crash nat fault

text \<open>
  \<open>transmit\<close> is \<open>SendFrameConcurrently\<close> of the back end, \<open>counted\<close> what its \<open>DoSendQueuedFrames\<close> does
  after the block was freed. Other threads may change memory and counters, but neither the queue nor the
  blocks of frames that are queued or held; they enqueue containers that share no block with one of those,
  unless nobody frees it.
\<close>

inductive sender_step ::
  "(DataContainer, 'q) tbb_queue \<Rightarrow> ('q \<Rightarrow> DataContainer list) \<Rightarrow> (('q, 'm) NetworkHandler_scheme \<Rightarrow> bool)
     \<Rightarrow> (nat \<Rightarrow> byte list \<Rightarrow> u32 \<Rightarrow> ('q, 'm) NetworkHandler_scheme \<Rightarrow> (int \<times> ('q, 'm) NetworkHandler_scheme) res option)
     \<Rightarrow> (('q, 'm) NetworkHandler_scheme \<Rightarrow> ('q, 'm) NetworkHandler_scheme) \<Rightarrow> nat
     \<Rightarrow> ('q, 'm) NetworkHandler_scheme sender_system \<Rightarrow> sender_label
     \<Rightarrow> ('q, 'm) NetworkHandler_scheme sender_system \<Rightarrow> bool"
  for Q elems ready transmit counted threads where
  other: "asyncSendData n = asyncSendData (network s) \<Longrightarrow> ready n \<Longrightarrow> heap_ok (bufs n) \<Longrightarrow>
    \<forall>d \<in> set (elems (asyncSendData n) @ in_flight threads (sender s)).
      live (bufs n) (dc_data d) = live (bufs (network s)) (dc_data d) \<Longrightarrow>
    sender_step Q elems ready transmit counted threads s Other (s\<lparr>network := n\<rparr>)"
| enqueue: "AsyncSendFrame Q d (network s) = Some n \<Longrightarrow> container_ok (bufs (network s)) d \<Longrightarrow>
    \<forall>e \<in> set (elems (asyncSendData (network s)) @ in_flight threads (sender s)).
      ownerMayFreeData e \<or> ownerMayFreeData d \<longrightarrow> dc_data e \<noteq> dc_data d \<Longrightarrow>
    sender_step Q elems ready transmit counted threads s (Enqueued (bytes_of (network s) d)) (s\<lparr>network := n\<rparr>)"
| take_frame: "t < threads \<Longrightarrow> sender s t = Idle \<Longrightarrow> q_try_pop Q (asyncSendData (network s)) = Some (d, q) \<Longrightarrow>
    sender_step Q elems ready transmit counted threads s (Took t (bytes_of (network s) d))
      (s\<lparr>network := (network s)\<lparr>asyncSendData := q\<rparr>, sender := (sender s)(t := Dequeued d)\<rparr>)"
| no_frame: "t < threads \<Longrightarrow> sender s t = Idle \<Longrightarrow> q_try_pop Q (asyncSendData (network s)) = None \<Longrightarrow>
    sender_step Q elems ready transmit counted threads s (NoFrame t) s"
| hand_over: "t < threads \<Longrightarrow> sender s t = Dequeued d \<Longrightarrow> heap_read (dc_data d) (bufs (network s)) = Inr pkt \<Longrightarrow>
    transmit t pkt (of_nat (dc_length d)) (network s) = Some (Inr (k, n)) \<Longrightarrow>
    sender_step Q elems ready transmit counted threads s (Sent t (bytes_of (network s) d))
      (s\<lparr>network := n, sender := (sender s)(t := Handed d k)\<rparr>)"
| read_fault: "t < threads \<Longrightarrow> sender s t = Dequeued d \<Longrightarrow> heap_read (dc_data d) (bufs (network s)) = Inl e \<Longrightarrow>
    sender_step Q elems ready transmit counted threads s (Crash t e) (s\<lparr>sender := (sender s)(t := Broken e)\<rparr>)"
| send_fault: "t < threads \<Longrightarrow> sender s t = Dequeued d \<Longrightarrow> heap_read (dc_data d) (bufs (network s)) = Inr pkt \<Longrightarrow>
    transmit t pkt (of_nat (dc_length d)) (network s) = Some (Inl e) \<Longrightarrow>
    sender_step Q elems ready transmit counted threads s (Crash t e) (s\<lparr>sender := (sender s)(t := Broken e)\<rparr>)"
| free_block: "t < threads \<Longrightarrow> sender s t = Handed d k \<Longrightarrow>
    (if ownerMayFreeData d then heap_delete (dc_data d) (bufs (network s)) else Inr (bufs (network s))) = Inr h \<Longrightarrow>
    sender_step Q elems ready transmit counted threads s (Returned t k)
      (s\<lparr>network := counted ((network s)\<lparr>bufs := h\<rparr>), sender := (sender s)(t := Idle)\<rparr>)"
| free_fault: "t < threads \<Longrightarrow> sender s t = Handed d k \<Longrightarrow>
    (if ownerMayFreeData d then heap_delete (dc_data d) (bufs (network s)) else Inr (bufs (network s))) = Inl e \<Longrightarrow>
    sender_step Q elems ready transmit counted threads s (Crash t e) (s\<lparr>sender := (sender s)(t := Broken e)\<rparr>)"

inductive sender_run ::
  "(DataContainer, 'q) tbb_queue \<Rightarrow> ('q \<Rightarrow> DataContainer list) \<Rightarrow> (('q, 'm) NetworkHandler_scheme \<Rightarrow> bool)
     \<Rightarrow> (nat \<Rightarrow> byte list \<Rightarrow> u32 \<Rightarrow> ('q, 'm) NetworkHandler_scheme \<Rightarrow> (int \<times> ('q, 'm) NetworkHandler_scheme) res option)
     \<Rightarrow> (('q, 'm) NetworkHandler_scheme \<Rightarrow> ('q, 'm) NetworkHandler_scheme) \<Rightarrow> nat
     \<Rightarrow> ('q, 'm) NetworkHandler_scheme sender_system \<Rightarrow> sender_label list
     \<Rightarrow> ('q, 'm) NetworkHandler_scheme sender_system \<Rightarrow> bool"
  for Q elems ready transmit counted threads where
  stop: "sender_run Q elems ready transmit counted threads s [] s"
| more: "sender_step Q elems ready transmit counted threads s a u \<Longrightarrow>
    sender_run Q elems ready transmit counted threads u tr v \<Longrightarrow>
    sender_run Q elems ready transmit counted threads s (a # tr) v"

section \<open>What has happened in a run\<close>

fun enqueued_frames :: "sender_label list \<Rightarrow> byte list list" where
  "enqueued_frames [] = []"
| "enqueued_frames (Enqueued bs # tr) = bs # enqueued_frames tr"
| "enqueued_frames (_ # tr) = enqueued_frames tr"

text \<open>The frames taken from the queue, each with its thread, and those one thread handed to the back end.\<close>

fun taken_frames :: "sender_label list \<Rightarrow> (nat \<times> byte list) list" where
  "taken_frames [] = []"
| "taken_frames (Took t bs # tr) = (t, bs) # taken_frames tr"
| "taken_frames (_ # tr) = taken_frames tr"

fun sent_by :: "nat \<Rightarrow> sender_label list \<Rightarrow> byte list list" where
  "sent_by t [] = []"
| "sent_by t (Sent u bs # tr) = (if u = t then bs # sent_by t tr else sent_by t tr)"
| "sent_by t (_ # tr) = sent_by t tr"

definition taken_by :: "nat \<Rightarrow> sender_label list \<Rightarrow> byte list list" where
  "taken_by t tr = map snd (filter (\<lambda>x. fst x = t) (taken_frames tr))"

text \<open>The frame a thread has taken and not yet handed over.\<close>

fun to_hand :: "('q, 'm) NetworkHandler_scheme \<Rightarrow> sender_pc \<Rightarrow> byte list list" where
  "to_hand n (Dequeued d) = [bytes_of n d]"
| "to_hand n _ = []"

section \<open>The contract of the back end\<close>

locale transmitter = send_queue Q elems capacity
  for Q :: "(DataContainer, 'q) tbb_queue" and elems capacity +
  fixes transmit :: "nat \<Rightarrow> byte list \<Rightarrow> u32 \<Rightarrow> ('q, 'm) NetworkHandler_scheme
      \<Rightarrow> (int \<times> ('q, 'm) NetworkHandler_scheme) res option"
    and counted :: "('q, 'm) NetworkHandler_scheme \<Rightarrow> ('q, 'm) NetworkHandler_scheme"
    and ready :: "('q, 'm) NetworkHandler_scheme \<Rightarrow> bool" and threads :: nat
  assumes transmit_law: "t < threads \<Longrightarrow> ready n \<Longrightarrow> heap_ok (bufs n) \<Longrightarrow> unat len \<le> length pkt \<Longrightarrow>
      transmit t pkt len n = Some r \<Longrightarrow>
      \<exists>k n'. r = Inr (k, n') \<and> asyncSendData n' = asyncSendData n \<and> heap_ok (bufs n')
        \<and> live (bufs n') = live (bufs n) \<and> ready n'"
    and counted_law: "asyncSendData (counted n) = asyncSendData n" "bufs (counted n) = bufs n" "ready (counted n) = ready n"
    and ready_upd: "ready (n\<lparr>bufs := h\<rparr>) = ready n" "ready (n\<lparr>asyncSendData := q\<rparr>) = ready n"

section \<open>Frames queued and in flight\<close>

lemma owned_apart_move: "owned_apart (xs @ d # ys) \<longleftrightarrow> owned_apart (d # xs @ ys)"
  by (auto simp: owned_apart_append list_all_iff)

lemma queue_safe_move: "queue_safe (xs @ d # ys) h \<longleftrightarrow> queue_safe (d # xs @ ys) h"
  unfolding queue_safe_def owned_apart_move by auto

lemma queue_safe_blocks:
  assumes "queue_safe ds h" "heap_ok h'" "\<forall>d \<in> set ds. live h' (dc_data d) = live h (dc_data d)"
  shows "queue_safe ds h'"
  using assms container_ok_live [of h' _ h] by (auto simp: queue_safe_def list_all_iff)

lemma in_flight_split:
  assumes "t < threads"
  obtains A B where "\<forall>p. in_flight threads (f(t := p)) = A @ held p @ B" "in_flight threads f = A @ held (f t) @ B"
proof -
  let ?A = "concat (map (\<lambda>u. held (f u)) [0..<t])" and ?B = "concat (map (\<lambda>u. held (f u)) [Suc t..<threads])"
  have up: "[0..<threads] = [0..<t] @ t # [Suc t..<threads]"
    using assms upt_add_eq_append [of 0 t "threads - t"] by (simp add: upt_conv_Cons)
  have same: "map (\<lambda>u. held ((f(t := p)) u)) [0..<t] = map (\<lambda>u. held (f u)) [0..<t]"
    "map (\<lambda>u. held ((f(t := p)) u)) [Suc t..<threads] = map (\<lambda>u. held (f u)) [Suc t..<threads]" for p
    by simp_all
  have "in_flight threads (f(t := p)) = ?A @ held p @ ?B" for p
    unfolding in_flight_def up by (simp only: map_append list.map concat_append concat.simps same fun_upd_same)
  from this [of "f t"] this show ?thesis by (intro that [of ?A ?B]) simp_all
qed

lemma bytes_of_same:
  "live (bufs n') (dc_data d) = live (bufs n) (dc_data d) \<Longrightarrow> bytes_of n' d = bytes_of n d"
  by (simp add: bytes_of_def)

lemma held_in_flight: "t < threads \<Longrightarrow> set (held (f t)) \<subseteq> set (in_flight threads f)"
  by (auto simp: in_flight_def)

lemma to_hand_same:
  "(\<And>d. d \<in> set (held p) \<Longrightarrow> live (bufs n') (dc_data d) = live (bufs n) (dc_data d)) \<Longrightarrow> to_hand n' p = to_hand n p"
  by (cases p) (simp_all add: bytes_of_def)

section \<open>The invariant\<close>

definition sender_inv ::
  "('q \<Rightarrow> DataContainer list) \<Rightarrow> (('q, 'm) NetworkHandler_scheme \<Rightarrow> bool) \<Rightarrow> nat
     \<Rightarrow> ('q, 'm) NetworkHandler_scheme sender_system \<Rightarrow> bool" where
  "sender_inv elems ready threads s \<longleftrightarrow>
     queue_safe (elems (asyncSendData (network s)) @ in_flight threads (sender s)) (bufs (network s))
     \<and> ready (network s) \<and> (\<forall>t e. sender s t \<noteq> Broken e) \<and> (\<forall>t. threads \<le> t \<longrightarrow> sender s t = Idle)"

text \<open>
  What has been enqueued was taken or is in the queue, in the same order; what a thread took it handed over
  or holds, in the same order. \<open>n0\<close>, \<open>f0\<close> and \<open>queued0\<close> are the state before the steps.
\<close>

definition accounted ::
  "('q \<Rightarrow> DataContainer list) \<Rightarrow> ('q, 'm) NetworkHandler_scheme sender_system \<Rightarrow> sender_label list
     \<Rightarrow> ('q, 'm) NetworkHandler_scheme sender_system \<Rightarrow> bool" where
  "accounted elems s tr u \<longleftrightarrow>
     map (bytes_of (network s)) (elems (asyncSendData (network s))) @ enqueued_frames tr
       = map snd (taken_frames tr) @ map (bytes_of (network u)) (elems (asyncSendData (network u)))
     \<and> (\<forall>t. to_hand (network s) (sender s t) @ taken_by t tr = sent_by t tr @ to_hand (network u) (sender u t))"

lemma histories_append:
  "enqueued_frames (xs @ ys) = enqueued_frames xs @ enqueued_frames ys"
  "taken_frames (xs @ ys) = taken_frames xs @ taken_frames ys"
  "sent_by t (xs @ ys) = sent_by t xs @ sent_by t ys"
  by (induction xs rule: enqueued_frames.induct; simp)+

lemma accounted_trans: "accounted elems s [a] u \<Longrightarrow> accounted elems u tr v \<Longrightarrow> accounted elems s (a # tr) v"
  using histories_append [where xs = "[a]" and ys = tr]
  by (simp add: accounted_def taken_by_def) (metis append.assoc)

lemma accounted_same:
  assumes "elems (asyncSendData (network u)) = elems (asyncSendData (network s))"
    and "\<And>d. d \<in> set (elems (asyncSendData (network s))) \<Longrightarrow> bytes_of (network u) d = bytes_of (network s) d"
    and "\<And>t. to_hand (network u) (sender u t) = to_hand (network s) (sender s t)"
    and "enqueued_frames [a] = []" "taken_frames [a] = []" "\<And>t. sent_by t [a] = []"
  shows "accounted elems s [a] u"
  using assms by (simp add: accounted_def taken_by_def)

context transmitter
begin

abbreviation inv :: "('q, 'm) NetworkHandler_scheme sender_system \<Rightarrow> bool" where
  "inv \<equiv> sender_inv elems ready threads"

lemma inv_other:
  assumes "inv s" "asyncSendData n = asyncSendData (network s)" "ready n" "heap_ok (bufs n)"
    and "\<forall>d \<in> set (elems (asyncSendData n) @ in_flight threads (sender s)).
      live (bufs n) (dc_data d) = live (bufs (network s)) (dc_data d)"
  shows "inv (s\<lparr>network := n\<rparr>) \<and> accounted elems s [Other] (s\<lparr>network := n\<rparr>)"
proof
  show "inv (s\<lparr>network := n\<rparr>)"
    using assms queue_safe_blocks [of _ "bufs (network s)" "bufs n"] by (simp add: sender_inv_def)
  have "to_hand n (sender s t) = to_hand (network s) (sender s t)" for t
  proof (cases "t < threads")
    case True
    then show ?thesis using assms(5) held_in_flight [OF True, of "sender s"] by (intro to_hand_same) auto
  next
    case False
    then have "sender s t = Idle" using assms(1) by (simp add: sender_inv_def)
    then show ?thesis by simp
  qed
  with assms(2,5) show "accounted elems s [Other] (s\<lparr>network := n\<rparr>)"
    by (intro accounted_same) (auto intro: bytes_of_same)
qed

lemma inv_enqueue:
  assumes "inv s" "AsyncSendFrame Q d (network s) = Some n" "container_ok (bufs (network s)) d"
    and "\<forall>e \<in> set (elems (asyncSendData (network s)) @ in_flight threads (sender s)).
      ownerMayFreeData e \<or> ownerMayFreeData d \<longrightarrow> dc_data e \<noteq> dc_data d"
  shows "inv (s\<lparr>network := n\<rparr>) \<and> accounted elems s [Enqueued (bytes_of (network s) d)] (s\<lparr>network := n\<rparr>)"
proof -
  obtain q where n: "n = (network s)\<lparr>asyncSendData := q\<rparr>" "elems q = elems (asyncSendData (network s)) @ [d]"
    using AsyncSendFrame_appends [OF assms(2)] by blast
  have "queue_safe ((elems (asyncSendData (network s)) @ in_flight threads (sender s)) @ [d]) (bufs (network s))"
    by (rule queue_safe_push) (use assms in \<open>auto simp: sender_inv_def\<close>)
  then have "queue_safe (elems q @ in_flight threads (sender s)) (bufs (network s))"
    using n(2) by (metis append.assoc append_Cons append_Nil append_Nil2 queue_safe_move)
  moreover have "bytes_of n = bytes_of (network s)" by (simp add: fun_eq_iff bytes_of_def n(1))
  moreover have "to_hand n p = to_hand (network s) p" for p by (cases p) (simp_all add: bytes_of_def n(1))
  ultimately show ?thesis
    using assms(1) n by (simp add: sender_inv_def accounted_def taken_by_def ready_upd)
qed


lemma bytes_of_upd [simp]: "bytes_of (n\<lparr>asyncSendData := q\<rparr>) = bytes_of n"
  by (simp add: fun_eq_iff bytes_of_def)

lemma to_hand_upd [simp]: "to_hand (n\<lparr>asyncSendData := q\<rparr>) p = to_hand n p"
  by (cases p) simp_all

lemma inv_take:
  assumes "inv s" "t < threads" "sender s t = Idle" "q_try_pop Q (asyncSendData (network s)) = Some (d, q)"
  defines "u \<equiv> s\<lparr>network := (network s)\<lparr>asyncSendData := q\<rparr>, sender := (sender s)(t := Dequeued d)\<rparr>"
  shows "inv u \<and> accounted elems s [Took t (bytes_of (network s) d)] u"
proof -
  have e: "elems (asyncSendData (network s)) = d # elems q" using try_pop_Some [OF assms(4)] by simp
  obtain A B where fl: "\<forall>p. in_flight threads ((sender s)(t := p)) = A @ held p @ B"
    "in_flight threads (sender s) = A @ held (sender s t) @ B" by (rule in_flight_split [OF assms(2), where f = "sender s"])
  have "queue_safe (elems q @ A @ d # B) (bufs (network s))"
    using assms(1,3) fl e queue_safe_move [of "elems q @ A" d B] by (simp add: sender_inv_def)
  then have "inv u" using assms(1-3) fl by (simp add: sender_inv_def u_def ready_upd)
  moreover have "accounted elems s [Took t (bytes_of (network s) d)] u"
    using assms(3) e by (simp add: accounted_def taken_by_def u_def)
  ultimately show ?thesis ..
qed

lemma inv_container:
  assumes "inv s" "t < threads" "d \<in> set (held (sender s t))"
  obtains pkt where "live (bufs (network s)) (dc_data d) = Some pkt" "dc_length d \<le> length pkt"
    "unat (of_nat (dc_length d) :: u32) = dc_length d" "heap_read (dc_data d) (bufs (network s)) = Inr pkt"
    "heap_ok (bufs (network s))"
proof -
  have ok: "heap_ok (bufs (network s))" using assms(1) by (simp add: sender_inv_def queue_safe_def)
  have "container_ok (bufs (network s)) d"
    using assms held_in_flight [OF assms(2), of "sender s"] by (auto simp: sender_inv_def queue_safe_def list_all_iff)
  then obtain pkt where "live (bufs (network s)) (dc_data d) = Some pkt" "dc_length d \<le> length pkt" "dc_length d < 2 ^ 32"
    by (auto simp: container_ok_def split: option.splits)
  with ok show ?thesis by (intro that [of pkt]) (simp_all add: heap_read_live unsigned_of_nat take_bit_eq_mod)
qed

lemma inv_transmit:
  assumes "inv s" "t < threads" "sender s t = Dequeued d" "heap_read (dc_data d) (bufs (network s)) = Inr pkt"
    and "transmit t pkt (of_nat (dc_length d)) (network s) = Some r"
  obtains k n where "r = Inr (k, n)" "inv (s\<lparr>network := n, sender := (sender s)(t := Handed d k)\<rparr>)"
    "accounted elems s [Sent t (bytes_of (network s) d)] (s\<lparr>network := n, sender := (sender s)(t := Handed d k)\<rparr>)"
proof -
  have "d \<in> set (held (sender s t))" using assms(3) by simp
  then obtain pkt' where pkt: "dc_length d \<le> length pkt'" "unat (of_nat (dc_length d) :: u32) = dc_length d"
    "heap_read (dc_data d) (bufs (network s)) = Inr pkt'" and ok: "heap_ok (bufs (network s))"
    by (rule inv_container [OF assms(1,2)])
  have len: "unat (of_nat (dc_length d) :: u32) \<le> length pkt" unfolding pkt(2) using pkt(1,3) assms(4) by simp
  have "ready (network s)" using assms(1) by (simp add: sender_inv_def)
  from transmit_law [OF assms(2) this ok len assms(5)] obtain k n where
    n: "r = Inr (k, n)" "asyncSendData n = asyncSendData (network s)" "heap_ok (bufs n)"
    "live (bufs n) = live (bufs (network s))" "ready n" by blast
  obtain A B where fl: "\<forall>p. in_flight threads ((sender s)(t := p)) = A @ held p @ B"
    "in_flight threads (sender s) = A @ held (sender s t) @ B" by (rule in_flight_split [OF assms(2), where f = "sender s"])
  have same: "bytes_of n = bytes_of (network s)" by (simp add: fun_eq_iff bytes_of_def n(4))
  then have hand: "to_hand n p = to_hand (network s) p" for p by (cases p) simp_all
  let ?u = "s\<lparr>network := n, sender := (sender s)(t := Handed d k)\<rparr>"
  have "queue_safe (elems (asyncSendData n) @ A @ d # B) (bufs n)"
    using assms(1,3) fl n queue_safe_blocks [of _ "bufs (network s)" "bufs n"] by (simp add: sender_inv_def)
  then have "inv ?u" using assms(1-3) fl n(5) by (simp add: sender_inv_def)
  moreover have "accounted elems s [Sent t (bytes_of (network s) d)] ?u"
    using assms(3) n(2) same hand by (simp add: accounted_def taken_by_def)
  ultimately show ?thesis using that n(1) by blast
qed


lemma inv_free:
  assumes "inv s" "t < threads" "sender s t = Handed d k"
    and "(if ownerMayFreeData d then heap_delete (dc_data d) (bufs (network s)) else Inr (bufs (network s))) = r"
  obtains h where "r = Inr h"
    "inv (s\<lparr>network := counted ((network s)\<lparr>bufs := h\<rparr>), sender := (sender s)(t := Idle)\<rparr>)"
    "accounted elems s [Returned t k] (s\<lparr>network := counted ((network s)\<lparr>bufs := h\<rparr>), sender := (sender s)(t := Idle)\<rparr>)"
proof -
  let ?n = "network s"
  have "d \<in> set (held (sender s t))" using assms(3) by simp
  then obtain pkt where pkt: "live (bufs ?n) (dc_data d) = Some pkt" and ok: "heap_ok (bufs ?n)"
    by (rule inv_container [OF assms(1,2)])
  obtain h where h: "r = Inr h" "heap_ok h" "live h = release d (live (bufs ?n))"
    using assms(4) heap_delete_live [OF ok pkt] heap_ok_upd(1) [OF ok, of "dc_data d"] ok
    by (auto simp: release_def split: if_splits)
  obtain A B where fl: "\<forall>p. in_flight threads ((sender s)(t := p)) = A @ held p @ B"
    "in_flight threads (sender s) = A @ held (sender s t) @ B" by (rule in_flight_split [OF assms(2), where f = "sender s"])
  have safe: "queue_safe (d # (elems (asyncSendData ?n) @ A) @ B) (bufs ?n)"
    using assms(1,3) fl queue_safe_move [of "elems (asyncSendData ?n) @ A" d B] by (simp add: sender_inv_def)
  let ?m = "counted (?n\<lparr>bufs := h\<rparr>)"
  let ?u = "s\<lparr>network := ?m, sender := (sender s)(t := Idle)\<rparr>"
  have "queue_safe ((elems (asyncSendData ?n) @ A) @ B) h" by (rule queue_safe_release [OF safe h(2,3)])
  then have "inv ?u"
    using assms(1) fl(1) by (simp add: sender_inv_def counted_law ready_upd)
  moreover have blocks: "live (bufs ?m) (dc_data e) = live (bufs ?n) (dc_data e)"
    if "e \<in> set (elems (asyncSendData ?n) @ A @ B)" for e
    using safe that h(3) by (auto simp: counted_law release_def queue_safe_def list_all_iff)
  have "accounted elems s [Returned t k] ?u"
  proof (rule accounted_same)
    fix v
    show "to_hand (network ?u) (sender ?u v) = to_hand (network s) (sender s v)"
    proof (cases "v = t")
      case True
      then show ?thesis using assms(3) by simp
    next
      case False
      have "set (held (sender s v)) \<subseteq> set (A @ B)"
      proof (cases "v < threads")
        case True
        with held_in_flight [OF True, of "(sender s)(t := Idle)"] fl(1) False show ?thesis by simp
      next
        case False
        then show ?thesis using assms(1) by (simp add: sender_inv_def)
      qed
      then have "to_hand ?m (sender s v) = to_hand ?n (sender s v)"
        by (intro to_hand_same blocks) auto
      with False show ?thesis by simp
    qed
  qed (auto simp: counted_law intro!: bytes_of_same blocks)
  ultimately show ?thesis using that h(1) by blast
qed

lemma inv_step:
  assumes "sender_step Q elems ready transmit counted threads s a u" "inv s"
  shows "inv u \<and> accounted elems s [a] u \<and> (\<forall>t e. a \<noteq> Crash t e)"
  using assms(1)
proof cases
  case (other n)
  with inv_other [OF assms(2) other(3-6)] show ?thesis by simp
next
  case (enqueue d n)
  with inv_enqueue [OF assms(2) enqueue(3-5)] show ?thesis by simp
next
  case (take_frame t d q)
  with inv_take [OF assms(2) take_frame(3-5)] show ?thesis by simp
next
  case (no_frame t)
  with assms(2) show ?thesis by (auto intro: accounted_same)
next
  case (hand_over t d pkt k n)
  show ?thesis
    by (rule inv_transmit [OF assms(2) hand_over(3-6)]) (simp add: hand_over(1,2))
next
  case (read_fault t d e)
  have "d \<in> set (held (sender s t))" using read_fault(4) by simp
  then show ?thesis by (rule inv_container [OF assms(2) read_fault(3)]) (use read_fault(5) in simp)
next
  case (send_fault t d pkt e)
  show ?thesis by (rule inv_transmit [OF assms(2) send_fault(3-6)]) simp
next
  case (free_block t d k h)
  show ?thesis
    by (rule inv_free [OF assms(2) free_block(3-5)]) (simp add: free_block(1,2))
next
  case (free_fault t d k e)
  show ?thesis by (rule inv_free [OF assms(2) free_fault(3-5)]) simp
qed

lemma inv_run:
  assumes "sender_run Q elems ready transmit counted threads s tr u" "inv s"
  shows "inv u \<and> accounted elems s tr u \<and> (\<forall>t e. Crash t e \<notin> set tr)"
  using assms
proof (induction rule: sender_run.induct)
  case (stop s)
  then show ?case by (simp add: accounted_def taken_by_def)
next
  case (more s a u tr v)
  note st = inv_step [OF more.hyps(1) more.prems]
  with more.IH accounted_trans [of elems s a u tr v] show ?case by fastforce
qed

end

section \<open>Both back ends\<close>

abbreviation pfring_transmit where
  "pfring_transmit api junk \<equiv> \<lambda>t pkt len. SendFrameConcurrently api junk t pkt len True True"

abbreviation pcap_transmit where
  "pcap_transmit api \<equiv> \<lambda>(t :: nat) pkt len n. Some (SendFrameConcurrently_pcap api pkt len n)"

text \<open>\<open>DoSendQueuedFrames\<close> of the packet socket counts each frame a second time.\<close>

abbreviation pcap_counted :: "('q, 'm) NetworkHandler_scheme \<Rightarrow> ('q, 'm) NetworkHandler_scheme" where
  "pcap_counted n \<equiv> n\<lparr>framesSent := framesSent n + 1\<rparr>"

text \<open>The host's addresses never change, so that what a back end needs of them may be part of \<open>ready\<close>.\<close>

lemma transmitter_pfring_at:
  assumes "send_queue Q elems capacity"
  shows "transmitter Q elems capacity (pfring_transmit api junk) (\<lambda>n. n)
    (\<lambda>n. threads \<le> length (queueRings n) \<and> P (GetMyMac n) (GetMyIP n)) threads"
proof (intro transmitter.intro assms transmitter_axioms.intro)
  fix t len pkt r and n :: "('a, 'b) PFringHandler"
  assume a: "t < threads" "threads \<le> length (queueRings n) \<and> P (GetMyMac n) (GetMyIP n)" "heap_ok (bufs n)" "unat len \<le> length pkt"
    and r: "SendFrameConcurrently api junk t pkt len True True n = Some r"
  then have "t < length (queueRings n)" by simp
  from SendFrameConcurrently_spec [OF a(3) this a(4), of api junk True True] obtain h where
    h: "heap_ok h" "live h = live (bufs n)" "SendFrameConcurrently api junk t pkt len True True n =
      (case send_packet api (queueRings n ! t) (on_wire pkt (unat len)) True True (lib n) of
         None \<Rightarrow> None
       | Some (rc, r) \<Rightarrow> Some (Inr (rc, n\<lparr>framesSent := framesSent n + 1, bufs := h, lib := r\<rparr>)))" by blast
  from r [unfolded h(3)] obtain rc l where "r = Inr (rc, n\<lparr>framesSent := framesSent n + 1, bufs := h, lib := l\<rparr>)"
    by (auto split: option.splits)
  with h(1,2) a(2) show "\<exists>k n'. r = Inr (k, n') \<and> asyncSendData n' = asyncSendData n \<and> heap_ok (bufs n')
        \<and> live (bufs n') = live (bufs n) \<and> threads \<le> length (queueRings n') \<and> P (GetMyMac n') (GetMyIP n')"
    by (simp add: GetMyMac_def GetMyIP_def)
qed (simp_all add: GetMyMac_def GetMyIP_def)

lemma transmitter_pcap_at:
  assumes "send_queue Q elems capacity"
  shows "transmitter Q elems capacity (pcap_transmit api :: _ \<Rightarrow> _ \<Rightarrow> _ \<Rightarrow> ('q, 'k) PCapHandler \<Rightarrow> _) pcap_counted
    (\<lambda>n. P (GetMyMac n) (GetMyIP n)) threads"
  using assms
  by (auto simp: transmitter_def transmitter_axioms_def SendFrameConcurrently_pcap_def Let_def GetMyMac_def GetMyIP_def)

lemma transmitter_pfring:
  assumes "send_queue Q elems capacity"
  shows "transmitter Q elems capacity (pfring_transmit api junk) (\<lambda>n. n) (\<lambda>n. threads \<le> length (queueRings n)) threads"
  using transmitter_pfring_at [OF assms, where P = "\<lambda>_ _. True"] by simp

lemma transmitter_pcap:
  assumes "send_queue Q elems capacity"
  shows "transmitter Q elems capacity (pcap_transmit api :: _ \<Rightarrow> _ \<Rightarrow> _ \<Rightarrow> ('q, 'k) PCapHandler \<Rightarrow> _) pcap_counted
    (\<lambda>n. True) threads"
  by (rule transmitter_pcap_at [OF assms])

interpretation pfring_threads: transmitter list_queue fst snd "pfring_transmit api junk" "\<lambda>n. n"
    "\<lambda>n. threads \<le> length (queueRings n)" threads
  for api junk threads
  by (rule transmitter_pfring [OF list_send_queue.send_queue_axioms])

interpretation pcap_threads: transmitter list_queue fst snd "pcap_transmit api" pcap_counted "\<lambda>n. True" threads
  for api threads
  by (rule transmitter_pcap [OF list_send_queue.send_queue_axioms])

section \<open>The steps are the call\<close>

text \<open>The call without interruption, and its three steps.\<close>

definition whole_call ::
  "(DataContainer, 'q) tbb_queue
     \<Rightarrow> (nat \<Rightarrow> byte list \<Rightarrow> u32 \<Rightarrow> ('q, 'm) NetworkHandler_scheme \<Rightarrow> (int \<times> ('q, 'm) NetworkHandler_scheme) res option)
     \<Rightarrow> (('q, 'm) NetworkHandler_scheme \<Rightarrow> ('q, 'm) NetworkHandler_scheme) \<Rightarrow> nat
     \<Rightarrow> ('q, 'm) NetworkHandler_scheme \<Rightarrow> (int \<times> ('q, 'm) NetworkHandler_scheme) res option" where
  "whole_call Q transmit counted t n =
     (case q_try_pop Q (asyncSendData n) of
        None \<Rightarrow> Some (Inr (0, n))
      | Some (d, q) \<Rightarrow>
          bind_call (Some (heap_read (dc_data d) (bufs n))) (\<lambda>pkt.
          bind_call (transmit t pkt (of_nat (dc_length d)) (n\<lparr>asyncSendData := q\<rparr>)) (\<lambda>(k, n).
          bind_call (Some (if ownerMayFreeData d then heap_delete (dc_data d) (bufs n) else Inr (bufs n))) (\<lambda>h.
          Some (Inr (k, counted (n\<lparr>bufs := h\<rparr>)))))))"

lemma whole_call_pfring: "DoSendQueuedFrames Q api junk t = whole_call Q (pfring_transmit api junk) (\<lambda>n. n) t"
proof
  have upd: "n\<lparr>bufs := bufs n\<rparr> = n" for n :: "('a, 'b) PFringHandler" by simp
  show "DoSendQueuedFrames Q api junk t n = whole_call Q (pfring_transmit api junk) (\<lambda>n. n) t n" for n
    unfolding DoSendQueuedFrames_def whole_call_def Let_def
    by (auto split: option.split intro!: arg_cong [where f = "bind_call _"] simp: fun_eq_iff upd)
qed

lemma whole_call_pcap:
  "Some (DoSendQueuedFrames_pcap Q api n) = whole_call Q (pcap_transmit api) pcap_counted t n"
proof -
  have eq: "Some (bind_res m f) = bind_call (Some m) (\<lambda>x. Some (f x))" for m :: "'x res" and f :: "'x \<Rightarrow> 'y res"
    by (cases m) simp_all
  show ?thesis by (simp add: DoSendQueuedFrames_pcap_def whole_call_def Let_def eq case_prod_unfold split: option.split)
qed

inductive_cases run_moreE: "sender_run Q elems ready transmit counted threads s (a # tr) v"
inductive_cases run_stopE: "sender_run Q elems ready transmit counted threads s [] v"
inductive_cases tookE: "sender_step Q elems ready transmit counted threads s (Took t bs) u"
inductive_cases sentE: "sender_step Q elems ready transmit counted threads s (Sent t bs) u"
inductive_cases returnedE: "sender_step Q elems ready transmit counted threads s (Returned t k) u"

lemma whole_call_forward:
  assumes "t < threads" "sender s t = Idle" "q_try_pop Q (asyncSendData (network s)) = Some (d, q)"
    and "whole_call Q transmit counted t (network s) = Some (Inr (k, n))"
  shows "sender_run Q elems ready transmit counted threads s
    [Took t (bytes_of (network s) d), Sent t (bytes_of (network s) d), Returned t k] (s\<lparr>network := n\<rparr>)"
proof -
  let ?n = "(network s)\<lparr>asyncSendData := q\<rparr>"
  obtain pkt k' m h where steps: "heap_read (dc_data d) (bufs (network s)) = Inr pkt"
    "transmit t pkt (of_nat (dc_length d)) ?n = Some (Inr (k, m))"
    "(if ownerMayFreeData d then heap_delete (dc_data d) (bufs m) else Inr (bufs m)) = Inr h"
    "n = counted (m\<lparr>bufs := h\<rparr>)"
    using assms(3,4)
    by (auto simp: whole_call_def bind_call_def split: sum.splits option.splits prod.splits)
  let ?a = "s\<lparr>network := ?n, sender := (sender s)(t := Dequeued d)\<rparr>"
  let ?b = "?a\<lparr>network := m, sender := (sender ?a)(t := Handed d k)\<rparr>"
  let ?c = "?b\<lparr>network := counted ((network ?b)\<lparr>bufs := h\<rparr>), sender := (sender ?b)(t := Idle)\<rparr>"
  have one: "sender_step Q elems ready transmit counted threads s (Took t (bytes_of (network s) d)) ?a"
    by (rule sender_step.take_frame [OF assms(1-3)])
  have "sender_step Q elems ready transmit counted threads ?a (Sent t (bytes_of (network ?a) d)) ?b"
    using steps(1,2) by (intro sender_step.hand_over [OF assms(1), where pkt = pkt]) simp_all
  then have two: "sender_step Q elems ready transmit counted threads ?a (Sent t (bytes_of (network s) d)) ?b" by simp
  have three: "sender_step Q elems ready transmit counted threads ?b (Returned t k) ?c"
    by (rule sender_step.free_block [OF assms(1), where d = d]) (use steps(3) in \<open>simp_all split: if_splits\<close>)
  have "?c = s\<lparr>network := n\<rparr>" using assms(2) steps(4) by (simp add: fun_upd_idem)
  with one two three show ?thesis by (metis sender_run.more sender_run.stop)
qed

lemma whole_call_backward:
  assumes "sender_run Q elems ready transmit counted threads s [Took t b, Sent t c, Returned t k] (s\<lparr>network := n\<rparr>)"
  shows "whole_call Q transmit counted t (network s) = Some (Inr (k, n))"
  using assms
  by (elim run_moreE run_stopE tookE sentE returnedE)
     (auto simp: whole_call_def bind_call_def split: sum.splits dest!: arg_cong [where f = network])

text \<open>
  C10: \<open>DoSendQueuedFrames\<close> of both back ends is its three steps: when the queue holds a frame, the call returns
  \<open>k\<close> and leaves the network in state \<open>n\<close> exactly if the thread's steps (take the container, hand its bytes
  over, free the block) run from the same state with nothing in between and return \<open>k\<close> in state \<open>n\<close>.
\<close>

theorem DoSendQueuedFrames_is_steps:
  fixes s :: "('q, 'r) PFringHandler sender_system" and s' :: "('q, 'k) PCapHandler sender_system"
  assumes "t < threads" "sender s t = Idle" "q_try_pop Q (asyncSendData (network s)) = Some x"
    and "sender s' t = Idle" "q_try_pop Q (asyncSendData (network s')) = Some x'"
  shows "(DoSendQueuedFrames Q api junk t (network s) = Some (Inr (k, n)) \<longleftrightarrow>
      (\<exists>b. sender_run Q elems ready (pfring_transmit api junk) (\<lambda>n. n) threads s
             [Took t b, Sent t b, Returned t k] (s\<lparr>network := n\<rparr>)))
    \<and> (DoSendQueuedFrames_pcap Q kapi (network s') = Inr (k, n') \<longleftrightarrow>
      (\<exists>b. sender_run Q elems ready' (pcap_transmit kapi) pcap_counted threads s'
             [Took t b, Sent t b, Returned t k] (s'\<lparr>network := n'\<rparr>)))"
proof -
  obtain d q d' q' where x: "x = (d, q)" "x' = (d', q')" by fastforce
  have "DoSendQueuedFrames_pcap Q kapi (network s') = Inr (k, n') \<longleftrightarrow>
    whole_call Q (pcap_transmit kapi) pcap_counted t (network s') = Some (Inr (k, n'))"
    by (simp add: whole_call_pcap [symmetric])
  with whole_call_forward [OF assms(1,2) assms(3) [unfolded x]] whole_call_forward [OF assms(1,4) assms(5) [unfolded x]]
  show ?thesis unfolding whole_call_pfring by (blast intro: whole_call_backward)
qed

lemma taken_threads:
  assumes "sender_run Q elems ready transmit counted threads s tr u"
  shows "\<forall>x \<in> set (taken_frames tr). fst x < threads"
  using assms
proof (induction rule: sender_run.induct)
  case (more s a u tr v)
  from more.hyps(1) have "\<forall>x \<in> set (taken_frames [a]). fst x < threads" by cases simp_all
  with more.IH histories_append(2) [of "[a]" tr] show ?case by auto
qed simp

theorem DoSendQueuedFrames_is_steps_witness:
  "\<exists>n n' b. sender_run list_queue fst (\<lambda>_. True) (pfring_transmit counting_api (\<lambda>_ _. 0)) (\<lambda>n. n) 1
       \<lparr>network = example_state, sender = \<lambda>_. Idle\<rparr> [Took 0 b, Sent 0 b, Returned 0 60]
       \<lparr>network = n, sender = \<lambda>_. Idle\<rparr>
     \<and> DoSendQueuedFrames_pcap list_queue recording_kernel example_pcap = Inr (3, n')"
proof -
  let ?s = "\<lparr>network = example_state, sender = \<lambda>_. Idle\<rparr>" and ?s' = "\<lparr>network = example_pcap, sender = \<lambda>_ :: nat. Idle\<rparr>"
  obtain n where n: "DoSendQueuedFrames list_queue counting_api (\<lambda>_ _. 0) 0 (network ?s) = Some (Inr (60, n))"
  proof -
    have wire: "send_packet counting_api (queueRings example_state ! 0) (on_wire [7, 8, 9] 3) True True (lib example_state)
      = Some (60, 0)"
      by (simp add: example_state_def example_PFring_def send_packet_def on_wire_def)
         (subst send_loop.simps, simp add: counting_api_def)
    let ?d = "\<lparr>dc_data = 1, dc_length = 3, ownerMayFreeData = True\<rparr>" and ?e = "\<lparr>dc_data = 2, dc_length = 1, ownerMayFreeData = False\<rparr>"
    have q: "fst (asyncSendData example_state) = [?d, ?e]" "live (bufs example_state) (dc_data ?d) = Some [7, 8, 9]"
      by (simp_all add: example_state_def)
    have "0 < length (queueRings example_state)" using example_state_safe by simp
    from list_send_queue.DoSendQueuedFrames_head [OF this example_state_safe(1) [unfolded q(1)] q, of counting_api "\<lambda>_ _. 0"]
    show ?thesis using that wire by fastforce
  qed
  obtain n' where n': "DoSendQueuedFrames_pcap list_queue recording_kernel (network ?s') = Inr (3, n')"
    by (simp add: DoSendQueuedFrames_pcap_def SendFrameConcurrently_pcap_def list_queue_def example_pcap_def heap_read_def
        heap_delete_def recording_kernel_def)
  obtain x where x: "q_try_pop list_queue (asyncSendData (network ?s)) = Some x"
    by (simp add: list_queue_def example_state_def)
  obtain x' where x': "q_try_pop list_queue (asyncSendData (network ?s')) = Some x'"
    by (simp add: list_queue_def example_pcap_def)
  have "0 < (1 :: nat)" "sender ?s 0 = Idle" "sender ?s' 0 = Idle" by simp_all
  from DoSendQueuedFrames_is_steps [OF this(1,2) x this(3) x', where api = counting_api and junk = "\<lambda>_ _. 0"
      and k = 60 and n = n and elems = fst and ready = "\<lambda>_. True"] n
  obtain b where "sender_run list_queue fst (\<lambda>_. True) (pfring_transmit counting_api (\<lambda>_ _. 0)) (\<lambda>n. n) 1 ?s
     [Took 0 b, Sent 0 b, Returned 0 60] (?s\<lparr>network := n\<rparr>)" by blast
  with n' show ?thesis by auto
qed

text \<open>
  C8: Any number of packet handler threads may send at the same time, interleaved with each other and with
  threads that enqueue: none ever touches a block that is not allocated or frees one twice; frames leave the
  queue in the order in which they were enqueued, each once and with the bytes it was enqueued with; every
  thread hands over all it takes, in its order, but for the one it is working on. A single thread therefore
  sends everything in order.
\<close>

theorem senders_deliver:
  assumes "transmitter Q elems cap transmit counted ready threads"
    and "\<forall>t. sender s t = Idle" "queue_safe (elems (asyncSendData (network s))) (bufs (network s))" "ready (network s)"
    and "sender_run Q elems ready transmit counted threads s tr u"
  shows "(\<forall>t e. Crash t e \<notin> set tr)
    \<and> queue_safe (elems (asyncSendData (network u)) @ in_flight threads (sender u)) (bufs (network u))
    \<and> map (bytes_of (network s)) (elems (asyncSendData (network s))) @ enqueued_frames tr
        = map snd (taken_frames tr) @ map (bytes_of (network u)) (elems (asyncSendData (network u)))
    \<and> (\<forall>t. taken_by t tr = sent_by t tr @ to_hand (network u) (sender u t))
    \<and> (threads = 1 \<longrightarrow> map snd (taken_frames tr) = sent_by 0 tr @ to_hand (network u) (sender u 0))"
proof -
  have "in_flight threads (sender s) = []" using assms(2) by (simp add: in_flight_def)
  then have "sender_inv elems ready threads s" using assms(2-4) by (simp add: sender_inv_def)
  from transmitter.inv_run [OF assms(1,5) this] have
    r: "sender_inv elems ready threads u" "accounted elems s tr u" "\<forall>t e. Crash t e \<notin> set tr" by blast+
  have each: "\<forall>t. taken_by t tr = sent_by t tr @ to_hand (network u) (sender u t)"
    using r(2) assms(2) by (simp add: accounted_def)
  have "filter (\<lambda>x. fst x = 0) (taken_frames tr) = taken_frames tr" if "threads = 1"
    using taken_threads [OF assms(5)] that by (intro filter_True) auto
  then have "map snd (taken_frames tr) = taken_by 0 tr" if "threads = 1" using that by (simp add: taken_by_def)
  with each r show ?thesis by (auto simp: sender_inv_def accounted_def)
qed

definition two_senders :: "(DataContainer list \<times> nat option, byte list list \<times> string list) PCapHandler sender_system" where
  "two_senders = \<lparr>network = example_pcap, sender = \<lambda>_. Idle\<rparr>"

lemma senders_overtake:
  "\<exists>u. sender_run list_queue fst (\<lambda>_. True) (pcap_transmit recording_kernel) pcap_counted 2 two_senders
     [Took 0 [7, 8, 9], Took 1 [5], Sent 1 [5], Sent 0 [7, 8, 9]] u \<and> kernel (network u) = ([[5], [7, 8, 9]], [])"
proof -
  let ?step = "sender_step list_queue fst (\<lambda>_. True) (pcap_transmit recording_kernel) pcap_counted 2"
  let ?d = "\<lparr>dc_data = 1, dc_length = 3, ownerMayFreeData = True\<rparr>" and ?e = "\<lparr>dc_data = 2, dc_length = 1, ownerMayFreeData = False\<rparr>"
  let ?a = "two_senders\<lparr>network := (network two_senders)\<lparr>asyncSendData := ([?e], None)\<rparr>, sender := (sender two_senders)(0 := Dequeued ?d)\<rparr>"
  let ?b = "?a\<lparr>network := (network ?a)\<lparr>asyncSendData := ([], None)\<rparr>, sender := (sender ?a)(1 := Dequeued ?e)\<rparr>"
  let ?c = "?b\<lparr>network := (network ?b)\<lparr>framesSent := 1, kernel := ([[5]], [])\<rparr>, sender := (sender ?b)(1 := Handed ?e 1)\<rparr>"
  let ?f = "?c\<lparr>network := (network ?c)\<lparr>framesSent := 2, kernel := ([[5], [7, 8, 9]], [])\<rparr>, sender := (sender ?c)(0 := Handed ?d 3)\<rparr>"
  have bytes: "bytes_of (network two_senders) ?d = [7, 8, 9]" "bytes_of (network ?a) ?e = [5]"
    "bytes_of (network ?b) ?e = [5]" "bytes_of (network ?c) ?d = [7, 8, 9]"
    by (simp_all add: bytes_of_def two_senders_def example_pcap_def)
  have "?step two_senders (Took 0 (bytes_of (network two_senders) ?d)) ?a"
    by (rule sender_step.take_frame) (simp_all add: two_senders_def example_pcap_def list_queue_def)
  note s1 = this [unfolded bytes]
  have "?step ?a (Took 1 (bytes_of (network ?a) ?e)) ?b"
    by (rule sender_step.take_frame) (simp_all add: two_senders_def list_queue_def)
  note s2 = this [unfolded bytes]
  have "?step ?b (Sent 1 (bytes_of (network ?b) ?e)) ?c"
    by (rule sender_step.hand_over [where pkt = "[5]"])
       (simp_all add: two_senders_def example_pcap_def heap_read_def SendFrameConcurrently_pcap_def recording_kernel_def)
  note s3 = this [unfolded bytes]
  have "?step ?c (Sent 0 (bytes_of (network ?c) ?d)) ?f"
    by (rule sender_step.hand_over [where pkt = "[7, 8, 9]"])
       (simp_all add: two_senders_def example_pcap_def heap_read_def SendFrameConcurrently_pcap_def recording_kernel_def)
  note s4 = this [unfolded bytes]
  have "sender_run list_queue fst (\<lambda>_. True) (pcap_transmit recording_kernel) pcap_counted 2 two_senders
     [Took 0 [7, 8, 9], Took 1 [5], Sent 1 [5], Sent 0 [7, 8, 9]] ?f"
    by (rule sender_run.more [OF s1 sender_run.more [OF s2 sender_run.more [OF s3 sender_run.more [OF s4 sender_run.stop]]]])
  then show ?thesis by (intro exI [of _ ?f]) simp
qed

theorem senders_deliver_witness:
  "\<exists>tr u. sender_run list_queue fst (\<lambda>_. True) (pcap_transmit recording_kernel) pcap_counted 2 two_senders tr u
     \<and> kernel (network u) = ([[5], [7, 8, 9]], []) \<and> map snd (taken_frames tr) = [[7, 8, 9], [5]]
     \<and> fst (asyncSendData (network u)) = []"
proof -
  obtain u where u: "sender_run list_queue fst (\<lambda>_. True) (pcap_transmit recording_kernel) pcap_counted 2 two_senders
     [Took 0 [7, 8, 9], Took 1 [5], Sent 1 [5], Sent 0 [7, 8, 9]] u" "kernel (network u) = ([[5], [7, 8, 9]], [])"
    using senders_overtake by blast
  have start: "\<forall>t. sender two_senders t = Idle" "queue_safe (fst (asyncSendData (network two_senders))) (bufs (network two_senders))"
    using example_pcap_safe by (simp_all add: two_senders_def)
  have "map (bytes_of (network two_senders)) (fst (asyncSendData (network two_senders))) = [[7, 8, 9], [5]]"
    by (simp add: two_senders_def example_pcap_def bytes_of_def)
  with senders_deliver [OF pcap_threads.transmitter_axioms start TrueI u(1)] u show ?thesis by fastforce
qed

end
