(* ===== verification/ArpThreads.thy ===== *)
theory ArpThreads
  imports SenderThreads
begin

text \<open>
  The ARP threads of both back ends, \<open>NetworkHandler::thread()\<close>, as one of the threads that enqueue frames:
  what a step of theirs may do to memory and queue, whatever the other threads do between two steps.
\<close>

section \<open>The threads\<close>

text \<open>
  The state of a thread is its local variable \<open>arp\<close>. On pf_ring it is set before the loop; on the packet
  socket it is local to an iteration, so that nothing is kept.
\<close>

definition announce_pfring ::
  "(DataContainer, 'q) tbb_queue \<Rightarrow> (nat \<Rightarrow> nat \<Rightarrow> byte) \<Rightarrow> DataContainer option \<Rightarrow> ('q, 'r) PFringHandler
     \<Rightarrow> (DataContainer option \<times> ('q, 'r) PFringHandler) res option" where
  "announce_pfring Q junk a n = (case a of
       None \<Rightarrow> bind_call (Some (arp_thread_start junk n)) (\<lambda>(container, n). Some (Inr (Some container, n)))
     | Some container \<Rightarrow> bind_call (arp_thread_iteration Q container n) (\<lambda>n. Some (Inr (a, n))))"

definition announce_pcap ::
  "(DataContainer, 'q) tbb_queue \<Rightarrow> (nat \<Rightarrow> nat \<Rightarrow> byte) \<Rightarrow> DataContainer option \<Rightarrow> ('q, 'k) PCapHandler
     \<Rightarrow> (DataContainer option \<times> ('q, 'k) PCapHandler) res option" where
  "announce_pcap Q junk a n = bind_call (arp_iteration_pcap Q junk n) (\<lambda>n. Some (Inr (a, n)))"

text \<open>The frame both send.\<close>

definition arp_announcement :: "byte list \<Rightarrow> u32 \<Rightarrow> byte list" where
  "arp_announcement mac addr = pack_ARP_HDR
     \<lparr>arp_eth = \<lparr>ether_dhost = replicate 6 0, ether_shost = mac, ether_type = htons 0x0806\<rparr>,
      arp = \<lparr>ar_hrd = htons 1, ar_pro = htons 0x0800, ar_hln = 6, ar_pln = 4, ar_op = htons 1\<rparr>,
      sourceHardwAddr = mac, sourceIPAddr = addr, targetHardwAddr = replicate 6 0, targetIPAddr = addr\<rparr>"

lemma length_arp_announcement: "length mac = 6 \<Longrightarrow> length (arp_announcement mac addr) = 42"
  unfolding arp_announcement_def
  by (rule arp_hdr.length_pack) (simp add: valid_ARP_HDR_def valid_ether_header_def)

lemma GenerateGratuitousARPv4_frame:
  assumes "heap_ok h" and "length mac = 6"
  obtains rest where "GenerateGratuitousARPv4 junk mac addr h =
      Inr (\<lparr>dc_data = fresh h, dc_length = 42, ownerMayFreeData = True\<rparr>,
        h\<lparr>fresh := Suc (fresh h), live := (live h)(fresh h \<mapsto> arp_announcement mac addr @ rest)\<rparr>)"
    "length rest = 22"
proof -
  have "length (replicate 6 0 :: byte list) = 6" by simp
  then show ?thesis
    by (rule GenerateARPv4_ok [OF assms, of "replicate 6 0" junk addr addr 1])
       (rule that, simp_all add: GenerateGratuitousARPv4_def arp_announcement_def)
qed

section \<open>The contract\<close>

text \<open>
  A step either keeps a new frame for later or enqueues one, its own or a new one; nobody may free it, and
  no other block changes. \<open>hello\<close> is the frame.
\<close>

definition announced_by ::
  "(DataContainer, 'q) tbb_queue \<Rightarrow> byte list \<Rightarrow> DataContainer option \<Rightarrow> ('q, 'm) NetworkHandler_scheme
     \<Rightarrow> (DataContainer option \<times> ('q, 'm) NetworkHandler_scheme) res \<Rightarrow> bool" where
  "announced_by Q hello a n r \<longleftrightarrow> (\<exists>h d. heap_ok h \<and> live (bufs n) \<subseteq>\<^sub>m live h \<and> \<not> ownerMayFreeData d
     \<and> container_ok h d \<and> bytes_of (n\<lparr>bufs := h\<rparr>) d = hello \<and> (a = Some d \<or> live (bufs n) (dc_data d) = None)
     \<and> (a = None \<and> r = Inr (Some d, n\<lparr>bufs := h\<rparr>)
        \<or> (\<exists>n'. AsyncSendFrame Q d (n\<lparr>bufs := h\<rparr>) = Some n' \<and> r = Inr (a, n'))))"

locale announcer =
  fixes Q :: "(DataContainer, 'q) tbb_queue"
    and announce :: "DataContainer option \<Rightarrow> ('q, 'm) NetworkHandler_scheme
      \<Rightarrow> (DataContainer option \<times> ('q, 'm) NetworkHandler_scheme) res option"
    and ready :: "('q, 'm) NetworkHandler_scheme \<Rightarrow> bool" and hello :: "byte list"
  assumes announce_law: "ready n \<Longrightarrow> heap_ok (bufs n) \<Longrightarrow>
      \<forall>c. a = Some c \<longrightarrow> container_ok (bufs n) c \<and> \<not> ownerMayFreeData c \<and> bytes_of n c = hello \<Longrightarrow>
      announce a n = Some r \<Longrightarrow> announced_by Q hello a n r"

lemma arp_block:
  assumes "heap_ok (bufs n)" and "length mac = 6" and "GenerateGratuitousARPv4 junk mac addr (bufs n) = r"
  obtains h d where "r = Inr (d, h)" "heap_ok h" "live (bufs n) \<subseteq>\<^sub>m live h" "live (bufs n) (dc_data d) = None"
    "container_ok h (d\<lparr>ownerMayFreeData := False\<rparr>)"
    "bytes_of (n\<lparr>bufs := h\<rparr>) (d\<lparr>ownerMayFreeData := False\<rparr>) = arp_announcement mac addr"
proof -
  obtain rest where gen: "GenerateGratuitousARPv4 junk mac addr (bufs n) =
      Inr (\<lparr>dc_data = fresh (bufs n), dc_length = 42, ownerMayFreeData = True\<rparr>,
        (bufs n)\<lparr>fresh := Suc (fresh (bufs n)), live := (live (bufs n))(fresh (bufs n) \<mapsto> arp_announcement mac addr @ rest)\<rparr>)"
    "length rest = 22" by (rule GenerateGratuitousARPv4_frame [OF assms(1,2)])
  have none: "live (bufs n) (fresh (bufs n)) = None" using assms(1) by (auto simp: heap_ok_def dom_def)
  note len = length_arp_announcement [OF assms(2), of addr]
  show ?thesis
  proof (rule that)
    show "r = Inr (\<lparr>dc_data = fresh (bufs n), dc_length = 42, ownerMayFreeData = True\<rparr>,
        (bufs n)\<lparr>fresh := Suc (fresh (bufs n)), live := (live (bufs n))(fresh (bufs n) \<mapsto> arp_announcement mac addr @ rest)\<rparr>)"
      using gen(1) assms(3) by simp
  qed (use none len gen(2) assms(1) in \<open>auto simp: heap_ok_def map_le_def container_ok_def bytes_of_def less_Suc_eq\<close>)
qed

text \<open>What the threads need of the two back ends: a ring for each packet handler thread, and the addresses.\<close>

abbreviation pfring_ready :: "nat \<Rightarrow> byte list \<Rightarrow> u32 \<Rightarrow> ('q, 'r) PFringHandler \<Rightarrow> bool" where
  "pfring_ready threads mac addr \<equiv>
     \<lambda>n. threads \<le> length (queueRings n) \<and> GetMyMac n = mac \<and> GetMyIP n = addr \<and> length mac = 6"

abbreviation pcap_ready :: "byte list \<Rightarrow> u32 \<Rightarrow> ('q, 'k) PCapHandler \<Rightarrow> bool" where
  "pcap_ready mac addr \<equiv> \<lambda>n. GetMyMac n = mac \<and> GetMyIP n = addr \<and> length mac = 6"

lemma announcer_pfring:
  "announcer Q (announce_pfring Q junk) (pfring_ready threads mac addr :: ('q, 'r) PFringHandler \<Rightarrow> bool)
    (arp_announcement mac addr)"
proof
  fix a r and n :: "('q, 'r) PFringHandler"
  assume n: "threads \<le> length (queueRings n) \<and> GetMyMac n = mac \<and> GetMyIP n = addr \<and> length mac = 6" and ok: "heap_ok (bufs n)"
    and held: "\<forall>c. a = Some c \<longrightarrow> container_ok (bufs n) c \<and> \<not> ownerMayFreeData c \<and> bytes_of n c = arp_announcement mac addr"
    and r: "announce_pfring Q junk a n = Some r"
  show "announced_by Q (arp_announcement mac addr) a n r"
  proof (cases a)
    case None
    obtain h d where g: "GenerateGratuitousARPv4 junk mac addr (bufs n) = Inr (d, h)" and
      st: "heap_ok h" "live (bufs n) \<subseteq>\<^sub>m live h" "live (bufs n) (dc_data d) = None"
      "container_ok h (d\<lparr>ownerMayFreeData := False\<rparr>)"
      "bytes_of (n\<lparr>bufs := h\<rparr>) (d\<lparr>ownerMayFreeData := False\<rparr>) = arp_announcement mac addr"
      using arp_block [OF ok _ refl, of mac junk addr] n by metis
    have "r = Inr (Some (d\<lparr>ownerMayFreeData := False\<rparr>), n\<lparr>bufs := h\<rparr>)"
      using r None g n by (simp add: announce_pfring_def arp_thread_start_def)
    with st None show ?thesis
      unfolding announced_by_def by (intro exI [of _ h] exI [of _ "d\<lparr>ownerMayFreeData := False\<rparr>"]) simp
  next
    case (Some c)
    with held have c: "container_ok (bufs n) c" "\<not> ownerMayFreeData c" "bytes_of n c = arp_announcement mac addr" by auto
    then obtain block where b: "live (bufs n) (dc_data c) = Some block" "dc_length c \<le> length block"
      by (auto simp: container_ok_def split: option.splits)
    have "dc_length c = 42" using c(3) b length_arp_announcement [of mac addr] n by (simp add: bytes_of_def) (metis length_take min.absorb2)
    with r Some b heap_read_live [OF ok b(1)] obtain n' where "AsyncSendFrame Q c n = Some n'" "r = Inr (a, n')"
      by (auto simp: announce_pfring_def arp_thread_iteration_def bind_call_def split: option.splits sum.splits)
    with c ok Some show ?thesis
      unfolding announced_by_def by (intro exI [of _ "bufs n"] exI [of _ c]) simp
  qed
qed

lemma announcer_pcap:
  "announcer Q (announce_pcap Q junk) (pcap_ready mac addr :: ('q, 'k) PCapHandler \<Rightarrow> bool) (arp_announcement mac addr)"
proof
  fix a r and n :: "('q, 'k) PCapHandler"
  assume n: "GetMyMac n = mac \<and> GetMyIP n = addr \<and> length mac = 6" and ok: "heap_ok (bufs n)"
    and r: "announce_pcap Q junk a n = Some r"
  obtain h d where g: "GenerateGratuitousARPv4 junk mac addr (bufs n) = Inr (d, h)" and
    st: "heap_ok h" "live (bufs n) \<subseteq>\<^sub>m live h" "live (bufs n) (dc_data d) = None"
    "container_ok h (d\<lparr>ownerMayFreeData := False\<rparr>)"
    "bytes_of (n\<lparr>bufs := h\<rparr>) (d\<lparr>ownerMayFreeData := False\<rparr>) = arp_announcement mac addr"
    using arp_block [OF ok _ refl, of mac junk addr] n by metis
  obtain n' where "AsyncSendFrame Q (d\<lparr>ownerMayFreeData := False\<rparr>) (n\<lparr>bufs := h\<rparr>) = Some n'" "r = Inr (a, n')"
    using r g n by (auto simp: announce_pcap_def arp_iteration_pcap_def AsyncSendFrame_pcap_eq bind_call_def split: option.splits)
  with st show "announced_by Q (arp_announcement mac addr) a n r"
    unfolding announced_by_def by (intro exI [of _ h] exI [of _ "d\<lparr>ownerMayFreeData := False\<rparr>"]) simp
qed

interpretation pfring_announcer: announcer list_queue "announce_pfring list_queue junk"
    "pfring_ready threads mac addr" "arp_announcement mac addr"
  for junk threads mac addr
  by (rule announcer_pfring)

interpretation pcap_announcer: announcer list_queue "announce_pcap list_queue junk"
    "pcap_ready mac addr" "arp_announcement mac addr"
  for junk mac addr
  by (rule announcer_pcap)

end
