(* ===== verification/FarmThreads.thy ===== *)
theory FarmThreads
  imports L1Refinement ArpThreads
begin

text \<open>
  The threads of the library together: the distribution thread, the packet handler threads and the ARP
  thread run interleaved on one send queue and one memory. Shown here is what they keep for each other,
  and which frames have been enqueued, taken and sent at any moment.
\<close>

section \<open>The composed machine\<close>

record ('tq, 'n) farm =
  distribution :: "('tq, 'n) L1_system"
  packet_handler :: "nat \<Rightarrow> sender_pc"
  arp_frame :: "DataContainer option"

datatype farm_label =
    Distribution l1_label
  | PacketHandler sender_label
  | Announced "byte list list"
  | ArpFault fault

text \<open>The steps a packet handler thread makes itself.\<close>

fun own_step :: "sender_label \<Rightarrow> bool" where
  "own_step Other = False"
| "own_step (Enqueued bs) = False"
| "own_step _ = True"

abbreviation network_of :: "('tq, 'n) farm \<Rightarrow> 'n" where
  "network_of s \<equiv> net (handler (distribution s))"

abbreviation senders_of :: "('tq, 'n) farm \<Rightarrow> 'n sender_system" where
  "senders_of s \<equiv> \<lparr>network = network_of s, sender = packet_handler s\<rparr>"

text \<open>
  The distribution steps without an uninterrupted sender of their own; a step of the ARP thread is labelled
  with the frames it enqueues.
\<close>

inductive farm_step ::
  "(nat, 'tq) tbb_queue \<Rightarrow> (DataContainer, 'q) tbb_queue \<Rightarrow> checksum_api \<Rightarrow> (nat \<Rightarrow> nat \<Rightarrow> byte)
     \<Rightarrow> ('q \<Rightarrow> DataContainer list) \<Rightarrow> (('q, 'm) NetworkHandler_scheme \<Rightarrow> bool)
     \<Rightarrow> (nat \<Rightarrow> byte list \<Rightarrow> u32 \<Rightarrow> ('q, 'm) NetworkHandler_scheme \<Rightarrow> (int \<times> ('q, 'm) NetworkHandler_scheme) res option)
     \<Rightarrow> (('q, 'm) NetworkHandler_scheme \<Rightarrow> ('q, 'm) NetworkHandler_scheme)
     \<Rightarrow> (DataContainer option \<Rightarrow> ('q, 'm) NetworkHandler_scheme
          \<Rightarrow> (DataContainer option \<times> ('q, 'm) NetworkHandler_scheme) res option) \<Rightarrow> nat
     \<Rightarrow> ('tq, ('q, 'm) NetworkHandler_scheme) farm \<Rightarrow> farm_label \<Rightarrow> ('tq, ('q, 'm) NetworkHandler_scheme) farm \<Rightarrow> bool"
  for T Q cs junk elems ready transmit counted announce threads where
  distribute: "l1_step T Q cs junk (\<lambda>_. None) (distribution s) a l \<Longrightarrow>
    farm_step T Q cs junk elems ready transmit counted announce threads s (Distribution a) (s\<lparr>distribution := l\<rparr>)"
| handle: "sender_step Q elems ready transmit counted threads (senders_of s) b v \<Longrightarrow> own_step b \<Longrightarrow>
    farm_step T Q cs junk elems ready transmit counted announce threads s (PacketHandler b)
      (s\<lparr>distribution := (distribution s)\<lparr>handler := (handler (distribution s))\<lparr>net := network v\<rparr>\<rparr>,
         packet_handler := sender v\<rparr>)"
| announce: "announce (arp_frame s) (network_of s) = Some (Inr (a, n)) \<Longrightarrow>
    farm_step T Q cs junk elems ready transmit counted announce threads s
      (Announced (map (bytes_of n) (drop (length (elems (asyncSendData (network_of s)))) (elems (asyncSendData n)))))
      (s\<lparr>distribution := (distribution s)\<lparr>handler := (handler (distribution s))\<lparr>net := n\<rparr>\<rparr>, arp_frame := a\<rparr>)"
| announce_fault: "announce (arp_frame s) (network_of s) = Some (Inl e) \<Longrightarrow>
    farm_step T Q cs junk elems ready transmit counted announce threads s (ArpFault e) s"

inductive farm_run ::
  "(nat, 'tq) tbb_queue \<Rightarrow> (DataContainer, 'q) tbb_queue \<Rightarrow> checksum_api \<Rightarrow> (nat \<Rightarrow> nat \<Rightarrow> byte)
     \<Rightarrow> ('q \<Rightarrow> DataContainer list) \<Rightarrow> (('q, 'm) NetworkHandler_scheme \<Rightarrow> bool)
     \<Rightarrow> (nat \<Rightarrow> byte list \<Rightarrow> u32 \<Rightarrow> ('q, 'm) NetworkHandler_scheme \<Rightarrow> (int \<times> ('q, 'm) NetworkHandler_scheme) res option)
     \<Rightarrow> (('q, 'm) NetworkHandler_scheme \<Rightarrow> ('q, 'm) NetworkHandler_scheme)
     \<Rightarrow> (DataContainer option \<Rightarrow> ('q, 'm) NetworkHandler_scheme
          \<Rightarrow> (DataContainer option \<times> ('q, 'm) NetworkHandler_scheme) res option) \<Rightarrow> nat
     \<Rightarrow> ('tq, ('q, 'm) NetworkHandler_scheme) farm \<Rightarrow> farm_label list
     \<Rightarrow> ('tq, ('q, 'm) NetworkHandler_scheme) farm \<Rightarrow> bool"
  for T Q cs junk elems ready transmit counted announce threads where
  stop: "farm_run T Q cs junk elems ready transmit counted announce threads s [] s"
| more: "farm_step T Q cs junk elems ready transmit counted announce threads s a u \<Longrightarrow>
    farm_run T Q cs junk elems ready transmit counted announce threads u tr v \<Longrightarrow>
    farm_run T Q cs junk elems ready transmit counted announce threads s (a # tr) v"

fun distributed :: "farm_label list \<Rightarrow> l1_label list" where
  "distributed [] = []"
| "distributed (Distribution a # tr) = a # distributed tr"
| "distributed (_ # tr) = distributed tr"

fun handled :: "farm_label list \<Rightarrow> sender_label list" where
  "handled [] = []"
| "handled (PacketHandler b # tr) = b # handled tr"
| "handled (_ # tr) = handled tr"

fun announced :: "farm_label list \<Rightarrow> byte list list" where
  "announced [] = []"
| "announced (Announced fs # tr) = fs @ announced tr"
| "announced (_ # tr) = announced tr"

section \<open>What is due\<close>

text \<open>One frame for each packet and destination, packet by packet.\<close>

definition due :: "MRP_FRAME_HDR list \<Rightarrow> TRIGGER_RAW_HDR list list \<Rightarrow> (MRP_FRAME_HDR \<times> TRIGGER_RAW_HDR list) list" where
  "due hdrs ps = concat (map (\<lambda>p. map (\<lambda>hdr. (hdr, p)) hdrs) ps)"

text \<open>Those of them that have been enqueued: all but the destinations the thread has still to serve.\<close>

fun handed_out :: "MRP_FRAME_HDR list \<Rightarrow> l1_pc \<Rightarrow> TRIGGER_RAW_HDR list list \<Rightarrow> (MRP_FRAME_HDR \<times> TRIGGER_RAW_HDR list) list" where
  "handed_out hdrs (Sending b k offset buff rest) ps =
     due hdrs (butlast ps) @ map (\<lambda>hdr. (hdr, last ps)) (take (length hdrs - length rest) hdrs)"
| "handed_out hdrs _ ps = due hdrs ps"

definition carries :: "checksum_api \<Rightarrow> MRP_FRAME_HDR \<times> TRIGGER_RAW_HDR list \<Rightarrow> byte list \<Rightarrow> bool" where
  "carries cs x frame \<longleftrightarrow> mrp_frame_ok cs (fst x) (concat (map pack_TRIGGER_RAW_HDR (snd x))) frame"

abbreviation request_hdrs :: "('tq, 'n) L1_system \<Rightarrow> MRP_FRAME_HDR list" where
  "request_hdrs s \<equiv> L1_UnicastRequestHdrs (handler s) @ L1_MulticastRequestHdrs (handler s)"

text \<open>The destinations still to be served are the last ones.\<close>

fun rest_of :: "MRP_FRAME_HDR list \<Rightarrow> l1_pc \<Rightarrow> bool" where
  "rest_of hdrs (Sending b k offset buff rest) \<longleftrightarrow> (\<exists>pre. hdrs = pre @ rest)"
| "rest_of hdrs _ \<longleftrightarrow> True"

lemma due_snoc: "due hdrs (ps @ [p]) = due hdrs ps @ map (\<lambda>hdr. (hdr, p)) hdrs"
  by (simp add: due_def)

lemma due_butlast: "ps \<noteq> [] \<Longrightarrow> due hdrs (butlast ps) @ map (\<lambda>hdr. (hdr, last ps)) hdrs = due hdrs ps"
  using due_snoc [of hdrs "butlast ps" "last ps"] by simp

section \<open>The invariant of the composition\<close>

text \<open>The frames the other threads work with: the one the ARP thread keeps, and those in flight.\<close>

definition known :: "nat \<Rightarrow> DataContainer option \<Rightarrow> (nat \<Rightarrow> sender_pc) \<Rightarrow> DataContainer list" where
  "known threads a f = (case a of None \<Rightarrow> [] | Some c \<Rightarrow> [c]) @ in_flight threads f"

lemma set_known: "set (known threads a f) = set_option a \<union> set (in_flight threads f)"
  by (auto simp: known_def split: option.splits)

locale delivery = transmitter Q elems capacity transmit counted ready threads + inet_checksum cs
  + triggers: tbb_fifo T telems tcap + announcer Q announce ready hello
  for Q :: "(DataContainer, 'q) tbb_queue" and elems capacity
    and transmit :: "nat \<Rightarrow> byte list \<Rightarrow> u32 \<Rightarrow> ('q, 'm) NetworkHandler_scheme
      \<Rightarrow> (int \<times> ('q, 'm) NetworkHandler_scheme) res option"
    and counted ready threads cs and T :: "(nat, 'tq) tbb_queue" and telems tcap and announce hello
begin

text \<open>The frames known stand before those in the queue, at whose end the distribution thread appends.\<close>

sublocale client: l1_client cs T telems tcap Q "\<lambda>q. known threads a f @ elems q" ready for a f
proof unfold_locales
  show "(\<exists>q. n' = n\<lparr>asyncSendData := q\<rparr> \<and> known threads a f @ elems q = (known threads a f @ elems (asyncSendData n)) @ [d])
      \<and> ready n' = ready n"
    if "AsyncSendFrame Q d n = Some n'" for d and n n' :: "('q, 'm) NetworkHandler_scheme"
    using AsyncSendFrame_appends [OF that] by (auto simp: ready_upd)
qed (simp add: ready_upd)

end

definition farm_inv ::
  "('q \<Rightarrow> DataContainer list) \<Rightarrow> ('tq \<Rightarrow> nat list) \<Rightarrow> (('q, 'm) NetworkHandler_scheme \<Rightarrow> bool) \<Rightarrow> nat \<Rightarrow> byte list
     \<Rightarrow> ('tq, ('q, 'm) NetworkHandler_scheme) farm \<Rightarrow> bool" where
  "farm_inv elems telems ready threads hello s \<longleftrightarrow>
     l1_inv (\<lambda>q. known threads (arp_frame s) (packet_handler s) @ elems q) telems ready (distribution s)
     \<and> (\<forall>t e. packet_handler s t \<noteq> Broken e) \<and> (\<forall>t. threads \<le> t \<longrightarrow> packet_handler s t = Idle)
     \<and> (\<forall>c. arp_frame s = Some c \<longrightarrow> \<not> ownerMayFreeData c \<and> bytes_of (network_of s) c = hello)"

lemma owned_apart_swap: "owned_apart (xs @ ys) \<longleftrightarrow> owned_apart (ys @ xs)"
  unfolding owned_apart_append by metis

lemma queue_safe_swap: "queue_safe (xs @ ys) h \<longleftrightarrow> queue_safe (ys @ xs) h"
  unfolding queue_safe_def owned_apart_swap [of xs ys] by auto

lemma set_in_flight: "set (in_flight threads f) = (\<Union>t<threads. set (held (f t)))"
  by (auto simp: in_flight_def)

lemma queue_safe_append:
  "queue_safe (xs @ ys) h \<longleftrightarrow> queue_safe xs h \<and> queue_safe ys h
     \<and> (\<forall>d \<in> set xs. \<forall>e \<in> set ys. (ownerMayFreeData d \<or> ownerMayFreeData e) \<longrightarrow> dc_data e \<noteq> dc_data d)"
  by (auto simp: queue_safe_def owned_apart_append)

lemma queue_safe_known:
  "queue_safe (known threads a f @ ds) h \<longleftrightarrow> queue_safe (ds @ in_flight threads f) h
     \<and> (\<forall>c. a = Some c \<longrightarrow> container_ok h c \<and> (\<forall>e \<in> set (ds @ in_flight threads f).
          (ownerMayFreeData c \<or> ownerMayFreeData e) \<longrightarrow> dc_data e \<noteq> dc_data c))"
  using queue_safe_swap [of ds "in_flight threads f" h]
  by (cases a) (auto simp: known_def queue_safe_append [of "[_]"] queue_safe_def list_all_iff)

lemma farm_inv_senders: "farm_inv elems telems ready threads hello s \<Longrightarrow> sender_inv elems ready threads (senders_of s)"
  by (simp add: farm_inv_def sender_inv_def l1_inv_def Let_def queue_safe_known)

lemma queue_safe_live: "queue_safe ds h \<Longrightarrow> d \<in> set ds \<Longrightarrow> live h (dc_data d) \<noteq> None"
  by (auto simp: queue_safe_def list_all_iff container_ok_def split: option.splits)

lemma queue_safe_kept:
  assumes "queue_safe ds h" "live h \<subseteq>\<^sub>m m" "d \<in> set ds"
  shows "m (dc_data d) = live h (dc_data d)"
proof -
  have "dc_data d \<in> dom (live h)" using queue_safe_live [OF assms(1,3)] by (simp add: domIff)
  with assms(2) show ?thesis by (auto simp: map_le_def)
qed

lemma pc_ok_mono: "pc_ok p reqs m ds h \<Longrightarrow> set ds' \<subseteq> set ds \<Longrightarrow> pc_ok p reqs m ds' h"
  by (cases p) auto

text \<open>A packet handler thread works on the frames in flight and on the head of the queue only.\<close>

context transmitter
begin

lemma own_step_frame:
  assumes "sender_step Q elems ready transmit counted threads s b v" "own_step b" "inv s"
  shows "set (in_flight threads (sender v) @ elems (asyncSendData (network v)))
      \<subseteq> set (in_flight threads (sender s) @ elems (asyncSendData (network s)))
    \<and> (\<forall>p. (\<forall>d \<in> set (in_flight threads (sender s)). ownerMayFreeData d \<longrightarrow> dc_data d \<noteq> p) \<longrightarrow>
        live (bufs (network v)) p = live (bufs (network s)) p)"
  using assms(1)
proof cases
  case (take_frame t d q)
  with try_pop_Some [OF take_frame(5)] show ?thesis by (auto simp: set_in_flight split: if_splits)
next
  case (hand_over t d pkt k n)
  have "d \<in> set (held (sender s t))" using hand_over(4) by simp
  then obtain x where x: "dc_length d \<le> length x" "unat (of_nat (dc_length d) :: u32) = dc_length d"
    "heap_read (dc_data d) (bufs (network s)) = Inr x" "heap_ok (bufs (network s))"
    by (rule inv_container [OF assms(3) hand_over(3)])
  have "ready (network s)" using assms(3) by (simp add: sender_inv_def)
  moreover have "unat (of_nat (dc_length d) :: u32) \<le> length pkt" unfolding x(2) using x(1,3) hand_over(5) by simp
  ultimately have "asyncSendData n = asyncSendData (network s)" "live (bufs n) = live (bufs (network s))"
    using transmit_law [OF hand_over(3) _ x(4) _ hand_over(6)] by auto
  with hand_over show ?thesis by (auto simp: set_in_flight split: if_splits)
next
  case (free_block t d k h)
  have "d \<in> set (in_flight threads (sender s))" using free_block(3,4) by (auto simp: set_in_flight intro!: bexI [of _ t])
  moreover have "live h p = live (bufs (network s)) p" if "ownerMayFreeData d \<longrightarrow> dc_data d \<noteq> p" for p
    using free_block(5) that by (auto simp: heap_delete_def bind_res_Inr_iff split: if_splits)
  moreover have "set (in_flight threads (sender v)) \<subseteq> set (in_flight threads (sender s))"
    using free_block(2) by (auto simp: set_in_flight split: if_splits)
  ultimately show ?thesis using free_block(2) by (auto simp: counted_law)
qed (use assms(2) in \<open>auto simp: set_in_flight split: if_splits\<close>)

end

section \<open>Histories\<close>

lemma requested_append: "requested (xs @ ys) = requested xs @ requested ys"
  by (induction xs rule: requested.induct) simp_all

lemma histories_farm:
  "distributed (xs @ ys) = distributed xs @ distributed ys" "handled (xs @ ys) = handled xs @ handled ys"
  "announced (xs @ ys) = announced xs @ announced ys"
proof (induction xs)
  case (Cons x xs)
  case 1 then show ?case using Cons by (cases x) simp_all
  case 2 then show ?case using Cons by (cases x) simp_all
  case 3 then show ?case using Cons by (cases x) simp_all
qed simp_all

lemma shuffles_append:
  "zs \<in> shuffles xs ys \<Longrightarrow> zs' \<in> shuffles xs' ys' \<Longrightarrow> zs @ zs' \<in> shuffles (xs @ xs') (ys @ ys')"
proof (induction zs arbitrary: xs ys)
  case (Cons z zs)
  consider (left) as where "xs = z # as" "zs \<in> shuffles as ys" | (right) bs where "ys = z # bs" "zs \<in> shuffles xs bs"
    using Cons.prems(1) by (auto simp: Cons_in_shuffles_iff neq_Nil_conv)
  then show ?case
  proof cases
    case left
    from Cons_in_shuffles_leftI [OF Cons.IH [OF left(2) Cons.prems(2)]] left(1) show ?thesis by simp
  next
    case right
    from Cons_in_shuffles_rightI [OF Cons.IH [OF right(2) Cons.prems(2)]] right(1) show ?thesis by simp
  qed
qed simp

section \<open>A step of the distribution thread, seen from the senders\<close>

text \<open>
  To the packet handler threads a step of the distribution thread is nothing, a change of memory outside
  their frames, or a frame that is enqueued: \<open>str\<close> below. The frames enqueued are those that become due.
\<close>

context delivery
begin

abbreviation finv :: "('tq, ('q, 'm) NetworkHandler_scheme) farm \<Rightarrow> bool" where
  "finv \<equiv> farm_inv elems telems ready threads hello"

definition seen_as ::
  "('tq, ('q, 'm) NetworkHandler_scheme) farm \<Rightarrow> ('tq, ('q, 'm) NetworkHandler_scheme) L1_system \<Rightarrow> sender_label list
     \<Rightarrow> (MRP_FRAME_HDR \<times> TRIGGER_RAW_HDR list) list \<Rightarrow> bool" where
  "seen_as s l str xs \<longleftrightarrow>
     sender_run Q elems ready transmit counted threads (senders_of s) str \<lparr>network = net (handler l), sender = packet_handler s\<rparr>
     \<and> taken_frames str = [] \<and> (\<forall>t. sent_by t str = []) \<and> list_all2 (carries cs) xs (enqueued_frames str)
     \<and> (\<forall>c. arp_frame s = Some c \<longrightarrow> live (bufs (net (handler l))) (dc_data c) = live (bufs (network_of s)) (dc_data c))"

lemma seen_nothing: "net (handler l) = network_of s \<Longrightarrow> seen_as s l [] []"
  by (simp add: seen_as_def sender_run.stop)

lemma seen_other:
  assumes "asyncSendData (net (handler l)) = asyncSendData (network_of s)" "ready (net (handler l))"
    "heap_ok (bufs (net (handler l)))"
    and "\<And>d. d \<in> set (known threads (arp_frame s) (packet_handler s) @ elems (asyncSendData (network_of s))) \<Longrightarrow>
      live (bufs (net (handler l))) (dc_data d) = live (bufs (network_of s)) (dc_data d)"
  shows "seen_as s l [Other] []"
proof -
  have "sender_step Q elems ready transmit counted threads (senders_of s) Other ((senders_of s)\<lparr>network := net (handler l)\<rparr>)"
    using assms by (intro sender_step.other) (auto simp: set_known)
  then have "sender_run Q elems ready transmit counted threads (senders_of s) [Other]
      \<lparr>network = net (handler l), sender = packet_handler s\<rparr>"
    by (auto intro: sender_run.intros)
  with assms(4) show ?thesis by (auto simp: seen_as_def set_known)
qed

lemma finv_facts:
  assumes "finv s"
  shows "client.inv (arp_frame s) (packet_handler s) (distribution s)" "ready (network_of s)" "heap_ok (bufs (network_of s))"
    "queue_safe (known threads (arp_frame s) (packet_handler s) @ elems (asyncSendData (network_of s))) (bufs (network_of s))"
  using assms by (simp_all add: farm_inv_def l1_inv_def Let_def queue_safe_def)

lemma seen_build:
  assumes "finv s" "multicastRequests (distribution s) \<noteq> []"
    and "begin_MRP junk (multicastRequests (distribution s)) (handler (distribution s)) = Inr (rest, b, k, offset, buff, h)"
    and "handler l = h"
  shows "seen_as s l [Other] [] \<and> request_hdrs l = request_hdrs (distribution s)"
proof -
  let ?s = "distribution s"
  obtain b' k' buff' hp where m: "begin_MRP junk (multicastRequests ?s) (handler ?s) = Inr ([], b', of_nat k', of_nat (54 + 12 * k'), buff',
      (handler ?s)\<lparr>trigger_heap := (trigger_heap (handler ?s))\<lparr>live :=
          live (trigger_heap (handler ?s)) |` (- set (multicastRequests ?s))\<rparr>,
        net := (net (handler ?s))\<lparr>bufs := hp\<rparr>\<rparr>)"
    "heap_ok hp" "live (bufs (net (handler ?s))) \<subseteq>\<^sub>m live hp"
    by (rule client.inv_build [OF finv_facts(1) [OF assms(1)] assms(2), of junk])
  then have l: "net (handler l) = (network_of s)\<lparr>bufs := hp\<rparr>" "request_hdrs l = request_hdrs ?s"
    using assms(3,4) by auto
  have "seen_as s l [Other] []"
    using l(1) m(2) finv_facts [OF assms(1)] queue_safe_kept [OF finv_facts(4) [OF assms(1)] m(3)]
    by (intro seen_other) (simp_all add: ready_upd)
  with l(2) show ?thesis by simp
qed

lemma seen_finish:
  assumes "finv s" "pc (distribution s) = Sending b k offset buff []"
    and "finish_MRP b k (handler (distribution s)) = Inr h" and "handler l = h"
  shows "seen_as s l [Other] [] \<and> request_hdrs l = request_hdrs (distribution s)"
proof -
  let ?n = "network_of s"
  have p: "\<forall>d \<in> set (known threads (arp_frame s) (packet_handler s) @ elems (asyncSendData ?n)). dc_data d \<noteq> b"
    using finv_facts(1) [OF assms(1)] assms(2) by (simp add: l1_inv_def Let_def)
  have live: "live (bufs ?n) b = Some buff"
    using finv_facts(1) [OF assms(1)] assms(2) by (simp add: l1_inv_def Let_def)
  note del = heap_delete_live [OF finv_facts(3) [OF assms(1)] live]
  have l: "net (handler l) = ?n\<lparr>bufs := (bufs ?n)\<lparr>live := (live (bufs ?n))(b := None)\<rparr>\<rparr>"
    "request_hdrs l = request_hdrs (distribution s)"
    using assms(3,4) del by (auto simp: finish_MRP_def)
  have "seen_as s l [Other] []"
    using l(1) p finv_facts [OF assms(1)] heap_ok_upd(1) [OF finv_facts(3) [OF assms(1)], of b]
    by (intro seen_other) (auto simp: ready_upd)
  with l(2) show ?thesis by simp
qed


lemma seen_send:
  assumes "finv s" "pc (distribution s) = Sending b k offset buff (hdr # hdrs)"
    and "send_frame cs Q junk buff offset k hdr (network_of s) = Some (Inr n)" and "net (handler l) = n"
    and "packet_of (pc (distribution s)) ps"
  shows "\<exists>bs. seen_as s l [Other, Enqueued bs] [(hdr, last ps)]"
proof -
  let ?n = "network_of s" and ?ds = "known threads (arp_frame s) (packet_handler s) @ elems (asyncSendData (network_of s))"
  obtain h d where eq: "send_frame cs Q junk buff offset k hdr ?n = map_option Inr (AsyncSendFrame Q d (?n\<lparr>bufs := h\<rparr>))"
    and safe: "queue_safe (?ds @ [d]) h" and frame: "frame_for cs (drop 54 buff) (live h) hdr d"
      and kept: "live (bufs ?n) \<subseteq>\<^sub>m live h"
    by (rule client.send_enqueues [OF finv_facts(1) [OF assms(1)] assms(2), of junk])
  then have as: "AsyncSendFrame Q d (?n\<lparr>bufs := h\<rparr>) = Some n"
    using assms(3) unfolding eq by (cases "AsyncSendFrame Q d (?n\<lparr>bufs := h\<rparr>)") simp_all
  let ?m = "\<lparr>network = ?n\<lparr>bufs := h\<rparr>, sender = packet_handler s\<rparr>"
  have "sender_step Q elems ready transmit counted threads (senders_of s) Other ((senders_of s)\<lparr>network := ?n\<lparr>bufs := h\<rparr>\<rparr>)"
    using safe finv_facts [OF assms(1)] queue_safe_kept [OF finv_facts(4) [OF assms(1)] kept]
    by (intro sender_step.other) (auto simp: ready_upd queue_safe_def set_known)
  moreover have "sender_step Q elems ready transmit counted threads ?m (Enqueued (bytes_of (network ?m) d)) (?m\<lparr>network := n\<rparr>)"
    using safe as queue_safe_append [of ?ds "[d]" h]
    by (intro sender_step.enqueue) (simp_all add: queue_safe_def set_known, metis Un_iff)
  ultimately have "sender_run Q elems ready transmit counted threads (senders_of s)
      [Other, Enqueued (bytes_of (network ?m) d)] \<lparr>network = net (handler l), sender = packet_handler s\<rparr>"
    using assms(4) by (auto intro!: sender_run.intros)
  moreover obtain x where x: "live h (dc_data d) = Some x" "mrp_frame_ok cs hdr (drop 54 buff) x"
    "dc_length d = 54 + length (drop 54 buff)" using frame by (auto simp: frame_for_def split: option.splits)
  then have "length x = 54 + length (drop 54 buff)" by (simp add: mrp_frame_ok_def Let_def)
  then have "bytes_of (network ?m) d = x" using x(1,3) by (simp add: bytes_of_def)
  then have "carries cs (hdr, last ps) (bytes_of (network ?m) d)"
    using x(2) assms(2,5) by (simp add: carries_def)
  moreover have "bufs n = h" using AsyncSendFrame_appends [OF as] by auto
  then have "\<forall>c. arp_frame s = Some c \<longrightarrow> live (bufs n) (dc_data c) = live (bufs ?n) (dc_data c)"
    using queue_safe_kept [OF finv_facts(4) [OF assms(1)] kept] by (auto simp: set_known)
  ultimately show ?thesis using assms(4) by (intro exI) (simp add: seen_as_def)
qed

text \<open>Every step, with what becomes due by it.\<close>

lemma distribution_step:
  assumes "l1_step T Q cs junk (\<lambda>_. None) (distribution s) a l" "finv s"
    and "implements telems (distribution s) A" and "rest_of (request_hdrs (distribution s)) (pc (distribution s))"
  obtains str xs where "seen_as s l str xs"
    "handed_out (request_hdrs l) (pc l) (packets (batcher_step a A))
       = handed_out (request_hdrs (distribution s)) (pc (distribution s)) (packets A) @ xs"
    "request_hdrs l = request_hdrs (distribution s)" "rest_of (request_hdrs l) (pc l)" "a \<noteq> SenderRuns"
proof -
  let ?s = "distribution s"
  have pk: "packet_of (pc ?s) (packets A)" using assms(3) by (simp add: implements_def)
  have "\<exists>str xs. seen_as s l str xs
      \<and> handed_out (request_hdrs l) (pc l) (packets (batcher_step a A)) = handed_out (request_hdrs ?s) (pc ?s) (packets A) @ xs
      \<and> request_hdrs l = request_hdrs ?s \<and> rest_of (request_hdrs l) (pc l) \<and> a \<noteq> SenderRuns"
    using assms(1)
  proof cases
    case (build rest b k offset buff h)
    have "seen_as s l [Other] [] \<and> request_hdrs l = request_hdrs ?s"
      using build by (intro seen_build [OF assms(2) build(4,5)]) simp
    moreover have "pc l = Sending b k offset buff (request_hdrs l)" using build(2) by simp
    ultimately show ?thesis
      using build(1,3) by (intro exI [of _ "[Other]"] exI [of _ "[]"]) simp
  next
    case (send b k offset buff hdr hdrs n)
    have "\<exists>bs. seen_as s l [Other, Enqueued bs] [(hdr, last (packets A))]"
      using send pk by (intro seen_send [OF assms(2) send(3,4)]) simp_all
    then obtain bs where seen: "seen_as s l [Other, Enqueued bs] [(hdr, last (packets A))]" by blast
    from assms(4) send(3) obtain pre where pre: "request_hdrs ?s = pre @ hdr # hdrs" by auto
    have "handed_out (request_hdrs ?s) (Sending b k offset buff hdrs) (packets A)
        = handed_out (request_hdrs ?s) (pc ?s) (packets A) @ [(hdr, last (packets A))]"
      unfolding pre send(3) by simp
    with seen send pre show ?thesis by (intro exI conjI) (assumption | simp)+
  next
    case (finish b k offset buff h)
    have "seen_as s l [Other] [] \<and> request_hdrs l = request_hdrs ?s"
      using finish by (intro seen_finish [OF assms(2) finish(3,4)]) simp
    with finish pk due_butlast [of "packets A" "request_hdrs ?s"] show ?thesis
      by (intro exI [of _ "[Other]"] exI [of _ "[]"]) simp
  next
    case (send_fault b k offset buff hdr hdrs e)
    with client.inv_send(1) [OF finv_facts(1) [OF assms(2)] send_fault(3)] show ?thesis by simp
  next
    case (finish_fault b k offset buff e)
    with client.inv_finish [OF finv_facts(1) [OF assms(2)] finish_fault(3)] show ?thesis by simp
  qed (use assms(4) in \<open>intro exI [of _ "[]"], simp add: seen_nothing\<close>)+
  then show ?thesis using that by blast
qed


lemma handler_step:
  assumes "sender_step Q elems ready transmit counted threads (senders_of s) b v" "own_step b" "finv s"
  shows "finv (s\<lparr>distribution := (distribution s)\<lparr>handler := (handler (distribution s))\<lparr>net := network v\<rparr>\<rparr>,
      packet_handler := sender v\<rparr>) \<and> (\<forall>t e. b \<noteq> Crash t e)"
proof -
  let ?s = "distribution s" and ?n = "network v" and ?a = "arp_frame s"
  let ?ds = "elems (asyncSendData (network_of s)) @ in_flight threads (packet_handler s)"
  have inv: "inv (senders_of s)" by (rule farm_inv_senders [OF assms(3)])
  note st = inv_step [OF assms(1) inv]
  note frame = own_step_frame [OF assms(1,2) inv]
  have arp: "container_ok (bufs (network_of s)) c \<and> (\<forall>e \<in> set ?ds. ownerMayFreeData e \<longrightarrow> dc_data e \<noteq> dc_data c)
      \<and> \<not> ownerMayFreeData c \<and> bytes_of (network_of s) c = hello" if "?a = Some c" for c
    using that assms(3) by (auto simp: farm_inv_def l1_inv_def Let_def queue_safe_known)
  then have block: "live (bufs ?n) (dc_data c) = live (bufs (network_of s)) (dc_data c)" if "?a = Some c" for c
    using that frame by auto
  have sub: "set (known threads ?a (sender v) @ elems (asyncSendData ?n))
      \<subseteq> set (known threads ?a (packet_handler s) @ elems (asyncSendData (network_of s)))"
    using frame by (auto simp: set_known)
  have "pc_ok (pc ?s) r m (known threads ?a (sender v) @ elems (asyncSendData ?n)) (bufs ?n)"
    if pc: "pc_ok (pc ?s) r m (known threads ?a (packet_handler s) @ elems (asyncSendData (network_of s))) (bufs (network_of s))"
    for r m
  proof (rule pc_ok_heap [OF pc])
    fix b k off buff hdrs assume p: "pc ?s = Sending b k off buff hdrs"
    with pc have "\<forall>d \<in> set (known threads ?a (packet_handler s) @ elems (asyncSendData (network_of s))). dc_data d \<noteq> b" by simp
    with frame sub show "live (bufs ?n) b = live (bufs (network_of s)) b
      \<and> (\<forall>d \<in> set (known threads ?a (sender v) @ elems (asyncSendData ?n)). dc_data d \<noteq> b)" by (auto simp: set_known)
  qed
  moreover have "queue_safe (known threads ?a (sender v) @ elems (asyncSendData ?n)) (bufs ?n)"
    unfolding queue_safe_known
  proof (intro conjI allI impI ballI)
    show "queue_safe (elems (asyncSendData ?n) @ in_flight threads (sender v)) (bufs ?n)"
      using st by (simp add: sender_inv_def)
    fix c assume c: "?a = Some c"
    show "container_ok (bufs ?n) c" using arp [OF c] container_ok_live [OF block [OF c]] by simp
    fix e assume "e \<in> set (elems (asyncSendData ?n) @ in_flight threads (sender v))" "ownerMayFreeData c \<or> ownerMayFreeData e"
    with arp [OF c] frame show "dc_data e \<noteq> dc_data c" by auto
  qed
  moreover have "bytes_of ?n c = hello" if "?a = Some c" for c
    using arp [OF that] block [OF that] by (simp add: bytes_of_def)
  ultimately show ?thesis
    using st assms(3) by (simp add: farm_inv_def sender_inv_def l1_inv_def Let_def)
qed

text \<open>
  A step of the ARP thread: the frame \<open>d\<close> it makes or uses again is apart from what the other threads own and
  from the packet under construction.
\<close>

lemma announce_frame:
  assumes "announce (arp_frame s) (network_of s) = Some r" "finv s"
  defines "ds \<equiv> known threads (arp_frame s) (packet_handler s) @ elems (asyncSendData (network_of s))"
  obtains h d where "\<not> ownerMayFreeData d" "container_ok h d" "bytes_of ((network_of s)\<lparr>bufs := h\<rparr>) d = hello"
    "queue_safe ds h" "\<forall>e \<in> set ds. live h (dc_data e) = live (bufs (network_of s)) (dc_data e)"
    "\<forall>e \<in> set ds. ownerMayFreeData e \<longrightarrow> dc_data e \<noteq> dc_data d"
    "\<forall>x m. pc_ok (pc (distribution s)) x m ds (bufs (network_of s)) \<longrightarrow> pc_ok (pc (distribution s)) x m (ds @ [d]) h"
    "arp_frame s = None \<and> r = Inr (Some d, (network_of s)\<lparr>bufs := h\<rparr>)
      \<or> (\<exists>n'. AsyncSendFrame Q d ((network_of s)\<lparr>bufs := h\<rparr>) = Some n' \<and> r = Inr (arp_frame s, n'))"
proof -
  let ?n = "network_of s" and ?a = "arp_frame s"
  note f = finv_facts [OF assms(2), folded ds_def]
  have held: "\<forall>c. ?a = Some c \<longrightarrow> container_ok (bufs ?n) c \<and> \<not> ownerMayFreeData c \<and> bytes_of ?n c = hello"
    using assms(2) by (auto simp: farm_inv_def l1_inv_def Let_def queue_safe_known)
  from announce_law [OF f(2,3) held assms(1)] obtain h d where
    h: "heap_ok h" "live (bufs ?n) \<subseteq>\<^sub>m live h" and d: "\<not> ownerMayFreeData d" "container_ok h d"
      "bytes_of (?n\<lparr>bufs := h\<rparr>) d = hello" "?a = Some d \<or> live (bufs ?n) (dc_data d) = None"
    and r: "?a = None \<and> r = Inr (Some d, ?n\<lparr>bufs := h\<rparr>)
        \<or> (\<exists>n'. AsyncSendFrame Q d (?n\<lparr>bufs := h\<rparr>) = Some n' \<and> r = Inr (?a, n'))"
    unfolding announced_by_def by blast
  have kept: "\<forall>e \<in> set ds. live h (dc_data e) = live (bufs ?n) (dc_data e)"
    using queue_safe_kept [OF f(4) h(2)] by blast
  have known: "?a = Some d \<Longrightarrow> d \<in> set ds" by (simp add: ds_def set_known)
  have "dc_data e \<noteq> dc_data d" if e: "e \<in> set ds" "ownerMayFreeData e" for e
  proof (cases "?a = Some d")
    case True
    with f(4) e d(1) show ?thesis by (auto simp: ds_def queue_safe_known set_known)
  next
    case False
    with d(4) queue_safe_live [OF f(4) e(1)] show ?thesis by auto
  qed
  moreover have "pc_ok (pc (distribution s)) x m (ds @ [d]) h" if "pc_ok (pc (distribution s)) x m ds (bufs ?n)" for x m
  proof (rule pc_ok_heap [OF that])
    fix b k off buff hdrs assume p: "pc (distribution s) = Sending b k off buff hdrs"
    with that have b: "live (bufs ?n) b = Some buff" "\<forall>e \<in> set ds. dc_data e \<noteq> b" by simp_all
    with h(2) have "live h b = live (bufs ?n) b" by (auto simp: map_le_def dom_def)
    moreover have "dc_data d \<noteq> b" using d(4) b known by auto
    ultimately show "live h b = live (bufs ?n) b \<and> (\<forall>e \<in> set (ds @ [d]). dc_data e \<noteq> b)" using b(2) by auto
  qed
  ultimately show ?thesis
    using d(1-3) queue_safe_blocks [OF f(4) h(1) kept] kept r by (intro that [of d h]) blast+
qed

lemma announce_step:
  assumes "announce (arp_frame s) (network_of s) = Some r" "finv s"
  obtains a n h q fs where "r = Inr (a, n)" "n = (network_of s)\<lparr>bufs := h, asyncSendData := q\<rparr>"
    "finv (s\<lparr>distribution := (distribution s)\<lparr>handler := (handler (distribution s))\<lparr>net := n\<rparr>\<rparr>, arp_frame := a\<rparr>)"
    "map (bytes_of n) (drop (length (elems (asyncSendData (network_of s)))) (elems (asyncSendData n))) = fs"
    "sender_run Q elems ready transmit counted threads (senders_of s) (Other # map Enqueued fs)
       \<lparr>network = n, sender = packet_handler s\<rparr>" "set fs \<subseteq> {hello}"
proof -
  let ?n = "network_of s" and ?s = "distribution s"
  let ?ds = "known threads (arp_frame s) (packet_handler s) @ elems (asyncSendData ?n)"
  obtain h d where d: "\<not> ownerMayFreeData d" "container_ok h d" "bytes_of (?n\<lparr>bufs := h\<rparr>) d = hello"
    and safe: "queue_safe ?ds h" and kept: "\<forall>e \<in> set ?ds. live h (dc_data e) = live (bufs ?n) (dc_data e)"
    and apart: "\<forall>e \<in> set ?ds. ownerMayFreeData e \<longrightarrow> dc_data e \<noteq> dc_data d"
    and pc: "\<forall>x m. pc_ok (pc ?s) x m ?ds (bufs ?n) \<longrightarrow> pc_ok (pc ?s) x m (?ds @ [d]) h"
    and r: "arp_frame s = None \<and> r = Inr (Some d, ?n\<lparr>bufs := h\<rparr>)
      \<or> (\<exists>n'. AsyncSendFrame Q d (?n\<lparr>bufs := h\<rparr>) = Some n' \<and> r = Inr (arp_frame s, n'))"
    by (rule announce_frame [OF assms])
  have other: "sender_step Q elems ready transmit counted threads (senders_of s) Other ((senders_of s)\<lparr>network := ?n\<lparr>bufs := h\<rparr>\<rparr>)"
    using safe kept finv_facts(2) [OF assms(2)] by (intro sender_step.other) (auto simp: ready_upd set_known queue_safe_def)
  from r show ?thesis
  proof (elim disjE exE conjE)
    assume a: "arp_frame s = None" and r: "r = Inr (Some d, ?n\<lparr>bufs := h\<rparr>)"
    have "queue_safe (known threads (Some d) (packet_handler s) @ elems (asyncSendData ?n)) h"
      using safe d(1,2) apart a by (auto simp: queue_safe_known set_known)
    moreover have "pc_ok (pc ?s) x m (known threads (Some d) (packet_handler s) @ elems (asyncSendData ?n)) h"
      if "pc_ok (pc ?s) x m ?ds (bufs ?n)" for x m
      using pc [rule_format, OF that] by (rule pc_ok_mono) (auto simp: set_known a)
    ultimately have "finv (s\<lparr>distribution := ?s\<lparr>handler := (handler ?s)\<lparr>net := ?n\<lparr>bufs := h\<rparr>\<rparr>\<rparr>, arp_frame := Some d\<rparr>)"
      using assms(2) d(1,3) by (simp add: farm_inv_def l1_inv_def Let_def ready_upd)
    with r other show ?thesis
      by (intro that [of "Some d" _ "asyncSendData ?n" h "[]"]) (auto intro!: sender_run.intros)
  next
    fix n assume as: "AsyncSendFrame Q d (?n\<lparr>bufs := h\<rparr>) = Some n" and r: "r = Inr (arp_frame s, n)"
    obtain q where n: "n = ?n\<lparr>bufs := h, asyncSendData := q\<rparr>" "elems q = elems (asyncSendData ?n) @ [d]"
      using AsyncSendFrame_appends [OF as] by auto
    have "queue_safe (?ds @ [d]) h" using d(1,2) apart by (intro queue_safe_push [OF safe]) auto
    moreover have "bytes_of n c = bytes_of ?n c" if "arp_frame s = Some c" for c
      using kept that by (simp add: n(1) bytes_of_def set_known)
    ultimately have "finv (s\<lparr>distribution := ?s\<lparr>handler := (handler ?s)\<lparr>net := n\<rparr>\<rparr>, arp_frame := arp_frame s\<rparr>)"
      using assms(2) pc by (simp add: farm_inv_def l1_inv_def Let_def ready_upd n)
    moreover have "bytes_of n d = hello" using d(3) by (simp add: n(1) bytes_of_def)
    moreover have "sender_step Q elems ready transmit counted threads ((senders_of s)\<lparr>network := ?n\<lparr>bufs := h\<rparr>\<rparr>)
        (Enqueued (bytes_of (?n\<lparr>bufs := h\<rparr>) d)) ((senders_of s)\<lparr>network := n\<rparr>)"
      using sender_step.enqueue [where s = "(senders_of s)\<lparr>network := ?n\<lparr>bufs := h\<rparr>\<rparr>" and d = d and n = n] as d(1,2) apart
      by (force simp: set_known)
    ultimately show ?thesis
      using r n other d(3) by (intro that [of "arp_frame s" n q h "[hello]"]) (auto intro!: sender_run.intros)
  qed
qed

lemma sender_run_append:
  "sender_run Q elems ready transmit counted threads s xs u \<Longrightarrow> sender_run Q elems ready transmit counted threads u ys v \<Longrightarrow>
     sender_run Q elems ready transmit counted threads s (xs @ ys) v"
  by (induction rule: sender_run.induct) (auto intro: sender_run.intros)

text \<open>
  All that holds between the beginning and the end of a run, with the batching machine beside it: the frames
  enqueued are those that became due, and between them those of the ARP thread.
\<close>

definition linked ::
  "('tq, ('q, 'm) NetworkHandler_scheme) farm \<Rightarrow> batcher \<Rightarrow> farm_label list
     \<Rightarrow> ('tq, ('q, 'm) NetworkHandler_scheme) farm \<Rightarrow> batcher \<Rightarrow> bool" where
  "linked s A tr u B \<longleftrightarrow> B = fold batcher_step (distributed tr) A
     \<and> finv u \<and> implements telems (distribution u) B \<and> rest_of (request_hdrs (distribution u)) (pc (distribution u))
     \<and> subseq (in_order B) (in_order A @ requested (distributed tr))
     \<and> ((\<forall>p. Discarded p \<notin> set (distributed tr)) \<longrightarrow> in_order B = in_order A @ requested (distributed tr))
     \<and> request_hdrs (distribution u) = request_hdrs (distribution s)
     \<and> (\<forall>t e. PacketHandler (Crash t e) \<notin> set tr) \<and> (\<forall>e. ArpFault e \<notin> set tr) \<and> set (announced tr) \<subseteq> {hello}
     \<and> (\<exists>str xs fs. sender_run Q elems ready transmit counted threads (senders_of s) str (senders_of u)
          \<and> taken_frames str = taken_frames (handled tr) \<and> (\<forall>t. sent_by t str = sent_by t (handled tr))
          \<and> list_all2 (carries cs) xs fs \<and> enqueued_frames str \<in> shuffles fs (announced tr)
          \<and> handed_out (request_hdrs (distribution u)) (pc (distribution u)) (packets B)
            = handed_out (request_hdrs (distribution s)) (pc (distribution s)) (packets A) @ xs)"

lemma linked_trans:
  assumes "linked s A [a] u B" "linked u B tr v C"
  shows "linked s A (a # tr) v C"
proof -
  let ?d = "distributed [a]" and ?h = "handled [a]" and ?n = "announced [a]"
  have app: "distributed (a # tr) = ?d @ distributed tr" "handled (a # tr) = ?h @ handled tr"
    "announced (a # tr) = ?n @ announced tr"
    using histories_farm [of "[a]" tr] by simp_all
  obtain str xs fs str' xs' fs' where
    r: "sender_run Q elems ready transmit counted threads (senders_of s) str (senders_of u)"
      "taken_frames str = taken_frames ?h" "\<forall>t. sent_by t str = sent_by t ?h" "list_all2 (carries cs) xs fs"
      "enqueued_frames str \<in> shuffles fs ?n"
      "handed_out (request_hdrs (distribution u)) (pc (distribution u)) (packets B)
        = handed_out (request_hdrs (distribution s)) (pc (distribution s)) (packets A) @ xs" and
    r': "sender_run Q elems ready transmit counted threads (senders_of u) str' (senders_of v)"
      "taken_frames str' = taken_frames (handled tr)" "\<forall>t. sent_by t str' = sent_by t (handled tr)"
      "list_all2 (carries cs) xs' fs'" "enqueued_frames str' \<in> shuffles fs' (announced tr)"
      "handed_out (request_hdrs (distribution v)) (pc (distribution v)) (packets C)
        = handed_out (request_hdrs (distribution u)) (pc (distribution u)) (packets B) @ xs'"
    using assms unfolding linked_def by blast
  have "\<exists>str xs fs. sender_run Q elems ready transmit counted threads (senders_of s) str (senders_of v)
          \<and> taken_frames str = taken_frames (handled (a # tr)) \<and> (\<forall>t. sent_by t str = sent_by t (handled (a # tr)))
          \<and> list_all2 (carries cs) xs fs \<and> enqueued_frames str \<in> shuffles fs (announced (a # tr))
          \<and> handed_out (request_hdrs (distribution v)) (pc (distribution v)) (packets C)
            = handed_out (request_hdrs (distribution s)) (pc (distribution s)) (packets A) @ xs"
    using r r' sender_run_append [OF r(1) r'(1)] shuffles_append [OF r(5) r'(5)]
    by (intro exI [of _ "str @ str'"] exI [of _ "xs @ xs'"] exI [of _ "fs @ fs'"])
       (simp add: app(2,3) histories_append list_all2_appendI)
  moreover have "subseq (in_order C) (in_order A @ requested (distributed (a # tr)))"
  proof -
    have "subseq (in_order C) (in_order B @ requested (distributed tr))" using assms(2) unfolding linked_def by blast
    moreover have "subseq (in_order B) (in_order A @ requested ?d)" using assms(1) unfolding linked_def by blast
    then have "subseq (in_order B @ requested (distributed tr)) ((in_order A @ requested ?d) @ requested (distributed tr))"
      by (intro list_emb_append_mono subseq_order.refl)
    ultimately show ?thesis by (auto simp: app(1) requested_append intro: subseq_order.order_trans)
  qed
  moreover have "set (announced (a # tr)) \<subseteq> {hello}" using assms unfolding linked_def app(3) by auto
  ultimately show ?thesis
    using assms unfolding linked_def app(1) by (auto simp: requested_append)
qed

text \<open>A step of the senders or of the ARP thread changes nothing of what is due.\<close>

lemma linked_others:
  assumes "implements telems (distribution s) A" "rest_of (request_hdrs (distribution s)) (pc (distribution s))"
    and "finv u" "distribution u = (distribution s)\<lparr>handler := (handler (distribution s))\<lparr>net := n\<rparr>\<rparr>" "distributed tr = []"
    and "\<forall>t e. PacketHandler (Crash t e) \<notin> set tr" "\<forall>e. ArpFault e \<notin> set tr" "set (announced tr) \<subseteq> {hello}"
    and "sender_run Q elems ready transmit counted threads (senders_of s) str (senders_of u)"
      "taken_frames str = taken_frames (handled tr)" "\<forall>t. sent_by t str = sent_by t (handled tr)"
      "enqueued_frames str = announced tr"
  shows "linked s A tr u A"
proof -
  have "implements telems (distribution u) A" using implements_net [OF assms(1)] assms(4) by simp
  moreover have "\<exists>str xs fs. sender_run Q elems ready transmit counted threads (senders_of s) str (senders_of u)
      \<and> taken_frames str = taken_frames (handled tr) \<and> (\<forall>t. sent_by t str = sent_by t (handled tr))
      \<and> list_all2 (carries cs) xs fs \<and> enqueued_frames str \<in> shuffles fs (announced tr)
      \<and> handed_out (request_hdrs (distribution u)) (pc (distribution u)) (packets A)
        = handed_out (request_hdrs (distribution s)) (pc (distribution s)) (packets A) @ xs"
    using assms(4,9-12) by (intro exI [of _ str] exI [of _ "[]"]) simp
  ultimately show ?thesis
    using assms(2-8) unfolding linked_def by simp
qed

lemma linked_step:
  assumes "farm_step T Q cs junk elems ready transmit counted announce threads s a u" "finv s"
    and "implements telems (distribution s) A" "rest_of (request_hdrs (distribution s)) (pc (distribution s))"
  shows "linked s A [a] u (fold batcher_step (distributed [a]) A)"
  using assms(1)
proof cases
  case (distribute c l)
  obtain str xs where seen: "seen_as s l str xs" and
    out: "handed_out (request_hdrs l) (pc l) (packets (batcher_step c A))
       = handed_out (request_hdrs (distribution s)) (pc (distribution s)) (packets A) @ xs"
    and hdrs: "request_hdrs l = request_hdrs (distribution s)" "rest_of (request_hdrs l) (pc l)" "c \<noteq> SenderRuns"
    by (rule distribution_step [OF distribute(3) assms(2-4)])
  note inv = finv_facts(1) [OF assms(2)]
  have "bytes_of (net (handler l)) d = bytes_of (network_of s) d" if "arp_frame s = Some d" for d
    using seen that by (simp add: seen_as_def bytes_of_def)
  then have "finv u"
    using client.inv_step_own [OF distribute(3) inv hdrs(3)] assms(2) distribute(2) by (simp add: farm_inv_def)
  moreover note impl = client.implements_step [OF distribute(3) inv assms(3)]
  moreover have "\<exists>str xs fs. sender_run Q elems ready transmit counted threads (senders_of s) str (senders_of u)
      \<and> taken_frames str = taken_frames (handled [a]) \<and> (\<forall>t. sent_by t str = sent_by t (handled [a]))
      \<and> list_all2 (carries cs) xs fs \<and> enqueued_frames str \<in> shuffles fs (announced [a])
      \<and> handed_out (request_hdrs (distribution u)) (pc (distribution u)) (packets (fold batcher_step (distributed [a]) A))
        = handed_out (request_hdrs (distribution s)) (pc (distribution s)) (packets A) @ xs"
    using seen out distribute(1,2)
    by (intro exI [of _ str] exI [of _ xs] exI [of _ "enqueued_frames str"]) (simp add: seen_as_def)
  ultimately show ?thesis
    using hdrs(1,2) distribute(1,2) unfolding linked_def by simp metis
next
  case (handle b w)
  note st = handler_step [OF handle(3,4) assms(2)]
  have run: "sender_run Q elems ready transmit counted threads (senders_of s) [b] (senders_of u)"
  proof -
    have "senders_of u = w" using handle(2) by simp
    with handle(3) show ?thesis by (metis sender_run.more sender_run.stop)
  qed
  have "enqueued_frames [b] = []" using handle(4) by (cases b) simp_all
  then have "linked s A [a] u A"
    using st handle(1,2) by (intro linked_others [OF assms(3,4) _ _ _ _ _ _ run]) auto
  then show ?thesis using handle(1) by simp
next
  case (announce b n)
  show ?thesis
  proof (rule announce_step [OF announce(3) assms(2)])
    fix b' n' h q fs
    assume r: "Inr (b, n) = Inr (b', n')" "n' = (network_of s)\<lparr>bufs := h, asyncSendData := q\<rparr>"
      "finv (s\<lparr>distribution := (distribution s)\<lparr>handler := (handler (distribution s))\<lparr>net := n'\<rparr>\<rparr>, arp_frame := b'\<rparr>)"
      "map (bytes_of n') (drop (length (elems (asyncSendData (network_of s)))) (elems (asyncSendData n'))) = fs"
      "set fs \<subseteq> {hello}"
      and run: "sender_run Q elems ready transmit counted threads (senders_of s) (Other # map Enqueued fs)
       \<lparr>network = n', sender = packet_handler s\<rparr>"
    have "enqueued_frames (map Enqueued fs) = fs" "taken_frames (map Enqueued fs) = []" "sent_by t (map Enqueued fs) = []" for t
      by (induction fs) simp_all
    moreover have "senders_of u = \<lparr>network = n', sender = packet_handler s\<rparr>" using announce(2) r(1) by simp
    ultimately have "linked s A [a] u A"
      using r run announce(1,2) by (intro linked_others [OF assms(3,4), where str = "Other # map Enqueued fs" and n = n]) auto
    then show ?thesis using announce(1) by simp
  qed
next
  case (announce_fault e)
  show ?thesis by (rule announce_step [OF announce_fault(3) assms(2)]) simp
qed

lemma linked_run:
  assumes "farm_run T Q cs junk elems ready transmit counted announce threads s tr u" "finv s"
    and "implements telems (distribution s) A" "rest_of (request_hdrs (distribution s)) (pc (distribution s))"
  shows "linked s A tr u (fold batcher_step (distributed tr) A)"
  using assms
proof (induction arbitrary: A rule: farm_run.induct)
  case (stop s)
  then show ?case by (auto simp: linked_def intro!: exI [of _ "[]"] sender_run.stop)
next
  case (more s a u tr v)
  let ?B = "fold batcher_step (distributed [a]) A"
  note st = linked_step [OF more.hyps(1) more.prems]
  then have "finv u" "implements telems (distribution u) ?B" "rest_of (request_hdrs (distribution u)) (pc (distribution u))"
    unfolding linked_def by blast+
  then have "linked u ?B tr v (fold batcher_step (distributed tr) ?B)" by (rule more.IH)
  from linked_trans [OF st this] show ?case using histories_farm(1) [of "[a]" tr] by simp
qed

end

section \<open>Runs\<close>

lemma farm_run_snoc:
  "farm_run T Q cs junk elems ready transmit counted announce threads s tr u \<Longrightarrow>
     farm_step T Q cs junk elems ready transmit counted announce threads u a v \<Longrightarrow>
     farm_run T Q cs junk elems ready transmit counted announce threads s (tr @ [a]) v"
  by (induction rule: farm_run.induct) (auto intro: farm_run.intros)

text \<open>The steps of the packet handlers alone, as steps of the composition.\<close>

definition with_senders :: "('tq, 'n) farm \<Rightarrow> 'n sender_system \<Rightarrow> ('tq, 'n) farm" where
  "with_senders u v = u\<lparr>distribution := (distribution u)\<lparr>handler := (handler (distribution u))\<lparr>net := network v\<rparr>\<rparr>,
     packet_handler := sender v\<rparr>"

lemma with_senders [simp]: "senders_of (with_senders u v) = v" "with_senders (with_senders u v) w = with_senders u w"
  "with_senders u (senders_of u) = u" "pc (distribution (with_senders u v)) = pc (distribution u)"
  "multicastRequests (distribution (with_senders u v)) = multicastRequests (distribution u)"
  "multicastMRPQueue (handler (distribution (with_senders u v))) = multicastMRPQueue (handler (distribution u))"
  "network_of (with_senders u v) = network v" "packet_handler (with_senders u v) = sender v"
  by (simp_all add: with_senders_def)

lemma handlers_run:
  assumes "sender_run Q elems ready transmit counted threads x str v" "\<forall>b \<in> set str. own_step b"
    and "farm_run T Q cs junk elems ready transmit counted announce threads s tr u" "x = senders_of u"
  shows "farm_run T Q cs junk elems ready transmit counted announce threads s (tr @ map PacketHandler str) (with_senders u v)"
  using assms
proof (induction arbitrary: tr u rule: sender_run.induct)
  case (more x b y str v)
  have "farm_step T Q cs junk elems ready transmit counted announce threads u (PacketHandler b) (with_senders u y)"
    unfolding with_senders_def using more.hyps(1) more.prems(1,3) by (intro farm_step.handle) simp_all
  from more.IH [OF _ farm_run_snoc [OF more.prems(2) this]] more.prems(1) show ?case by simp
qed simp

section \<open>What leaves the host\<close>

text \<open>All frames handed over, with their threads.\<close>

fun all_sent :: "sender_label list \<Rightarrow> (nat \<times> byte list) list" where
  "all_sent [] = []"
| "all_sent (Sent t bs # tr) = (t, bs) # all_sent tr"
| "all_sent (_ # tr) = all_sent tr"

lemma all_sent_append: "all_sent (xs @ ys) = all_sent xs @ all_sent ys"
  by (induction xs rule: all_sent.induct) simp_all

lemma sent_by_all: "sent_by t str = map snd (filter (\<lambda>x. fst x = t) (all_sent str))"
  by (induction str rule: all_sent.induct) simp_all

text \<open>
  The part of the state that the library or the kernel sees: only handing over a frame changes it, by
  \<open>emit\<close>.
\<close>

locale observed = delivery Q elems capacity transmit counted ready threads cs T telems tcap announce hello
  for Q :: "(DataContainer, 'q) tbb_queue" and elems capacity
    and transmit :: "nat \<Rightarrow> byte list \<Rightarrow> u32 \<Rightarrow> ('q, 'm) NetworkHandler_scheme
      \<Rightarrow> (int \<times> ('q, 'm) NetworkHandler_scheme) res option"
    and counted ready threads cs and T :: "(nat, 'tq) tbb_queue" and telems tcap and announce hello +
  fixes wire :: "('q, 'm) NetworkHandler_scheme \<Rightarrow> 'w" and emit :: "nat \<Rightarrow> byte list \<Rightarrow> 'w \<Rightarrow> 'w"
  assumes wire_sent: "t < threads \<Longrightarrow> ready n \<Longrightarrow> heap_ok (bufs n) \<Longrightarrow> unat len \<le> length pkt \<Longrightarrow>
      transmit t pkt len n = Some (Inr (k, n')) \<Longrightarrow> wire n' = emit t (take (unat len) pkt) (wire n)"
    and wire_upd: "wire (n\<lparr>bufs := h\<rparr>) = wire n" "wire (n\<lparr>asyncSendData := q\<rparr>) = wire n" "wire (counted n) = wire n"
begin

abbreviation emitted :: "sender_label list \<Rightarrow> 'w \<Rightarrow> 'w" where
  "emitted str \<equiv> fold (\<lambda>(t, bs). emit t bs) (all_sent str)"

lemma wire_distribution:
  assumes "l1_step T Q cs junk (\<lambda>_. None) (distribution s) a l" "finv s"
  shows "wire (net (handler l)) = wire (network_of s)"
  using assms(1)
proof cases
  case (build rest b k offset buff h)
  then show ?thesis
    by (auto simp: begin_MRP_def bind_res_Inr_iff wire_upd split: prod.splits)
next
  case (send b k offset buff hdr hdrs n)
  obtain h d where eq: "send_frame cs Q junk buff offset k hdr (network_of s)
      = map_option Inr (AsyncSendFrame Q d ((network_of s)\<lparr>bufs := h\<rparr>))"
    by (rule client.send_enqueues [OF finv_facts(1) [OF assms(2)] send(3), of junk])
  with send(4) have "AsyncSendFrame Q d ((network_of s)\<lparr>bufs := h\<rparr>) = Some n"
    by (cases "AsyncSendFrame Q d ((network_of s)\<lparr>bufs := h\<rparr>)") simp_all
  with AsyncSendFrame_appends show ?thesis unfolding send(2) by (fastforce simp: wire_upd)
next
  case (finish b k offset buff h)
  then show ?thesis by (auto simp: finish_MRP_def bind_res_Inr_iff wire_upd)
qed auto

lemma wire_handler:
  assumes "sender_step Q elems ready transmit counted threads s b v" "own_step b" "inv s"
  shows "wire (network v) = emitted [b] (wire (network s))"
  using assms(1)
proof cases
  case (hand_over t d pkt k n)
  have "d \<in> set (held (sender s t))" using hand_over(4) by simp
  then obtain x where x: "live (bufs (network s)) (dc_data d) = Some x" "dc_length d \<le> length x"
    "unat (of_nat (dc_length d) :: u32) = dc_length d" "heap_read (dc_data d) (bufs (network s)) = Inr x"
    "heap_ok (bufs (network s))" by (rule inv_container [OF assms(3) hand_over(3)])
  have px: "pkt = x" using x(4) hand_over(5) by simp
  have "ready (network s)" using assms(3) by (simp add: sender_inv_def)
  moreover have "unat (of_nat (dc_length d) :: u32) \<le> length pkt" unfolding x(3) px by (rule x(2))
  ultimately have "wire n = emit t (take (unat (of_nat (dc_length d) :: u32)) pkt) (wire (network s))"
    using wire_sent [OF hand_over(3) _ x(5) _ hand_over(6)] by blast
  then show ?thesis unfolding x(3) px using hand_over(1,2) x(1) by (simp add: bytes_of_def)
qed (use assms(2) in \<open>simp_all add: wire_upd\<close>)

lemma wire_step:
  assumes "farm_step T Q cs junk elems ready transmit counted announce threads s a u" "finv s"
  shows "wire (network_of u) = emitted (handled [a]) (wire (network_of s))"
  using assms(1)
proof cases
  case (distribute c l)
  with wire_distribution [OF distribute(3) assms(2)] show ?thesis by simp
next
  case (handle b v)
  with wire_handler [OF handle(3,4) farm_inv_senders [OF assms(2)]] show ?thesis by simp
next
  case (announce b n)
  show ?thesis
    by (rule announce_step [OF announce(3) assms(2)]) (use announce(1,2) in \<open>simp add: wire_upd\<close>)
qed simp

lemma wire_run:
  assumes "farm_run T Q cs junk elems ready transmit counted announce threads s tr u" "finv s"
    and "implements telems (distribution s) A" "rest_of (request_hdrs (distribution s)) (pc (distribution s))"
  shows "wire (network_of u) = emitted (handled tr) (wire (network_of s))"
  using assms
proof (induction arbitrary: A rule: farm_run.induct)
  case (more s a u tr v)
  let ?B = "fold batcher_step (distributed [a]) A"
  have "finv u" "implements telems (distribution u) ?B" "rest_of (request_hdrs (distribution u)) (pc (distribution u))"
    using linked_step [OF more.hyps(1) more.prems] unfolding linked_def by blast+
  from more.IH [OF this] wire_step [OF more.hyps(1) more.prems(1)] show ?case
    using histories_farm(2) [of "[a]" tr] by (simp add: all_sent_append)
qed simp

end

section \<open>From the start\<close>

text \<open>Nothing requested, nothing enqueued, no call of a packet handler under way, the ARP thread not begun.\<close>

definition farm_start ::
  "('q \<Rightarrow> DataContainer list) \<Rightarrow> ('tq \<Rightarrow> nat list) \<Rightarrow> (('q, 'm) NetworkHandler_scheme \<Rightarrow> bool)
     \<Rightarrow> ('tq, ('q, 'm) NetworkHandler_scheme) farm \<Rightarrow> bool" where
  "farm_start elems telems ready s \<longleftrightarrow> l1_start elems telems ready (distribution s)
     \<and> elems (asyncSendData (network_of s)) = [] \<and> (\<forall>t. packet_handler s t = Idle) \<and> arp_frame s = None"

lemma farm_start_inv:
  assumes "farm_start elems telems ready s"
  shows "farm_inv elems telems ready threads hello s" "implements telems (distribution s) no_batches"
    "rest_of hdrs (pc (distribution s))" "pc (distribution s) = Fill"
proof -
  have "known threads (arp_frame s) (packet_handler s) = []" using assms by (simp add: farm_start_def known_def in_flight_def)
  moreover have "elems (asyncSendData (network_of s)) = []"
    "queue_safe (elems (asyncSendData (network_of s))) (bufs (network_of s))"
    using assms unfolding farm_start_def l1_start_def by blast+
  then have "queue_safe [] (bufs (network_of s))" by simp
  ultimately show "farm_inv elems telems ready threads hello s"
    using assms by (simp add: farm_start_def farm_inv_def l1_start_def l1_inv_def Let_def)
qed (use assms in \<open>simp_all add: farm_start_def l1_start_def implements_def no_batches_def\<close>)

lemma delivered:
  assumes "delivery Q elems capacity transmit counted ready threads cs T telems tcap announce hello"
    and "farm_start elems telems ready s" and "farm_run T Q cs junk elems ready transmit counted announce threads s tr u"
  defines "B \<equiv> fold batcher_step (distributed tr) no_batches"
  shows "farm_inv elems telems ready threads hello u" "implements telems (distribution u) B"
    "subseq (in_order B) (requested (distributed tr))"
    "(\<forall>p. Discarded p \<notin> set (distributed tr)) \<longrightarrow> in_order B = requested (distributed tr)"
    "\<forall>t e. PacketHandler (Crash t e) \<notin> set tr" "\<forall>e. ArpFault e \<notin> set tr" "set (announced tr) \<subseteq> {hello}"
    "\<exists>fs. list_all2 (carries cs) (handed_out (request_hdrs (distribution s)) (pc (distribution u)) (packets B)) fs
       \<and> map snd (taken_frames (handled tr)) @ map (bytes_of (network_of u)) (elems (asyncSendData (network_of u)))
           \<in> shuffles fs (announced tr)"
    "taken_by t (handled tr) = sent_by t (handled tr) @ to_hand (network_of u) (packet_handler u t)"
    "\<forall>x \<in> set (taken_frames (handled tr)). fst x < threads"
proof -
  note st = farm_start_inv [OF assms(2)]
  have tr: "transmitter Q elems capacity transmit counted ready threads" using assms(1) by (simp add: delivery_def)
  have link: "delivery.linked Q elems transmit counted ready threads cs telems hello s no_batches tr u B"
    unfolding B_def by (rule delivery.linked_run [OF assms(1,3) st(1,2,3)])
  note l = link [unfolded delivery.linked_def [OF assms(1)]]
  then obtain str xs fs where str: "sender_run Q elems ready transmit counted threads (senders_of s) str (senders_of u)"
    "taken_frames str = taken_frames (handled tr)" "\<forall>t. sent_by t str = sent_by t (handled tr)"
    "list_all2 (carries cs) xs fs" "enqueued_frames str \<in> shuffles fs (announced tr)"
    "handed_out (request_hdrs (distribution u)) (pc (distribution u)) (packets B)
            = handed_out (request_hdrs (distribution s)) (pc (distribution s)) (packets no_batches) @ xs" by blast
  have "handed_out (request_hdrs (distribution s)) (pc (distribution s)) (packets no_batches) = []"
    using st(4) by (simp add: no_batches_def due_def)
  moreover have "request_hdrs (distribution u) = request_hdrs (distribution s)" using l by blast
  ultimately have xs: "handed_out (request_hdrs (distribution s)) (pc (distribution u)) (packets B) = xs" using str(6) by simp
  have acc: "accounted elems (senders_of s) str (senders_of u)"
    using transmitter.inv_run [OF tr str(1) farm_inv_senders [OF st(1)]] by blast
  then have "enqueued_frames str = map snd (taken_frames (handled tr)) @ map (bytes_of (network_of u)) (elems (asyncSendData (network_of u)))"
    using str(2) assms(2) by (simp add: accounted_def farm_start_def)
  with str(4,5) show "\<exists>fs. list_all2 (carries cs) (handed_out (request_hdrs (distribution s)) (pc (distribution u)) (packets B)) fs
       \<and> map snd (taken_frames (handled tr)) @ map (bytes_of (network_of u)) (elems (asyncSendData (network_of u)))
           \<in> shuffles fs (announced tr)"
    unfolding xs by (intro exI [of _ fs]) simp
  show "taken_by t (handled tr) = sent_by t (handled tr) @ to_hand (network_of u) (packet_handler u t)"
    using acc str(2,3) assms(2) by (simp add: accounted_def farm_start_def taken_by_def)
  show "\<forall>x \<in> set (taken_frames (handled tr)). fst x < threads" using taken_threads [OF str(1)] str(2) by simp
  have "in_order no_batches = []" by (simp add: no_batches_def in_order_def)
  with l show "farm_inv elems telems ready threads hello u" "implements telems (distribution u) B"
    "subseq (in_order B) (requested (distributed tr))"
    "(\<forall>p. Discarded p \<notin> set (distributed tr)) \<longrightarrow> in_order B = requested (distributed tr)"
    "\<forall>t e. PacketHandler (Crash t e) \<notin> set tr" "\<forall>e. ArpFault e \<notin> set tr" "set (announced tr) \<subseteq> {hello}" by auto
qed

end
