(* ===== verification/FarmLiveness.thy ===== *)
theory FarmLiveness
  imports FarmThreads "HOL-Library.Multiset"
begin

text \<open>
  The threads can always finish: as long as no burst has been flushed and the back end's calls return, the
  distribution thread and the packet handler threads can, from every state, come to rest with everything
  sent, whatever the others did before.
\<close>

section \<open>Steps of the library\<close>

text \<open>The steps that need no request, no flush and no announcement.\<close>

fun library_step :: "farm_label \<Rightarrow> bool" where
  "library_step (Distribution Silent) = True"
| "library_step (Distribution (Popped p)) = True"
| "library_step (Distribution (Built k)) = True"
| "library_step (Distribution FrameQueued) = True"
| "library_step (Distribution PacketDone) = True"
| "library_step (PacketHandler b) = True"
| "library_step _ = False"

definition at_rest ::
  "('q \<Rightarrow> DataContainer list) \<Rightarrow> ('tq \<Rightarrow> nat list) \<Rightarrow> ('tq, ('q, 'm) NetworkHandler_scheme) farm \<Rightarrow> bool" where
  "at_rest elems telems s \<longleftrightarrow> pc (distribution s) = Fill \<and> multicastRequests (distribution s) = []
     \<and> telems (multicastMRPQueue (handler (distribution s))) = [] \<and> elems (asyncSendData (network_of s)) = []
     \<and> (\<forall>t. packet_handler s t = Idle)"

lemma library_histories:
  "\<forall>a \<in> set tr. library_step a \<Longrightarrow> requested (distributed tr) = [] \<and> announced tr = [] \<and> Distribution (SetFlush True) \<notin> set tr"
proof (induction tr)
  case (Cons a tr)
  then show ?case by (cases a rule: library_step.cases) auto
qed simp

section \<open>What keeps the threads going\<close>

text \<open>
  Without a flush the thread only waits in \<open>Take\<close> for a trigger that is there; a send queue of some capacity
  and packets of some length are needed.
\<close>

definition unflushed ::
  "('q \<Rightarrow> nat option) \<Rightarrow> ('tq \<Rightarrow> nat list) \<Rightarrow> ('tq, ('q, 'm) NetworkHandler_scheme) farm \<Rightarrow> bool" where
  "unflushed capacity telems s \<longleftrightarrow> \<not> flushBurst (distribution s) \<and> pc (distribution s) \<noteq> Discard
     \<and> (pc (distribution s) \<in> {Drain, Take} \<longrightarrow> telems (multicastMRPQueue (handler (distribution s))) \<noteq> [])
     \<and> capacity (asyncSendData (network_of s)) \<noteq> Some 0 \<and> 0 < unat (MAX_TRIGGERS_PER_L1MRP (handler (distribution s)))"

context transmitter
begin

lemma sender_step_capacity:
  assumes "sender_step Q elems ready transmit counted threads s a u" "inv s"
  shows "capacity (asyncSendData (network u)) = capacity (asyncSendData (network s))"
  using assms(1)
proof cases
  case (enqueue d n)
  then show ?thesis by (auto simp: AsyncSendFrame_def dest: push_elems)
next
  case (take_frame t d q)
  with try_pop_Some [OF take_frame(5)] show ?thesis by simp
next
  case (hand_over t d pkt k n)
  have "d \<in> set (held (sender s t))" using hand_over(4) by simp
  then obtain x where x: "dc_length d \<le> length x" "unat (of_nat (dc_length d) :: u32) = dc_length d"
    "heap_read (dc_data d) (bufs (network s)) = Inr x" "heap_ok (bufs (network s))"
    by (rule inv_container [OF assms(2) hand_over(3)])
  have "ready (network s)" using assms(2) by (simp add: sender_inv_def)
  moreover have "unat (of_nat (dc_length d) :: u32) \<le> length pkt" unfolding x(2) using x(1,3) hand_over(5) by simp
  ultimately show ?thesis using transmit_law [OF hand_over(3) _ x(4) _ hand_over(6)] hand_over(2) by auto
qed (simp_all add: counted_law)

lemma sender_run_capacity:
  assumes "sender_run Q elems ready transmit counted threads s tr u" "inv s"
  shows "capacity (asyncSendData (network u)) = capacity (asyncSendData (network s))"
  using assms
proof (induction rule: sender_run.induct)
  case (more s a u tr v)
  with inv_step [OF more.hyps(1) more.prems] sender_step_capacity [OF more.hyps(1) more.prems] show ?case by simp
qed simp

end

text \<open>The packet size is a constant of a run.\<close>

lemma l1_step_max:
  assumes "l1_step T Q cs junk send_next s a t"
  shows "MAX_TRIGGERS_PER_L1MRP (handler t) = MAX_TRIGGERS_PER_L1MRP (handler s)"
  using assms by cases (auto simp: begin_MRP_def finish_MRP_def bind_res_Inr_iff split: prod.splits)

section \<open>Calls that return\<close>

locale responsive = delivery Q elems capacity transmit counted ready threads cs T telems tcap announce hello
  for Q :: "(DataContainer, 'q) tbb_queue" and elems capacity
    and transmit :: "nat \<Rightarrow> byte list \<Rightarrow> u32 \<Rightarrow> ('q, 'm) NetworkHandler_scheme
      \<Rightarrow> (int \<times> ('q, 'm) NetworkHandler_scheme) res option"
    and counted ready threads cs and T :: "(nat, 'tq) tbb_queue" and telems tcap and announce hello +
  assumes transmit_returns: "t < threads \<Longrightarrow> ready n \<Longrightarrow> heap_ok (bufs n) \<Longrightarrow> unat len \<le> length pkt \<Longrightarrow>
      transmit t pkt len n \<noteq> None"
    and some_thread: "0 < threads"
begin

text \<open>One call of a packet handler thread runs to its end.\<close>

lemma handed_completes:
  assumes "inv s" "t < threads" "sender s t = Handed d k"
  shows "\<exists>str v. sender_run Q elems ready transmit counted threads s str v \<and> (\<forall>b \<in> set str. own_step b)
    \<and> sender v = (sender s)(t := Idle) \<and> asyncSendData (network v) = asyncSendData (network s)"
proof -
  obtain h where "(if ownerMayFreeData d then heap_delete (dc_data d) (bufs (network s)) else Inr (bufs (network s))) = Inr h"
    by (rule inv_free [OF assms refl])
  note sender_run.more [OF sender_step.free_block [OF assms(2,3) this] sender_run.stop]
  then show ?thesis by (intro exI conjI) (assumption | simp add: counted_law)+
qed

lemma call_completes:
  assumes "inv s" "t < threads"
  shows "\<exists>str v. sender_run Q elems ready transmit counted threads s str v \<and> (\<forall>b \<in> set str. own_step b)
    \<and> sender v = (sender s)(t := Idle) \<and> asyncSendData (network v) = asyncSendData (network s)"
proof (cases "sender s t")
  case Idle
  then show ?thesis by (intro exI [of _ "[]"] exI [of _ s]) (simp add: sender_run.stop fun_upd_idem)
next
  case (Dequeued d)
  have "d \<in> set (held (sender s t))" using Dequeued by simp
  then obtain pkt where pkt: "dc_length d \<le> length pkt" "unat (of_nat (dc_length d) :: u32) = dc_length d"
    "heap_read (dc_data d) (bufs (network s)) = Inr pkt" "heap_ok (bufs (network s))"
    by (rule inv_container [OF assms])
  have len: "unat (of_nat (dc_length d) :: u32) \<le> length pkt" using pkt(1,2) by simp
  have ready: "ready (network s)" using assms(1) by (simp add: sender_inv_def)
  from transmit_returns [OF assms(2) ready pkt(4) len]
  obtain r where r: "transmit t pkt (of_nat (dc_length d)) (network s) = Some r" by blast
  obtain k n where k: "r = Inr (k, n)" and inv: "inv (s\<lparr>network := n, sender := (sender s)(t := Handed d k)\<rparr>)"
    by (rule inv_transmit [OF assms Dequeued pkt(3) r])
  let ?m = "s\<lparr>network := n, sender := (sender s)(t := Handed d k)\<rparr>"
  have step: "sender_step Q elems ready transmit counted threads s (Sent t (bytes_of (network s) d)) ?m"
    using r k by (intro sender_step.hand_over [OF assms(2) Dequeued pkt(3)]) simp
  have same: "asyncSendData n = asyncSendData (network s)" using transmit_law [OF assms(2) ready pkt(4) len r] k by auto
  have "sender ?m t = Handed d k" by simp
  from handed_completes [OF inv assms(2) this] obtain str v where
    v: "sender_run Q elems ready transmit counted threads ?m str v" "\<forall>b \<in> set str. own_step b"
    "sender v = (sender ?m)(t := Idle)" "asyncSendData (network v) = asyncSendData (network ?m)" by blast
  from sender_run.more [OF step v(1)] v(2-4) same show ?thesis
    by (intro exI conjI) (assumption | simp)+
next
  case (Handed d k)
  then show ?thesis by (rule handed_completes [OF assms])
next
  case (Broken e)
  with assms(1) show ?thesis by (simp add: sender_inv_def)
qed

section \<open>States from which the threads can finish\<close>

definition lively :: "('tq, ('q, 'm) NetworkHandler_scheme) farm \<Rightarrow> bool" where
  "lively s \<longleftrightarrow> finv s \<and> (\<exists>A. implements telems (distribution s) A)
     \<and> rest_of (request_hdrs (distribution s)) (pc (distribution s)) \<and> unflushed capacity telems s"

lemma linked_capacity:
  assumes "linked s A tr u B" "finv s"
  shows "capacity (asyncSendData (network_of u)) = capacity (asyncSendData (network_of s))"
proof -
  from assms(1) obtain str where "sender_run Q elems ready transmit counted threads (senders_of s) str (senders_of u)"
    unfolding linked_def by blast
  from sender_run_capacity [OF this farm_inv_senders [OF assms(2)]] show ?thesis by simp
qed

lemma unflushed_distribution:
  assumes "l1_step T Q cs junk (\<lambda>_. None) (distribution s) a l" "unflushed capacity telems s" "a \<noteq> SetFlush True"
    and "capacity (asyncSendData (net (handler l))) = capacity (asyncSendData (network_of s))"
  shows "unflushed capacity telems (s\<lparr>distribution := l\<rparr>) \<and> (\<forall>p. a \<noteq> Discarded p)"
  using assms(1)
proof cases
  case (request hs event z p hs' q)
  then have "telems q \<noteq> []" using triggers.push_elems by fastforce
  with request(1,2) assms(2,4) show ?thesis by (auto simp: unflushed_def)
qed (use assms(2-4) l1_step_max [OF assms(1)] in \<open>auto simp: unflushed_def triggers.empty_iff\<close>)

lemma lively_step:
  assumes "farm_step T Q cs junk elems ready transmit counted announce threads s a u" "lively s"
    and "a \<noteq> Distribution (SetFlush True)"
  shows "lively u \<and> (\<forall>p. a \<noteq> Distribution (Discarded p))"
proof -
  from assms(2) obtain A where A: "finv s" "implements telems (distribution s) A"
    "rest_of (request_hdrs (distribution s)) (pc (distribution s))" and un: "unflushed capacity telems s"
    unfolding lively_def by blast
  note link = linked_step [OF assms(1) A]
  note cap = linked_capacity [OF link A(1)]
  have "unflushed capacity telems u \<and> (\<forall>p. a \<noteq> Distribution (Discarded p))"
    using assms(1)
  proof cases
    case (distribute c l)
    with unflushed_distribution [OF distribute(3) un] assms(3) cap show ?thesis by auto
  qed (use un cap in \<open>auto simp: unflushed_def\<close>)
  with link show ?thesis unfolding lively_def linked_def by blast
qed

lemma lively_run:
  assumes "farm_run T Q cs junk elems ready transmit counted announce threads s tr u" "lively s"
    and "Distribution (SetFlush True) \<notin> set tr"
  shows "lively u \<and> (\<forall>p. Discarded p \<notin> set (distributed tr))"
  using assms
proof (induction rule: farm_run.induct)
  case (more s a u tr v)
  with lively_step [OF more.hyps(1) more.prems(1)] have "lively u" "\<forall>p. a \<noteq> Distribution (Discarded p)" by auto
  with more.IH more.prems(2) show ?case by (cases a) auto
qed simp

text \<open>What the library can do by itself.\<close>

definition reaches ::
  "(nat \<Rightarrow> nat \<Rightarrow> byte) \<Rightarrow> ('tq, ('q, 'm) NetworkHandler_scheme) farm \<Rightarrow> ('tq, ('q, 'm) NetworkHandler_scheme) farm \<Rightarrow> bool" where
  "reaches junk s v \<longleftrightarrow> (\<exists>tr. farm_run T Q cs junk elems ready transmit counted announce threads s tr v
     \<and> (\<forall>a \<in> set tr. library_step a))"

lemma reaches_refl: "reaches junk s s"
  unfolding reaches_def by (intro exI [of _ "[]"]) (simp add: farm_run.stop)

lemma farm_run_append:
  "farm_run T Q cs junk elems ready transmit counted announce threads s tr u \<Longrightarrow>
     farm_run T Q cs junk elems ready transmit counted announce threads u tr' v \<Longrightarrow>
     farm_run T Q cs junk elems ready transmit counted announce threads s (tr @ tr') v"
  by (induction rule: farm_run.induct) (auto intro: farm_run.intros)

lemma reaches_trans: "reaches junk s u \<Longrightarrow> reaches junk u v \<Longrightarrow> reaches junk s v"
  unfolding reaches_def using farm_run_append by (metis Un_iff set_append)

lemma reaches_distribution:
  assumes "l1_step T Q cs junk (\<lambda>_. None) (distribution s) a l" "library_step (Distribution a)"
  shows "reaches junk s (s\<lparr>distribution := l\<rparr>)"
  unfolding reaches_def using assms
  by (intro exI [of _ "[Distribution a]"]) (auto intro: farm_run.intros farm_step.distribute)

lemma reaches_handlers:
  assumes "sender_run Q elems ready transmit counted threads (senders_of s) str v" "\<forall>b \<in> set str. own_step b"
  shows "reaches junk s (with_senders s v)"
  unfolding reaches_def using handlers_run [OF assms farm_run.stop refl]
  by (intro exI [of _ "map PacketHandler str"]) simp

lemma reaches_lively: "reaches junk s v \<Longrightarrow> lively s \<Longrightarrow> lively v"
  unfolding reaches_def using lively_run library_histories by blast

lemma lively_senders: "lively s \<Longrightarrow> inv (senders_of s)"
  unfolding lively_def using farm_inv_senders by blast

lemma senders_eta [simp]: "\<lparr>network = network v, sender = sender v\<rparr> = v"
  by simp

section \<open>The packet handlers finish\<close>

lemma handlers_idle:
  assumes "lively s" "m \<le> threads"
  shows "\<exists>v. reaches junk s (with_senders s v) \<and> (\<forall>t<m. sender v t = Idle)
    \<and> asyncSendData (network v) = asyncSendData (network_of s)"
  using assms(2)
proof (induction m)
  case 0
  show ?case by (intro exI [of _ "senders_of s"]) (simp add: reaches_refl)
next
  case (Suc m)
  then obtain v where v: "reaches junk s (with_senders s v)" "\<forall>t<m. sender v t = Idle"
    "asyncSendData (network v) = asyncSendData (network_of s)" by auto
  have "inv v" using lively_senders [OF reaches_lively [OF v(1) assms(1)]] by simp
  from call_completes [OF this] Suc.prems obtain str w where
    w: "sender_run Q elems ready transmit counted threads v str w" "\<forall>b \<in> set str. own_step b"
    "sender w = (sender v)(m := Idle)" "asyncSendData (network w) = asyncSendData (network v)" by (metis Suc_le_eq)
  have "reaches junk (with_senders s v) (with_senders (with_senders s v) w)"
    by (rule reaches_handlers) (use w in simp_all)
  with v(1) have "reaches junk s (with_senders s w)" by (auto intro: reaches_trans)
  with w(3,4) v(2,3) show ?case by (auto simp: less_Suc_eq)
qed

lemma handlers_drain:
  assumes "lively s"
  shows "\<exists>v. reaches junk s (with_senders s v) \<and> sender v = (\<lambda>_. Idle) \<and> elems (asyncSendData (network v)) = []"
  using assms
proof (induction "length (elems (asyncSendData (network_of s)))" arbitrary: s)
  case 0
  from handlers_idle [OF 0(2) order.refl, of junk] obtain v where
    v: "reaches junk s (with_senders s v)" "\<forall>t<threads. sender v t = Idle"
    "asyncSendData (network v) = asyncSendData (network_of s)" by blast
  have "inv v" using lively_senders [OF reaches_lively [OF v(1) 0(2)]] by simp
  then have "sender v t = Idle" for t using v(2) by (cases "t < threads") (simp_all add: sender_inv_def)
  then have "sender v = (\<lambda>_. Idle)" by (simp add: fun_eq_iff)
  with v 0(1) show ?case by auto
next
  case (Suc k)
  from handlers_idle [OF Suc.prems order.refl, of junk] obtain v where
    v: "reaches junk s (with_senders s v)" "\<forall>t<threads. sender v t = Idle"
    "asyncSendData (network v) = asyncSendData (network_of s)" by blast
  obtain d ds where "elems (asyncSendData (network v)) = d # ds" using Suc.hyps(2) v(3) by (metis Suc_length_conv)
  with try_pop_head obtain q where q: "q_try_pop Q (asyncSendData (network v)) = Some (d, q)" "elems q = ds" by blast
  have "sender v 0 = Idle" using v(2) some_thread by blast
  note sender_run.more [OF sender_step.take_frame [OF some_thread this q(1)] sender_run.stop]
  then have w: "sender_run Q elems ready transmit counted threads v [Took 0 (bytes_of (network v) d)]
      (v\<lparr>network := (network v)\<lparr>asyncSendData := q\<rparr>, sender := (sender v)(0 := Dequeued d)\<rparr>)" (is "sender_run _ _ _ _ _ _ _ _ ?w") .
  have "reaches junk (with_senders s v) (with_senders (with_senders s v) ?w)"
    by (rule reaches_handlers [where str = "[Took 0 (bytes_of (network v) d)]"]) (use w in simp_all)
  with v(1) have r: "reaches junk s (with_senders s ?w)" by (auto intro: reaches_trans)
  moreover have "k = length (elems (asyncSendData (network_of (with_senders s ?w))))"
    using q(2) Suc.hyps(2) v(3) \<open>elems (asyncSendData (network v)) = d # ds\<close> by simp
  from Suc.hyps(1) [OF this reaches_lively [OF r Suc.prems]] obtain x where
    "reaches junk (with_senders s ?w) (with_senders (with_senders s ?w) x)" "sender x = (\<lambda>_. Idle)"
    "elems (asyncSendData (network x)) = []" by blast
  ultimately show ?case by (auto intro: reaches_trans)
qed

section \<open>The distribution thread finishes\<close>

abbreviation requests_of :: "('tq, ('q, 'm) NetworkHandler_scheme) farm \<Rightarrow> nat list \<times> nat list" where
  "requests_of s \<equiv> (telems (multicastMRPQueue (handler (distribution s))), multicastRequests (distribution s))"

lemma lively_client: "lively s \<Longrightarrow> client.inv (arp_frame s) (packet_handler s) (distribution s)"
  by (simp add: lively_def finv_facts)

lemma frame_can_be_queued:
  assumes "lively s" "pc (distribution s) = Sending b k offset buff (hdr # hdrs)"
  shows "\<exists>v. reaches junk s v \<and> pc (distribution v) = Sending b k offset buff hdrs \<and> requests_of v = requests_of s"
proof -
  from handlers_drain [OF assms(1), of junk] obtain x where
    x: "reaches junk s (with_senders s x)" "elems (asyncSendData (network x)) = []" by blast
  let ?u = "with_senders s x"
  note live = reaches_lively [OF x(1) assms(1)]
  have pc: "pc (distribution ?u) = Sending b k offset buff (hdr # hdrs)" using assms(2) by simp
  obtain h d where eq: "send_frame cs Q junk buff offset k hdr (network_of ?u)
      = map_option Inr (AsyncSendFrame Q d ((network_of ?u)\<lparr>bufs := h\<rparr>))"
    by (rule client.send_enqueues [OF lively_client [OF live] pc])
  have "capacity (asyncSendData (network x)) \<noteq> Some 0" using live by (simp add: lively_def unflushed_def)
  then have "AsyncSendFrame Q d ((network_of ?u)\<lparr>bufs := h\<rparr>) \<noteq> None"
    using x(2) AsyncSendFrame_blocks [of d "(network_of ?u)\<lparr>bufs := h\<rparr>"] by auto
  then obtain n where "AsyncSendFrame Q d ((network_of ?u)\<lparr>bufs := h\<rparr>) = Some n" by blast
  with eq have "send_frame cs Q junk buff offset k hdr (network_of ?u) = Some (Inr n)" by simp
  from reaches_distribution [OF l1_step.send [OF pc]] this
  have "reaches junk ?u (?u\<lparr>distribution := (distribution ?u)\<lparr>handler := (handler (distribution ?u))\<lparr>net := n\<rparr>,
      pc := Sending b k offset buff hdrs\<rparr>\<rparr>)" by simp
  from reaches_trans [OF x(1) this] show ?thesis by (intro exI conjI) (assumption | simp)+
qed

lemma packet_can_be_finished:
  assumes "lively s" "pc (distribution s) = Sending b k offset buff hdrs"
  shows "\<exists>v. reaches junk s v \<and> pc (distribution v) = Fill \<and> requests_of v = requests_of s"
  using assms
proof (induction hdrs arbitrary: s)
  case Nil
  from client.inv_finish [OF lively_client [OF Nil.prems(1)] Nil.prems(2)]
  obtain l where l: "finish_MRP b k (handler (distribution s)) = Inr l" by blast
  then have "multicastMRPQueue l = multicastMRPQueue (handler (distribution s))"
    by (auto simp: finish_MRP_def bind_res_Inr_iff)
  with reaches_distribution [OF l1_step.finish [OF Nil.prems(2) l]] show ?case
    by (intro exI conjI) (fastforce | simp)+
next
  case (Cons hdr hdrs)
  from frame_can_be_queued [OF Cons.prems, of junk] obtain u where
    u: "reaches junk s u" "pc (distribution u) = Sending b k offset buff hdrs" "requests_of u = requests_of s" by blast
  from Cons.IH [OF reaches_lively [OF u(1) Cons.prems(1)] u(2)] u(1,3) show ?case by (metis reaches_trans)
qed

lemma decided:
  assumes "lively s" "pc (distribution s) = Decide"
  shows "\<exists>v. reaches junk s v \<and> pc (distribution v) = Fill \<and> requests_of v = (fst (requests_of s), [])"
proof (cases "multicastRequests (distribution s) = []")
  case True
  with reaches_distribution [OF l1_step.idle [OF assms(2) True], of junk] show ?thesis
    by (intro exI conjI) (fastforce | simp)+
next
  case False
  obtain b k buff h where m: "begin_MRP junk (multicastRequests (distribution s)) (handler (distribution s))
      = Inr ([], b, of_nat k, of_nat (54 + 12 * k), buff,
      (handler (distribution s))\<lparr>trigger_heap := (trigger_heap (handler (distribution s)))\<lparr>live :=
          live (trigger_heap (handler (distribution s))) |` (- set (multicastRequests (distribution s)))\<rparr>,
        net := (network_of s)\<lparr>bufs := h\<rparr>\<rparr>)"
    by (rule client.inv_build [OF lively_client [OF assms(1)] False])
  from reaches_distribution [OF l1_step.build [OF assms(2) False m]] obtain u where
    u: "reaches junk s u" "pc (distribution u) = Sending b (of_nat k) (of_nat (54 + 12 * k)) buff (request_hdrs (distribution s))"
    "requests_of u = (fst (requests_of s), [])" by fastforce
  from packet_can_be_finished [OF reaches_lively [OF u(1) assms(1)] u(2)] u(1,3) show ?thesis by (metis reaches_trans)
qed

lemma taking:
  assumes "lively s" "pc (distribution s) = Take"
  shows "\<exists>v. reaches junk s v \<and> pc (distribution v) = Fill \<and> length (fst (requests_of v)) < length (fst (requests_of s))"
proof -
  have "telems (multicastMRPQueue (handler (distribution s))) \<noteq> []" using assms by (simp add: lively_def unflushed_def)
  then obtain p ps where "telems (multicastMRPQueue (handler (distribution s))) = p # ps" by (cases "telems (multicastMRPQueue (handler (distribution s)))") auto
  with triggers.try_pop_head obtain q where
    q: "q_try_pop T (multicastMRPQueue (handler (distribution s))) = Some (p, q)" "telems q = ps" by blast
  with reaches_distribution [OF l1_step.pop [OF assms(2) q(1)]] \<open>_ = p # ps\<close> show ?thesis
    by (intro exI conjI) (fastforce | simp)+
qed

lemma draining:
  assumes "lively s" "pc (distribution s) = Drain"
  shows "\<exists>v. reaches junk s v \<and> pc (distribution v) = Fill \<and> length (fst (requests_of v)) < length (fst (requests_of s))"
proof -
  have "\<not> flushBurst (distribution s)" using assms(1) by (simp add: lively_def unflushed_def)
  with reaches_distribution [OF l1_step.drain_test [OF assms(2)]] obtain u where
    u: "reaches junk s u" "pc (distribution u) = Take" "requests_of u = requests_of s" by fastforce
  from taking [OF reaches_lively [OF u(1) assms(1)] u(2)] u(1,3) show ?thesis by (metis reaches_trans)
qed

lemma one_taken:
  assumes "lively s" "pc (distribution s) = Fill" "fst (requests_of s) \<noteq> []"
    and "length (snd (requests_of s)) \<noteq> unat (MAX_TRIGGERS_PER_L1MRP (handler (distribution s)))"
  shows "\<exists>v. reaches junk s v \<and> pc (distribution v) = Fill \<and> length (fst (requests_of v)) < length (fst (requests_of s))"
proof -
  have "\<not> q_empty T (multicastMRPQueue (handler (distribution s)))" using assms(3) by (simp add: triggers.empty_iff)
  with reaches_distribution [OF l1_step.fill_more [OF assms(2)]] assms(4) obtain u where
    u: "reaches junk s u" "pc (distribution u) = Drain" "requests_of u = requests_of s" by fastforce
  from draining [OF reaches_lively [OF u(1) assms(1)] u(2)] u(1,3) show ?thesis by (metis reaches_trans)
qed

lemma one_sent:
  assumes "lively s" "pc (distribution s) = Fill"
    and "fst (requests_of s) = [] \<or> length (snd (requests_of s)) = unat (MAX_TRIGGERS_PER_L1MRP (handler (distribution s)))"
  shows "\<exists>v. reaches junk s v \<and> pc (distribution v) = Fill \<and> requests_of v = (fst (requests_of s), [])"
proof -
  from reaches_distribution [OF l1_step.fill_done [OF assms(2)]] assms(3) obtain u where
    u: "reaches junk s u" "pc (distribution u) = Decide" "requests_of u = requests_of s"
    by (fastforce simp: triggers.empty_iff)
  from decided [OF reaches_lively [OF u(1) assms(1)] u(2)] u(1,3) show ?thesis by (metis reaches_trans)
qed

lemma filled:
  assumes "lively s" "pc (distribution s) = Fill"
  shows "\<exists>v. reaches junk s v \<and> pc (distribution v) = Fill \<and> requests_of v = ([], [])"
  using assms
proof (induction "length (fst (requests_of s))" arbitrary: s rule: less_induct)
  case less
  have onward: "\<exists>v. reaches junk u v \<and> pc (distribution v) = Fill \<and> requests_of v = ([], [])"
    if u: "lively u" "pc (distribution u) = Fill" "fst (requests_of u) = fst (requests_of s)" "fst (requests_of s) \<noteq> []"
      "length (snd (requests_of u)) \<noteq> unat (MAX_TRIGGERS_PER_L1MRP (handler (distribution u)))" for u
  proof -
    from one_taken [OF u(1,2) _ u(5), of junk] u(3,4) obtain v where
      v: "reaches junk u v" "pc (distribution v) = Fill" "length (fst (requests_of v)) < length (fst (requests_of s))" by auto
    from less.hyps [OF v(3) reaches_lively [OF v(1) u(1)] v(2)] v(1) show ?thesis by (metis reaches_trans)
  qed
  show ?case
  proof (cases "fst (requests_of s) = [] \<or> length (snd (requests_of s)) = unat (MAX_TRIGGERS_PER_L1MRP (handler (distribution s)))")
    case False
    then show ?thesis using onward [of s] less.prems by simp
  next
    case True
    from one_sent [OF less.prems True, of junk] obtain v where
      v: "reaches junk s v" "pc (distribution v) = Fill" "requests_of v = (fst (requests_of s), [])" by blast
    note live = reaches_lively [OF v(1) less.prems(1)]
    then have "unat (MAX_TRIGGERS_PER_L1MRP (handler (distribution v))) \<noteq> 0" by (simp add: lively_def unflushed_def)
    then show ?thesis
      using onward [OF live v(2)] v by (cases "fst (requests_of s) = []") (auto intro: reaches_trans)
  qed
qed

lemma comes_to_rest:
  assumes "lively s"
  shows "\<exists>v. reaches junk s v \<and> at_rest elems telems v"
proof -
  have "\<exists>u. reaches junk s u \<and> pc (distribution u) = Fill"
  proof (cases "pc (distribution s)")
    case Fill
    then show ?thesis using reaches_refl by blast
  next
    case Drain
    then show ?thesis using draining [OF assms] by blast
  next
    case Discard
    with assms show ?thesis by (simp add: lively_def unflushed_def)
  next
    case Take
    then show ?thesis using taking [OF assms] by blast
  next
    case Decide
    then show ?thesis using decided [OF assms] by blast
  next
    case (Sending b k offset buff hdrs)
    then show ?thesis using packet_can_be_finished [OF assms] by blast
  next
    case (Crashed e)
    with lively_client [OF assms] show ?thesis by (simp add: l1_inv_def Let_def)
  qed
  then obtain u where u: "reaches junk s u" "pc (distribution u) = Fill" by blast
  from filled [OF reaches_lively [OF u(1) assms] u(2), of junk] obtain v where
    v: "reaches junk u v" "pc (distribution v) = Fill" "requests_of v = ([], [])" by blast
  from handlers_drain [OF reaches_lively [OF v(1) reaches_lively [OF u(1) assms]], of junk] obtain w where
    w: "reaches junk v (with_senders v w)" "sender w = (\<lambda>_. Idle)" "elems (asyncSendData (network w)) = []" by blast
  from reaches_trans [OF reaches_trans [OF u(1) v(1)] w(1)] v(2,3) w(2,3) show ?thesis
    by (intro exI conjI) (assumption | simp add: at_rest_def)+
qed

end

section \<open>Everything can be sent\<close>

lemma lively_start:
  assumes "responsive Q elems capacity transmit counted ready threads cs T telems tcap announce hello"
    and "farm_start elems telems ready s" "\<not> flushBurst (distribution s)"
    and "capacity (asyncSendData (network_of s)) \<noteq> Some 0" "0 < unat (MAX_TRIGGERS_PER_L1MRP (handler (distribution s)))"
  shows "responsive.lively elems capacity ready threads telems hello s"
  using farm_start_inv [OF assms(2)] assms(3-5)
  unfolding responsive.lively_def [OF assms(1)] unflushed_def by auto

lemma farm_run_max:
  assumes "farm_run T Q cs junk elems ready transmit counted announce threads s tr u"
  shows "MAX_TRIGGERS_PER_L1MRP (handler (distribution u)) = MAX_TRIGGERS_PER_L1MRP (handler (distribution s))"
  using assms
proof (induction rule: farm_run.induct)
  case (more s a u tr v)
  from more.hyps(1) have "MAX_TRIGGERS_PER_L1MRP (handler (distribution u)) = MAX_TRIGGERS_PER_L1MRP (handler (distribution s))"
    by cases (simp_all add: l1_step_max)
  with more.IH show ?case by simp
qed simp

text \<open>When each thread has sent what it took, the frames sent are the frames taken, in some order.\<close>

lemma sent_are_taken:
  assumes "\<And>t. taken_by t str = sent_by t str"
  shows "mset (all_sent str) = mset (taken_frames str)"
proof (rule multiset_eqI)
  fix x :: "nat \<times> byte list"
  have pair: "filter (\<lambda>y. fst y = t) ys = map (Pair t) (map snd (filter (\<lambda>y. fst y = t) ys))"
    for t and ys :: "(nat \<times> byte list) list"
    by (induction ys) auto
  have "filter (\<lambda>y. fst y = fst x) (all_sent str) = filter (\<lambda>y. fst y = fst x) (taken_frames str)"
    using assms [of "fst x"] unfolding sent_by_all taken_by_def
    by (subst (1 2) pair) simp
  then have "count (filter_mset (\<lambda>y. fst y = fst x) (mset (all_sent str))) x
      = count (filter_mset (\<lambda>y. fst y = fst x) (mset (taken_frames str))) x"
    by (simp flip: mset_filter)
  then show "count (mset (all_sent str)) x = count (mset (taken_frames str)) x" by simp
qed

text \<open>
  From every state of every run without a flush the library's own threads can go on, without a further
  request or announcement, until everything accepted has been sent.
\<close>

lemma run_can_finish:
  assumes "responsive Q elems capacity transmit counted ready threads cs T telems tcap announce hello"
    and "farm_start elems telems ready s" "\<not> flushBurst (distribution s)"
    and "capacity (asyncSendData (network_of s)) \<noteq> Some 0" "0 < unat (MAX_TRIGGERS_PER_L1MRP (handler (distribution s)))"
    and "farm_run T Q cs junk elems ready transmit counted announce threads s tr u" "Distribution (SetFlush True) \<notin> set tr"
  shows "\<exists>tr' v ps fs. farm_run T Q cs junk elems ready transmit counted announce threads u tr' v
    \<and> (\<forall>a \<in> set tr'. library_step a) \<and> at_rest elems telems v
    \<and> concat (map rev ps) = requested (distributed tr)
    \<and> (\<forall>p \<in> set ps. 1 \<le> length p \<and> length p \<le> unat (MAX_TRIGGERS_PER_L1MRP (handler (distribution s))))
    \<and> list_all2 (carries cs) (due (request_hdrs (distribution s)) ps) fs
    \<and> map snd (taken_frames (handled (tr @ tr'))) \<in> shuffles fs (announced tr)
    \<and> (\<forall>t. taken_by t (handled (tr @ tr')) = sent_by t (handled (tr @ tr')))
    \<and> mset (map snd (all_sent (handled (tr @ tr')))) = mset fs + mset (announced tr)
    \<and> (\<forall>x \<in> set (all_sent (handled (tr @ tr'))). fst x < threads)"
proof -
  note d = responsive.axioms(1) [OF assms(1)]
  note lively = responsive.lively_run [OF assms(1,6) lively_start [OF assms(1-5)] assms(7)]
  from responsive.comes_to_rest [OF assms(1) conjunct1 [OF lively], of junk] obtain tr' v where
    go: "farm_run T Q cs junk elems ready transmit counted announce threads u tr' v" "\<forall>a \<in> set tr'. library_step a"
    and rest: "at_rest elems telems v"
    unfolding responsive.reaches_def [OF assms(1)] by blast
  note run = responsive.farm_run_append [OF assms(1,6) go(1)]
  let ?B = "fold batcher_step (distributed (tr @ tr')) no_batches"
  note f = delivered [OF d assms(2) run]
  have his: "requested (distributed (tr @ tr')) = requested (distributed tr)" "announced (tr @ tr') = announced tr"
    using library_histories [OF go(2)] by (simp_all add: histories_farm requested_append)
  have "Distribution (SetFlush True) \<notin> set (tr @ tr')" using assms(7) library_histories [OF go(2)] by auto
  with responsive.lively_run [OF assms(1) run lively_start [OF assms(1-5)]]
  have "in_order ?B = requested (distributed tr)" using f(4) his(1) by simp
  moreover have "asked ?B = []" "taken ?B = []" using f(2) rest by (simp_all add: implements_def at_rest_def)
  ultimately have ps: "concat (map rev (packets ?B)) = requested (distributed tr)" by (simp add: in_order_def)
  obtain fs where fs: "list_all2 (carries cs) (due (request_hdrs (distribution s)) (packets ?B)) fs"
    "map snd (taken_frames (handled (tr @ tr'))) \<in> shuffles fs (announced tr)"
    using f(8) rest his(2) by (auto simp: at_rest_def)
  have same: "taken_by t (handled (tr @ tr')) = sent_by t (handled (tr @ tr'))" for t
    using f(9) [of t] rest by (simp add: at_rest_def)
  note sent = sent_are_taken [OF this]
  have "mset (map snd (all_sent (handled (tr @ tr')))) = mset (map snd (taken_frames (handled (tr @ tr'))))"
    using sent by (simp only: mset_map)
  also have "\<dots> = mset fs + mset (announced tr)" by (rule mset_shuffles [OF fs(2)])
  finally have all: "mset (map snd (all_sent (handled (tr @ tr')))) = mset fs + mset (announced tr)" .
  have "set (all_sent (handled (tr @ tr'))) = set (taken_frames (handled (tr @ tr')))" using sent by (rule mset_eq_setD)
  with f(10) have threads: "\<forall>x \<in> set (all_sent (handled (tr @ tr'))). fst x < threads" by simp
  have "\<forall>p \<in> set (packets ?B). 1 \<le> length p \<and> length p \<le> unat (MAX_TRIGGERS_PER_L1MRP (handler (distribution s)))"
    using f(2) farm_run_max [OF run] by (simp add: implements_def)
  with go rest ps fs same all threads show ?thesis by blast
qed

end
