(* ===== verification/L1Delivery.thy ===== *)
theory L1Delivery
  imports FarmLiveness
begin

text \<open>
  What becomes of a request on its way from the event builder to the back end, with all threads of the
  library at work: the farm of \<open>FarmThreads\<close> on both back ends, and a run of it.
\<close>

section \<open>Both back ends\<close>

lemma delivery_pfring:
  assumes "send_queue Q elems capacity" "inet_checksum cs" "tbb_fifo T telems tcap"
  shows "delivery Q elems capacity (pfring_transmit api junk) (\<lambda>n. n) (pfring_ready threads mac addr) threads
    cs T telems tcap (announce_pfring Q junk') (arp_announcement mac addr)"
  using transmitter_pfring_at [OF assms(1), where P = "\<lambda>m a. m = mac \<and> a = addr \<and> length mac = 6"] assms(2,3)
  by (intro delivery.intro announcer_pfring) simp_all

lemma delivery_pcap:
  assumes "send_queue Q elems capacity" "inet_checksum cs" "tbb_fifo T telems tcap"
  shows "delivery Q elems capacity (pcap_transmit api :: _ \<Rightarrow> _ \<Rightarrow> _ \<Rightarrow> ('q, 'k) PCapHandler \<Rightarrow> _) pcap_counted (pcap_ready mac addr)
    threads cs T telems tcap (announce_pcap Q junk) (arp_announcement mac addr)"
  using transmitter_pcap_at [OF assms(1), where P = "\<lambda>m a. m = mac \<and> a = addr \<and> length mac = 6"] assms(2,3)
  by (intro delivery.intro announcer_pcap) simp_all

interpretation pfring_delivery: delivery list_queue fst snd "pfring_transmit api junk" "\<lambda>n. n"
    "pfring_ready threads mac addr" threads rfc1071 list_queue fst snd "announce_pfring list_queue junk'" "arp_announcement mac addr"
  for api junk threads mac addr junk'
  by (rule delivery_pfring [OF list_send_queue.send_queue_axioms rfc1071.inet_checksum_axioms list_queue.tbb_fifo_axioms])

interpretation pcap_delivery: delivery list_queue fst snd "pcap_transmit api" pcap_counted "pcap_ready mac addr" threads
    rfc1071 list_queue fst snd "announce_pcap list_queue junk" "arp_announcement mac addr"
  for api mac addr threads junk
  by (rule delivery_pcap [OF list_send_queue.send_queue_axioms rfc1071.inet_checksum_axioms list_queue.tbb_fifo_axioms])

text \<open>The calls of the packet socket return; those of pf_ring do when the library accepts frames.\<close>

lemma responsive_pfring:
  fixes Q :: "(DataContainer, 'q) tbb_queue" and api :: "'r pfring_api"
  assumes "send_queue Q elems capacity" "inet_checksum cs" "tbb_fifo T telems tcap" "accepting api" "0 < threads"
  shows "responsive Q elems capacity (pfring_transmit api junk) (\<lambda>n. n) (pfring_ready threads mac addr) threads
    cs T telems tcap (announce_pfring Q junk') (arp_announcement mac addr)"
proof (intro responsive.intro delivery_pfring assms responsive_axioms.intro)
  fix t and len :: u32 and pkt :: "byte list" and n :: "('q, 'r) PFringHandler"
  assume a: "t < threads" "pfring_ready threads mac addr n" "heap_ok (bufs n)" "unat len \<le> length pkt"
  then have "t < length (queueRings n)" by simp
  from SendFrameConcurrently_spec [OF a(3) this a(4), of api junk True True]
    accepting_returns [OF assms(4), of "queueRings n ! t" "on_wire pkt (unat len)" True True "lib n"]
  show "SendFrameConcurrently api junk t pkt len True True n \<noteq> None" by auto
qed

lemma responsive_pcap:
  assumes "send_queue Q elems capacity" "inet_checksum cs" "tbb_fifo T telems tcap" "0 < threads"
  shows "responsive Q elems capacity (pcap_transmit api :: _ \<Rightarrow> _ \<Rightarrow> _ \<Rightarrow> ('q, 'k) PCapHandler \<Rightarrow> _) pcap_counted (pcap_ready mac addr)
    threads cs T telems tcap (announce_pcap Q junk) (arp_announcement mac addr)"
  by (intro responsive.intro delivery_pcap assms responsive_axioms.intro) (simp_all add: SendFrameConcurrently_pcap_def Let_def)

text \<open>What is emitted: a call of \<open>sendto\<close>, or of \<open>send_packet\<close> on the thread's ring.\<close>

definition kernel_side :: "('q, 'k) PCapHandler \<Rightarrow> int \<times> int \<times> 'k" where
  "kernel_side n = (socket_fd n, sll_ifindex n, kernel n)"

fun kernel_sends :: "'k kernel_api \<Rightarrow> nat \<Rightarrow> byte list \<Rightarrow> int \<times> int \<times> 'k \<Rightarrow> int \<times> int \<times> 'k" where
  "kernel_sends api t bs (fd, i, k) = (fd, i, snd (sys_sendto api fd i bs k))"

definition ring_side :: "('q, 'r) PFringHandler \<Rightarrow> PFring list \<times> 'r" where
  "ring_side n = (queueRings n, lib n)"

fun ring_sends :: "'r pfring_api \<Rightarrow> nat \<Rightarrow> byte list \<Rightarrow> PFring list \<times> 'r \<Rightarrow> PFring list \<times> 'r" where
  "ring_sends api t bs (rings, r) = (rings, snd (the (send_packet api (rings ! t) (on_wire bs (length bs)) True True r)))"

lemma on_wire_take: "n \<le> length pkt \<Longrightarrow> on_wire (take n pkt) (length (take n pkt)) = on_wire pkt n"
  by (simp add: on_wire_def)

lemma observed_pfring:
  assumes "send_queue Q elems capacity" "inet_checksum cs" "tbb_fifo T telems tcap"
  shows "observed Q elems capacity (pfring_transmit api junk) (\<lambda>n. n) (pfring_ready threads mac addr) threads
    cs T telems tcap (announce_pfring Q junk') (arp_announcement mac addr) ring_side (ring_sends api)"
proof (intro observed.intro delivery_pfring assms observed_axioms.intro)
  fix t len pkt k and n n' :: "('a, 'c) PFringHandler"
  assume a: "t < threads" "pfring_ready threads mac addr n" "heap_ok (bufs n)" "unat len \<le> length pkt"
    and r: "SendFrameConcurrently api junk t pkt len True True n = Some (Inr (k, n'))"
  then have "t < length (queueRings n)" by simp
  from SendFrameConcurrently_spec [OF a(3) this a(4), of api junk True True] obtain h where
    "SendFrameConcurrently api junk t pkt len True True n =
      (case send_packet api (queueRings n ! t) (on_wire pkt (unat len)) True True (lib n) of
         None \<Rightarrow> None
       | Some (rc, r) \<Rightarrow> Some (Inr (rc, n\<lparr>framesSent := framesSent n + 1, bufs := h, lib := r\<rparr>)))" by blast
  with r on_wire_take [OF a(4)] show "ring_side n' = ring_sends api t (take (unat len) pkt) (ring_side n)"
    by (auto simp: ring_side_def split: option.splits)
qed (simp_all add: ring_side_def)

lemma observed_pcap:
  assumes "send_queue Q elems capacity" "inet_checksum cs" "tbb_fifo T telems tcap"
  shows "observed Q elems capacity (pcap_transmit api :: _ \<Rightarrow> _ \<Rightarrow> _ \<Rightarrow> ('q, 'k) PCapHandler \<Rightarrow> _) pcap_counted (pcap_ready mac addr)
    threads cs T telems tcap (announce_pcap Q junk) (arp_announcement mac addr) kernel_side (kernel_sends api)"
  by (intro observed.intro delivery_pcap assms observed_axioms.intro)
     (auto simp: kernel_side_def SendFrameConcurrently_pcap_def Let_def)

interpretation pfring_wire: observed list_queue fst snd "pfring_transmit api junk" "\<lambda>n. n"
    "pfring_ready threads mac addr" threads rfc1071 list_queue fst snd "announce_pfring list_queue junk'" "arp_announcement mac addr"
    ring_side "ring_sends api"
  for api junk threads mac addr junk'
  by (rule observed_pfring [OF list_send_queue.send_queue_axioms rfc1071.inet_checksum_axioms list_queue.tbb_fifo_axioms])

interpretation pcap_wire: observed list_queue fst snd "pcap_transmit api" pcap_counted "pcap_ready mac addr" threads
    rfc1071 list_queue fst snd "announce_pcap list_queue junk" "arp_announcement mac addr" kernel_side "kernel_sends api"
  for api mac addr threads junk
  by (rule observed_pcap [OF list_send_queue.send_queue_axioms rfc1071.inet_checksum_axioms list_queue.tbb_fifo_axioms])

section \<open>Requests reach the back end\<close>

text \<open>
  One packet handler thread, interleaved in any way with the distribution thread, the ARP thread and the
  requests: once everything has come to rest without a flush, the frames it handed over carry the accepted
  requests.
\<close>

lemma delivered_at_rest:
  assumes "delivery Q elems capacity transmit counted ready 1 cs T telems tcap announce hello"
    and "farm_start elems telems ready s" and "farm_run T Q cs junk elems ready transmit counted announce 1 s tr u"
    and "pc (distribution u) = Fill" "multicastRequests (distribution u) = []"
      "telems (multicastMRPQueue (handler (distribution u))) = []" "elems (asyncSendData (network_of u)) = []"
      "packet_handler u 0 = Idle" "\<forall>p. Discarded p \<notin> set (distributed tr)"
  obtains ps fs where "concat (map rev ps) = requested (distributed tr)"
    "\<forall>p \<in> set ps. 1 \<le> length p \<and> length p \<le> unat (MAX_TRIGGERS_PER_L1MRP (handler (distribution u)))"
    "list_all2 (carries cs) (due (request_hdrs (distribution s)) ps) fs"
    "map snd (all_sent (handled tr)) \<in> shuffles fs (announced tr)" "set (announced tr) \<subseteq> {hello}"
    "\<forall>x \<in> set (all_sent (handled tr)). fst x = 0"
proof -
  let ?B = "fold batcher_step (distributed tr) no_batches"
  note d = delivered [OF assms(1-3)]
  have zero: "\<forall>x \<in> set (all_sent (handled tr)). fst x = 0"
  proof
    fix x assume x: "x \<in> set (all_sent (handled tr))"
    then have "sent_by (fst x) (handled tr) \<noteq> []" by (auto simp: sent_by_all filter_empty_conv)
    with d(9) [of "fst x"] have "filter (\<lambda>y. fst y = fst x) (taken_frames (handled tr)) \<noteq> []" by (auto simp: taken_by_def)
    with d(10) show "fst x = 0" by (fastforce simp: filter_empty_conv)
  qed
  then have all: "sent_by 0 (handled tr) = map snd (all_sent (handled tr))"
    unfolding sent_by_all by (simp add: filter_id_conv)
  have "filter (\<lambda>x. fst x = 0) (taken_frames (handled tr)) = taken_frames (handled tr)"
    using d(10) by (intro filter_True) auto
  then have sent: "map snd (taken_frames (handled tr)) = map snd (all_sent (handled tr))"
    using d(9) [of 0] assms(8) all by (simp add: taken_by_def)
  have "asked ?B = []" "taken ?B = []" using d(2) assms(5,6) by (simp_all add: implements_def)
  then have "concat (map rev (packets ?B)) = requested (distributed tr)"
    using d(4) assms(9) by (simp add: in_order_def)
  moreover have "\<forall>p \<in> set (packets ?B). 1 \<le> length p \<and> length p \<le> unat (MAX_TRIGGERS_PER_L1MRP (handler (distribution u)))"
    using d(2) by (simp add: implements_def)
  moreover obtain fs where "list_all2 (carries cs) (due (request_hdrs (distribution s)) (packets ?B)) fs"
    "map snd (all_sent (handled tr)) \<in> shuffles fs (announced tr)"
    using d(8) assms(4,7) sent by auto
  ultimately show ?thesis using d(7) zero by (rule that)
qed

lemma emitted_kernel:
  "fold (\<lambda>(t, bs). kernel_sends api t bs) xs (fd, i, k)
     = (fd, i, fold (\<lambda>bs k. snd (sys_sendto api fd i bs k)) (map snd xs) k)"
  by (induction xs arbitrary: k) auto

lemma emitted_ring:
  "\<forall>x \<in> set xs. fst x = 0 \<Longrightarrow> fold (\<lambda>(t, bs). ring_sends api t bs) xs (rings, r)
     = (rings, fold (\<lambda>bs r. snd (the (send_packet api (rings ! 0) (on_wire bs (length bs)) True True r))) (map snd xs) r)"
  by (induction xs arbitrary: r) auto

text \<open>
  C1: From the event builders to the kernel, on the packet socket: with one packet handler thread,
  interleaved in any way with the distribution thread, the ARP thread and the requests, and once everything
  has come to rest without a flush, the kernel has seen one \<open>sendto\<close> on the socket for each frame and nothing
  else. The frames are the announcements of the ARP thread, all the same, and between them in order one frame
  per packet and destination, packet by packet and destination by destination, each carrying exactly
  the triggers of its packet with good headers and checksums; no packet is empty or longer than
  \<open>MAX_TRIGGERS_PER_L1MRP\<close>; and the packets, each read from its end, are together the accepted requests in
  their order, none lost, doubled or moved.
\<close>

theorem requests_reach_kernel:
  fixes s u :: "('tq, ('q, 'k) PCapHandler) farm"
  assumes "send_queue Q elems capacity" "inet_checksum cs" "tbb_fifo T telems tcap"
    and "farm_start elems telems (pcap_ready mac addr) s"
    and "farm_run T Q cs junk elems (pcap_ready mac addr) (pcap_transmit api) pcap_counted (announce_pcap Q junk') 1 s tr u"
    and "pc (distribution u) = Fill" "multicastRequests (distribution u) = []"
      "telems (multicastMRPQueue (handler (distribution u))) = []" "elems (asyncSendData (network_of u)) = []"
      "packet_handler u 0 = Idle" "\<forall>p. Discarded p \<notin> set (distributed tr)"
  shows "\<exists>ps fs frames. concat (map rev ps) = requested (distributed tr)
    \<and> (\<forall>p \<in> set ps. 1 \<le> length p \<and> length p \<le> unat (MAX_TRIGGERS_PER_L1MRP (handler (distribution u))))
    \<and> list_all2 (carries cs) (due (request_hdrs (distribution s)) ps) fs
    \<and> frames \<in> shuffles fs (announced tr) \<and> set (announced tr) \<subseteq> {arp_announcement mac addr}
    \<and> kernel (network_of u) = fold (\<lambda>bs k. snd (sys_sendto api (socket_fd (network_of s)) (sll_ifindex (network_of s)) bs k))
        frames (kernel (network_of s))"
proof -
  note st = farm_start_inv [OF assms(4)]
  have "kernel_side (network_of u) = fold (\<lambda>(t, bs). kernel_sends api t bs) (all_sent (handled tr)) (kernel_side (network_of s))"
    by (rule observed.wire_run [OF observed_pcap [OF assms(1-3)] assms(5) st(1-3)])
  then have "kernel (network_of u) = fold (\<lambda>bs k. snd (sys_sendto api (socket_fd (network_of s)) (sll_ifindex (network_of s)) bs k))
      (map snd (all_sent (handled tr))) (kernel (network_of s))"
    by (simp add: kernel_side_def emitted_kernel)
  with delivered_at_rest [OF delivery_pcap [OF assms(1-3)] assms(4-11)] show ?thesis by metis
qed

text \<open>
  C2: The same on pf_ring: at rest, the library has seen one \<open>send_packet\<close> on ring 0 for each frame, with
  zeros up to 60 bytes where the frame is shorter, and nothing else. The ARP thread of this back end builds
  its frame once and sends it again and again.
\<close>

theorem requests_reach_ring:
  fixes s u :: "('tq, ('q, 'r) PFringHandler) farm"
  assumes "send_queue Q elems capacity" "inet_checksum cs" "tbb_fifo T telems tcap"
    and "farm_start elems telems (pfring_ready 1 mac addr) s"
    and "farm_run T Q cs junk elems (pfring_ready 1 mac addr) (pfring_transmit api junk1) (\<lambda>n. n) (announce_pfring Q junk2) 1 s tr u"
    and "pc (distribution u) = Fill" "multicastRequests (distribution u) = []"
      "telems (multicastMRPQueue (handler (distribution u))) = []" "elems (asyncSendData (network_of u)) = []"
      "packet_handler u 0 = Idle" "\<forall>p. Discarded p \<notin> set (distributed tr)"
  shows "\<exists>ps fs frames. concat (map rev ps) = requested (distributed tr)
    \<and> (\<forall>p \<in> set ps. 1 \<le> length p \<and> length p \<le> unat (MAX_TRIGGERS_PER_L1MRP (handler (distribution u))))
    \<and> list_all2 (carries cs) (due (request_hdrs (distribution s)) ps) fs
    \<and> frames \<in> shuffles fs (announced tr) \<and> set (announced tr) \<subseteq> {arp_announcement mac addr}
    \<and> queueRings (network_of u) = queueRings (network_of s)
    \<and> lib (network_of u) = fold (\<lambda>bs r. snd (the (send_packet api (hd (queueRings (network_of s))) (on_wire bs (length bs)) True True r)))
        frames (lib (network_of s))"
proof -
  note st = farm_start_inv [OF assms(4)]
  have "1 \<le> length (queueRings (network_of s))" using st(1) by (simp add: farm_inv_def l1_inv_def Let_def)
  then have hd: "queueRings (network_of s) ! 0 = hd (queueRings (network_of s))" by (cases "queueRings (network_of s)") simp_all
  obtain ps fs where ps: "concat (map rev ps) = requested (distributed tr)"
    "\<forall>p \<in> set ps. 1 \<le> length p \<and> length p \<le> unat (MAX_TRIGGERS_PER_L1MRP (handler (distribution u)))"
    "list_all2 (carries cs) (due (request_hdrs (distribution s)) ps) fs"
    "map snd (all_sent (handled tr)) \<in> shuffles fs (announced tr)" "set (announced tr) \<subseteq> {arp_announcement mac addr}"
    and zero: "\<forall>x \<in> set (all_sent (handled tr)). fst x = 0"
    by (rule delivered_at_rest [OF delivery_pfring [OF assms(1-3)] assms(4-11)])
  have "ring_side (network_of u) = fold (\<lambda>(t, bs). ring_sends api t bs) (all_sent (handled tr)) (ring_side (network_of s))"
    by (rule observed.wire_run [OF observed_pfring [OF assms(1-3)] assms(5) st(1-3)])
  then have "queueRings (network_of u) = queueRings (network_of s)
    \<and> lib (network_of u) = fold (\<lambda>bs r. snd (the (send_packet api (hd (queueRings (network_of s))) (on_wire bs (length bs)) True True r)))
      (map snd (all_sent (handled tr))) (lib (network_of s))"
    unfolding ring_side_def emitted_ring [OF zero, of api] by (simp add: hd)
  with ps show ?thesis by blast
qed

text \<open>
  C9: At every moment, with any number of packet handler threads: no thread touches memory that is not
  allocated; the frames taken from the queue and those still in it are, in order, one good frame for each
  destination already served of each packet made, and between them the announcements of the ARP thread; each
  thread hands over what it takes, in its order; and the triggers in packets, vector and queue are the
  accepted requests in order without the discarded ones.
\<close>

theorem frames_accounted:
  assumes "delivery Q elems capacity transmit counted ready threads cs T telems tcap announce hello"
    and "farm_start elems telems ready s" and "farm_run T Q cs junk elems ready transmit counted announce threads s tr u"
  shows "(\<forall>e. pc (distribution u) \<noteq> Crashed e) \<and> (\<forall>t e. PacketHandler (Crash t e) \<notin> set tr) \<and> (\<forall>e. ArpFault e \<notin> set tr)
    \<and> set (announced tr) \<subseteq> {hello}
    \<and> (\<exists>fs. list_all2 (carries cs)
          (handed_out (request_hdrs (distribution s)) (pc (distribution u)) (packets (fold batcher_step (distributed tr) no_batches))) fs
        \<and> map snd (taken_frames (handled tr)) @ map (bytes_of (network_of u)) (elems (asyncSendData (network_of u)))
          \<in> shuffles fs (announced tr))
    \<and> (\<forall>t. taken_by t (handled tr) = sent_by t (handled tr) @ to_hand (network_of u) (packet_handler u t))
    \<and> subseq (in_order (fold batcher_step (distributed tr) no_batches)) (requested (distributed tr))"
proof -
  note d = delivered [OF assms]
  have "pc (distribution u) \<noteq> Crashed e" for e using d(1) by (auto simp: farm_inv_def l1_inv_def Let_def)
  with d(3,5-9) show ?thesis by blast
qed

text \<open>
  When the library accepts frames, a frame that the wrapper does not refuse is one call of its \<open>pfring_send\<close>.
\<close>

lemma send_packet_accepted:
  assumes "accepting api" "ring p = Some k" "length pkt \<le> 1500"
  shows "send_packet api p pkt flush ap r = Some (pfring_send api k pkt flush r)"
proof -
  obtain rc r' where "pfring_send api k pkt flush r = (rc, r')" by fastforce
  moreover from this assms(1) have "0 \<le> rc" by (metis accepting_def fst_conv)
  ultimately show ?thesis using assms(2,3) by (simp add: send_packet_def send_loop.simps)
qed

lemma emitted_accepted:
  assumes "accepting api"
    and "\<forall>x \<in> set xs. ring (rings ! fst x) \<noteq> None \<and> length (snd x) \<le> 1500"
  shows "fold (\<lambda>(t, bs). ring_sends api t bs) xs (rings, r)
     = (rings, fold (\<lambda>(t, bs) r. snd (pfring_send api (the (ring (rings ! t))) (on_wire bs (length bs)) True r)) xs r)"
  using assms(2)
proof (induction xs arbitrary: r)
  case (Cons x xs)
  obtain t bs where x: "x = (t, bs)" by fastforce
  then obtain k where k: "ring (rings ! t) = Some k" using Cons.prems by auto
  have "length (on_wire bs (length bs)) \<le> 1500" using Cons.prems x by (simp add: length_on_wire)
  from send_packet_accepted [OF assms(1) k this] Cons x k show ?case by simp
qed simp

text \<open>Frames of at most 120 triggers, and announcements, are short enough.\<close>

lemma due_packets: "x \<in> set (due hdrs ps) \<Longrightarrow> snd x \<in> set ps"
  by (auto simp: due_def)

lemma carries_short:
  assumes "list_all2 (carries cs) (due hdrs ps) fs" "\<forall>p \<in> set ps. length p \<le> 120" "f \<in> set fs"
  shows "length f \<le> 1500"
proof -
  obtain x where x: "x \<in> set (due hdrs ps)" "carries cs x f"
    using assms(1,3) by (metis in_set_conv_nth list_all2_conv_all_nth nth_mem)
  have "length (concat (map pack_TRIGGER_RAW_HDR (snd x))) = 12 * length (snd x)"
    by (simp add: length_concat comp_def sum_list_triv trigger.length_pack)
  moreover have "length (snd x) \<le> 120" using assms(2) due_packets [OF x(1)] by blast
  ultimately show ?thesis using x(2) by (simp add: carries_def mrp_frame_ok_def Let_def)
qed

text \<open>
  C3: Everything can be sent, on pf_ring with any number of packet handler threads. Suppose the library accepts
  frames, the rings are open, packets have at least one and at most 120 triggers (with more the wrapper refuses
  them), the send queue has some capacity and no burst is flushed. Then from every state that event builders,
  ARP thread, distribution thread and packet handler threads can reach together, the library's own threads can
  go on, with no further request or announcement, until nothing is left to do; and then every request accepted
  by then (pushed to the queue) has been packed, in order, in frames for every destination, and since the start
  the library has been called, \<open>pfring_send\<close> on the sending thread's ring, exactly once for each of these frames and each
  announcement, padded to 60 bytes, and for nothing else. Each thread hands over what it took in its order.
\<close>

theorem everything_can_be_sent:
  fixes s u :: "('tq, ('q, 'r) PFringHandler) farm"
  assumes "send_queue Q elems capacity" "inet_checksum cs" "tbb_fifo T telems tcap" "accepting api" "0 < threads"
    and "farm_start elems telems (pfring_ready threads mac addr) s" "\<not> flushBurst (distribution s)"
    and "capacity (asyncSendData (network_of s)) \<noteq> Some 0"
      "0 < unat (MAX_TRIGGERS_PER_L1MRP (handler (distribution s)))"
    and "farm_run T Q cs junk elems (pfring_ready threads mac addr) (pfring_transmit api junk1) (\<lambda>n. n)
      (announce_pfring Q junk2) threads s tr u" "Distribution (SetFlush True) \<notin> set tr"
    and "unat (MAX_TRIGGERS_PER_L1MRP (handler (distribution s))) \<le> 120"
      "\<forall>t < threads. ring (queueRings (network_of s) ! t) \<noteq> None"
  shows "\<exists>tr' v ps fs. farm_run T Q cs junk elems (pfring_ready threads mac addr) (pfring_transmit api junk1) (\<lambda>n. n)
      (announce_pfring Q junk2) threads u tr' v
    \<and> (\<forall>a \<in> set tr'. library_step a) \<and> at_rest elems telems v
    \<and> concat (map rev ps) = requested (distributed tr)
    \<and> list_all2 (carries cs) (due (request_hdrs (distribution s)) ps) fs
    \<and> map snd (taken_frames (handled (tr @ tr'))) \<in> shuffles fs (announced tr)
    \<and> (\<forall>t. taken_by t (handled (tr @ tr')) = sent_by t (handled (tr @ tr')))
    \<and> mset (map snd (all_sent (handled (tr @ tr')))) = mset fs + mset (announced tr)
    \<and> lib (network_of v) = fold (\<lambda>(t, bs) r. snd (pfring_send api (the (ring (queueRings (network_of s) ! t)))
          (on_wire bs (length bs)) True r)) (all_sent (handled (tr @ tr'))) (lib (network_of s))"
proof -
  note resp = responsive_pfring [OF assms(1-5), of junk1 mac addr junk2]
  obtain tr' v ps fs where go: "farm_run T Q cs junk elems (pfring_ready threads mac addr) (pfring_transmit api junk1) (\<lambda>n. n)
      (announce_pfring Q junk2) threads u tr' v" "\<forall>a \<in> set tr'. library_step a" "at_rest elems telems v"
    "concat (map rev ps) = requested (distributed tr)"
    and len: "\<forall>p \<in> set ps. 1 \<le> length p \<and> length p \<le> unat (MAX_TRIGGERS_PER_L1MRP (handler (distribution s)))"
    and fs: "list_all2 (carries cs) (due (request_hdrs (distribution s)) ps) fs"
      "map snd (taken_frames (handled (tr @ tr'))) \<in> shuffles fs (announced tr)"
      "\<forall>t. taken_by t (handled (tr @ tr')) = sent_by t (handled (tr @ tr'))"
    and all: "mset (map snd (all_sent (handled (tr @ tr')))) = mset fs + mset (announced tr)"
      "\<forall>x \<in> set (all_sent (handled (tr @ tr'))). fst x < threads"
    using run_can_finish [OF resp assms(6-11)] by blast
  note run = responsive.farm_run_append [OF resp assms(10) go(1)]
  note st = farm_start_inv [OF assms(6)]
  have six: "length mac = 6" using st(1) by (simp add: farm_inv_def l1_inv_def Let_def)
  have short: "length bs \<le> 1500" if "x \<in> set (all_sent (handled (tr @ tr')))" "snd x = bs" for x bs
  proof -
    have "bs \<in># mset fs + mset (announced tr)" using that unfolding all(1) [symmetric] by auto
    then consider "bs \<in> set fs" | "bs \<in> set (announced tr)" by auto
    then show ?thesis
    proof cases
      case 1
      have "\<forall>p \<in> set ps. length p \<le> 120" using len assms(12) by fastforce
      from carries_short [OF fs(1) this 1] show ?thesis .
    next
      case 2
      with delivered(7) [OF delivery_pfring [OF assms(1-3)] assms(6,10)] have "bs = arp_announcement mac addr" by auto
      with length_arp_announcement [OF six] show ?thesis by simp
    qed
  qed
  have "ring_side (network_of v) = fold (\<lambda>(t, bs). ring_sends api t bs) (all_sent (handled (tr @ tr'))) (ring_side (network_of s))"
    by (rule observed.wire_run [OF observed_pfring [OF assms(1-3)] run st(1-3)])
  also have "\<dots> = (queueRings (network_of s), fold (\<lambda>(t, bs) r. snd (pfring_send api (the (ring (queueRings (network_of s) ! t)))
          (on_wire bs (length bs)) True r)) (all_sent (handled (tr @ tr'))) (lib (network_of s)))"
    unfolding ring_side_def using assms(13) all(2) short by (intro emitted_accepted [OF assms(4)]) blast
  finally show ?thesis using go fs all(1) unfolding ring_side_def by blast
qed

section \<open>A run from request to wire\<close>

text \<open>The farm at rest on any network handler, with one destination.\<close>

definition farm_on :: "'n \<Rightarrow> (nat list \<times> nat option, 'n) farm" where
  "farm_on n = \<lparr>distribution = \<lparr>handler = \<lparr>multicastMRPQueue = ([], None), trigger_heap = \<lparr>fresh = 1, live = Map.empty\<rparr>,
      L1_MulticastRequestHdrs = [example_header], L1_UnicastRequestHdrs = [],
      L1_UnicastRequestHdr = None, L1TriggersSent = 0, L1MRPsSent = 0,
      MAX_TRIGGERS_PER_L1MRP = 2, MIN_USEC_BETWEEN_L1_REQUESTS = 1000, net = n\<rparr>,
    flushBurst = False, pc = Fill, multicastRequests = [], admitted = [], holding = []\<rparr>, packet_handler = \<lambda>_. Idle, arp_frame = None\<rparr>"

text \<open>
  A back end on which the ARP thread can always make a step while the queue has no bound. \<open>start\<close> is the
  handler before the run.
\<close>

locale answering = responsive list_queue fst snd transmit counted ready 1 rfc1071 list_queue fst snd announce hello
  for transmit :: "nat \<Rightarrow> byte list \<Rightarrow> u32 \<Rightarrow> (DataContainer list \<times> nat option, 'm) NetworkHandler_scheme
      \<Rightarrow> (int \<times> (DataContainer list \<times> nat option, 'm) NetworkHandler_scheme) res option"
    and counted ready announce hello +
  fixes start :: "(DataContainer list \<times> nat option, 'm) NetworkHandler_scheme"
  assumes announce_returns: "ready n \<Longrightarrow> heap_ok (bufs n) \<Longrightarrow> snd (asyncSendData n) = None \<Longrightarrow>
      \<forall>c. a = Some c \<longrightarrow> container_ok (bufs n) c \<and> \<not> ownerMayFreeData c \<and> bytes_of n c = hello \<Longrightarrow> announce a n \<noteq> None"
    and start_ok: "ready start" "heap_ok (bufs start)" "asyncSendData start = ([], None)"
begin

abbreviation run_to :: "farm_label list \<Rightarrow> (nat list \<times> nat option, (DataContainer list \<times> nat option, 'm) NetworkHandler_scheme) farm \<Rightarrow> bool" where
  "run_to \<equiv> farm_run list_queue list_queue rfc1071 (\<lambda>_ _. 0) fst ready transmit counted announce 1 (farm_on start)"

lemma start_farm: "farm_start fst fst ready (farm_on start)"
  using start_ok
  by (simp add: farm_start_def l1_start_def farm_on_def queue_safe_def request_hdr_ok_example) (simp add: heap_ok_def)

lemma run_inv: "run_to tr u \<Longrightarrow> finv u"
  by (rule delivered(1) [OF delivery_axioms start_farm])

text \<open>A request.\<close>

lemma distribution_run:
  "l1_run T' Q' cs' junk (\<lambda>_. None) l atr l' \<Longrightarrow> distribution s = l \<Longrightarrow>
     farm_run T' Q' cs' junk elems' ready' transmit' counted' announce' threads' s (map Distribution atr) (s\<lparr>distribution := l'\<rparr>)"
proof (induction arbitrary: s rule: l1_run.induct)
  case (stop l)
  then show ?case by (metis farm.surjective farm.update_convs(1) farm_run.stop list.simps(8))
next
  case (more l a t atr u)
  from farm_run.more [OF farm_step.distribute [where s = s] more.IH [of "s\<lparr>distribution := t\<rparr>"]] more.hyps(1) more.prems
  show ?case by simp
qed

lemma run_request:
  "\<exists>u. run_to (map Distribution example_requests) u \<and> asyncSendData (network_of u) = ([], None) \<and> arp_frame u = None"
proof -
  let ?s = "distribution (farm_on start)"
  have "\<not> flushBurst ?s" "multicastMRPQueue (handler ?s) = ([], None)" by (simp_all add: farm_on_def)
  from request_run [OF this, where Q = list_queue and cs = rfc1071 and junk = "\<lambda>_ _. 0" and send_next = "\<lambda>_. None"
      and event = example_event and z = False]
  obtain h p where "l1_run list_queue list_queue rfc1071 (\<lambda>_ _. 0) (\<lambda>_. None) ?s example_requests
      (?s\<lparr>handler := (handler ?s)\<lparr>trigger_heap := h, multicastMRPQueue := ([p], None)\<rparr>\<rparr>)" by auto
  from distribution_run [OF this refl] show ?thesis
    by (intro exI conjI) (assumption | simp add: farm_on_def start_ok)+
qed

text \<open>A step of the ARP thread: it enqueues a frame, unless it is the step that makes the frame it keeps.\<close>

lemma run_announce:
  assumes "run_to tr u" "asyncSendData (network_of u) = (ds, None)"
  shows "\<exists>v fs es. run_to (tr @ [Announced fs]) v \<and> (fs \<noteq> [] \<or> arp_frame u = None \<and> arp_frame v \<noteq> None)
    \<and> asyncSendData (network_of v) = (ds @ es, None)"
proof -
  have inv: "finv u" by (rule run_inv [OF assms(1)])
  have held: "\<forall>c. arp_frame u = Some c \<longrightarrow>
      container_ok (bufs (network_of u)) c \<and> \<not> ownerMayFreeData c \<and> bytes_of (network_of u) c = hello"
    using inv by (auto simp: farm_inv_def l1_inv_def Let_def queue_safe_known)
  obtain r where r: "announce (arp_frame u) (network_of u) = Some r"
    using announce_returns [OF finv_facts(2,3) [OF inv] _ held] assms(2) by auto
  from announce_law [OF finv_facts(2,3) [OF inv] held r] obtain h d where
    "arp_frame u = None \<and> r = Inr (Some d, (network_of u)\<lparr>bufs := h\<rparr>)
        \<or> (\<exists>n'. AsyncSendFrame list_queue d ((network_of u)\<lparr>bufs := h\<rparr>) = Some n' \<and> r = Inr (arp_frame u, n'))"
    unfolding announced_by_def by blast
  then consider (kept) "arp_frame u = None" "r = Inr (Some d, (network_of u)\<lparr>bufs := h\<rparr>)"
    | (sent) "r = Inr (arp_frame u, (network_of u)\<lparr>bufs := h, asyncSendData := (ds @ [d], None)\<rparr>)"
    using assms(2) by (auto simp: AsyncSendFrame_def list_queue_def)
  then show ?thesis
  proof cases
    case kept
    from r kept(2) have "announce (arp_frame u) (network_of u) = Some (Inr (Some d, (network_of u)\<lparr>bufs := h\<rparr>))" by simp
    from farm_run_snoc [OF assms(1) farm_step.announce [where announce = announce and s = u, OF this]] kept(1) assms(2) show ?thesis
      by (intro exI conjI) (assumption | simp)+
  next
    case sent
    from r sent have "announce (arp_frame u) (network_of u)
        = Some (Inr (arp_frame u, (network_of u)\<lparr>bufs := h, asyncSendData := (ds @ [d], None)\<rparr>))" by simp
    from farm_run_snoc [OF assms(1) farm_step.announce [where announce = announce and s = u, OF this]] assms(2) show ?thesis
      by (intro exI conjI) (assumption | simp)+
  qed
qed

text \<open>One request and two steps of the ARP thread: a packet to make, and at least one frame in the queue.\<close>

lemma run_pending:
  "\<exists>tr u. run_to tr u \<and> requested (distributed tr) = [trigger_of example_event False] \<and> announced tr \<noteq> []
   \<and> Distribution (SetFlush True) \<notin> set tr"
proof -
  let ?r = "map Distribution example_requests"
  obtain u where u: "run_to ?r u" "asyncSendData (network_of u) = ([], None)" "arp_frame u = None" using run_request by blast
  obtain v fs ds where v: "run_to (?r @ [Announced fs]) v" "fs \<noteq> [] \<or> arp_frame v \<noteq> None"
    "asyncSendData (network_of v) = (ds, None)" using run_announce [OF u(1,2)] u(3) by auto
  obtain w fs' where "run_to ((?r @ [Announced fs]) @ [Announced fs']) w" "fs @ fs' \<noteq> []"
    using run_announce [OF v(1,3)] v(2) by auto
  then show ?thesis by (intro exI conjI) (assumption | simp add: histories_farm)+
qed

text \<open>From there to rest.\<close>

lemma start_facts:
  "\<not> flushBurst (distribution (farm_on start))" "snd (asyncSendData (network_of (farm_on start))) \<noteq> Some 0"
  "0 < unat (MAX_TRIGGERS_PER_L1MRP (handler (distribution (farm_on start))))"
  by (simp_all add: farm_on_def start_ok)

lemma run_delivery:
  "\<exists>tr u. run_to tr u \<and> requested (distributed tr) = [trigger_of example_event False] \<and> announced tr \<noteq> []
   \<and> (\<forall>p. Discarded p \<notin> set (distributed tr)) \<and> pc (distribution u) = Fill \<and> multicastRequests (distribution u) = []
   \<and> fst (multicastMRPQueue (handler (distribution u))) = [] \<and> fst (asyncSendData (network_of u)) = [] \<and> packet_handler u 0 = Idle"
proof -
  obtain tr u where u: "run_to tr u" "requested (distributed tr) = [trigger_of example_event False]" "announced tr \<noteq> []"
    "Distribution (SetFlush True) \<notin> set tr" using run_pending by blast
  note lively = lively_start [OF responsive_axioms start_farm start_facts]
  from lively_run [OF u(1) lively u(4)] obtain tr' v where
    v: "farm_run list_queue list_queue rfc1071 (\<lambda>_ _. 0) fst ready transmit counted announce 1 u tr' v"
    "\<forall>a \<in> set tr'. library_step a" "at_rest fst fst v"
    using comes_to_rest [of u "\<lambda>_ _. 0"] unfolding reaches_def by blast
  note run = farm_run_append [OF u(1) v(1)]
  note none = library_histories [OF v(2)]
  with u(4) have "Distribution (SetFlush True) \<notin> set (tr @ tr')" by simp
  from lively_run [OF run lively this] have "\<forall>p. Discarded p \<notin> set (distributed (tr @ tr'))" by blast
  with run u(2,3) none v(3) show ?thesis
    by (intro exI conjI) (assumption | simp add: histories_farm requested_append at_rest_def)+
qed

end

section \<open>The run on both back ends\<close>

text \<open>The kernel records what it is given; the library accepts it and counts.\<close>

abbreviation pcap_start :: "(DataContainer list \<times> nat option, byte list list \<times> string list) PCapHandler" where
  "pcap_start \<equiv> example_pcap\<lparr>asyncSendData := ([], None)\<rparr>"

abbreviation pfring_start :: "(DataContainer list \<times> nat option, nat) PFringHandler" where
  "pfring_start \<equiv> example_state\<lparr>asyncSendData := ([], None)\<rparr>"

definition counting_sends :: "nat pfring_api" where
  "counting_sends = counting_api\<lparr>pfring_send := \<lambda>h pkt flush r. (int (length pkt), r + 1)\<rparr>"

abbreviation example_mac :: "byte list" where "example_mac \<equiv> [2, 4, 6, 8, 10, 12]"
abbreviation example_addr :: u32 where "example_addr \<equiv> 0x0100000a"

interpretation pcap_responsive: responsive list_queue fst snd "pcap_transmit api" pcap_counted "pcap_ready mac addr" "Suc k"
    rfc1071 list_queue fst snd "announce_pcap list_queue junk" "arp_announcement mac addr"
  for api mac addr k junk
  by (intro responsive_pcap list_send_queue.send_queue_axioms rfc1071.inet_checksum_axioms
    list_queue.tbb_fifo_axioms zero_less_Suc)

interpretation pcap_answers: answering "pcap_transmit recording_kernel" pcap_counted "pcap_ready example_mac example_addr"
  "announce_pcap list_queue (\<lambda>_ _. 0)" "arp_announcement example_mac example_addr" pcap_start
proof (intro answering.intro responsive_pcap list_send_queue.send_queue_axioms rfc1071.inet_checksum_axioms
    list_queue.tbb_fifo_axioms answering_axioms.intro)
  fix a and n :: "(DataContainer list \<times> nat option, byte list list \<times> string list) PCapHandler"
  assume n: "pcap_ready example_mac example_addr n" "heap_ok (bufs n)" "snd (asyncSendData n) = None"
  obtain d h where "GenerateGratuitousARPv4 (\<lambda>_ _. 0) (GetMyMac n) (GetMyIP n) (bufs n) = Inr (d, h)"
    using arp_block [OF n(2) _ refl, of "GetMyMac n" "\<lambda>_ _. 0" "GetMyIP n"] n(1) by metis
  with n(3) show "announce_pcap list_queue (\<lambda>_ _. 0) a n \<noteq> None"
    by (cases "asyncSendData n") (simp add: announce_pcap_def arp_iteration_pcap_def AsyncSendFrame_pcap_eq AsyncSendFrame_def list_queue_def)
qed (simp_all add: example_pcap_def heap_ok_def GetMyMac_def GetMyIP_def)

lemma accepting_counting_sends: "accepting counting_sends"
  by (simp add: accepting_def counting_sends_def)

interpretation pfring_responsive: responsive list_queue fst snd "pfring_transmit counting_sends junk" "\<lambda>n. n"
    "pfring_ready (Suc k) mac addr" "Suc k" rfc1071 list_queue fst snd "announce_pfring list_queue junk'" "arp_announcement mac addr"
  for junk k mac addr junk'
  by (intro responsive_pfring list_send_queue.send_queue_axioms rfc1071.inet_checksum_axioms
    list_queue.tbb_fifo_axioms accepting_counting_sends zero_less_Suc)

interpretation pfring_answers: answering "pfring_transmit counting_sends (\<lambda>_ _. 0)" "\<lambda>n. n" "pfring_ready 1 example_mac example_addr"
  "announce_pfring list_queue (\<lambda>_ _. 0)" "arp_announcement example_mac example_addr" pfring_start
proof (intro answering.intro responsive_pfring list_send_queue.send_queue_axioms rfc1071.inet_checksum_axioms
    list_queue.tbb_fifo_axioms accepting_counting_sends answering_axioms.intro)
  fix a and n :: "(DataContainer list \<times> nat option, nat) PFringHandler"
  assume n: "snd (asyncSendData n) = None"
  show "announce_pfring list_queue (\<lambda>_ _. 0) a n \<noteq> None"
  proof (cases a)
    case None
    then show ?thesis by (simp add: announce_pfring_def bind_call_def split: sum.split)
  next
    case (Some c)
    with n show ?thesis
      by (cases "asyncSendData n")
         (simp add: announce_pfring_def arp_thread_iteration_def bind_call_def AsyncSendFrame_def list_queue_def split: sum.split)
  qed
qed (simp_all add: example_state_def heap_ok_def GetMyMac_def GetMyIP_def)

theorem requests_reach_kernel_witness:
  "\<exists>tr u ps fs frames. pcap_answers.run_to tr u \<and> pc (distribution u) = Fill \<and> announced tr \<noteq> []
     \<and> concat (map rev ps) = [trigger_of example_event False]
     \<and> list_all2 (carries rfc1071) (due [example_header] ps) fs
     \<and> frames \<in> shuffles fs (announced tr) \<and> set (announced tr) \<subseteq> {arp_announcement example_mac example_addr}
     \<and> kernel (network_of u) = fold (\<lambda>bs k. snd (sys_sendto recording_kernel (socket_fd pcap_start)
         (sll_ifindex pcap_start) bs k)) frames (kernel pcap_start)"
proof -
  obtain tr u where r: "pcap_answers.run_to tr u" "requested (distributed tr) = [trigger_of example_event False]" "announced tr \<noteq> []"
   "\<forall>p. Discarded p \<notin> set (distributed tr)" "pc (distribution u) = Fill" "multicastRequests (distribution u) = []"
   "fst (multicastMRPQueue (handler (distribution u))) = []" "fst (asyncSendData (network_of u)) = []" "packet_handler u 0 = Idle"
    using pcap_answers.run_delivery by blast
  have hdrs: "request_hdrs (distribution (farm_on pcap_start)) = [example_header]" "network_of (farm_on pcap_start) = pcap_start"
    by (simp_all add: farm_on_def)
  obtain ps fs frames where "concat (map rev ps) = [trigger_of example_event False]"
    "list_all2 (carries rfc1071) (due [example_header] ps) fs" "frames \<in> shuffles fs (announced tr)"
    "set (announced tr) \<subseteq> {arp_announcement example_mac example_addr}"
    "kernel (network_of u) = fold (\<lambda>bs k. snd (sys_sendto recording_kernel (socket_fd pcap_start)
         (sll_ifindex pcap_start) bs k)) frames (kernel pcap_start)"
    using requests_reach_kernel [OF list_send_queue.send_queue_axioms rfc1071.inet_checksum_axioms list_queue.tbb_fifo_axioms
      pcap_answers.start_farm r(1,5-9,4)]
    unfolding hdrs r(2) by blast
  with r(1,3,5) show ?thesis by blast
qed

theorem requests_reach_ring_witness:
  "\<exists>tr u ps fs frames. pfring_answers.run_to tr u \<and> pc (distribution u) = Fill \<and> announced tr \<noteq> []
     \<and> concat (map rev ps) = [trigger_of example_event False]
     \<and> list_all2 (carries rfc1071) (due [example_header] ps) fs
     \<and> frames \<in> shuffles fs (announced tr) \<and> set (announced tr) \<subseteq> {arp_announcement example_mac example_addr}
     \<and> lib (network_of u) = fold (\<lambda>bs r. snd (the (send_packet counting_sends (hd (queueRings pfring_start))
         (on_wire bs (length bs)) True True r))) frames (lib pfring_start)"
proof -
  obtain tr u where r: "pfring_answers.run_to tr u" "requested (distributed tr) = [trigger_of example_event False]" "announced tr \<noteq> []"
   "\<forall>p. Discarded p \<notin> set (distributed tr)" "pc (distribution u) = Fill" "multicastRequests (distribution u) = []"
   "fst (multicastMRPQueue (handler (distribution u))) = []" "fst (asyncSendData (network_of u)) = []" "packet_handler u 0 = Idle"
    using pfring_answers.run_delivery by blast
  have hdrs: "request_hdrs (distribution (farm_on pfring_start)) = [example_header]" "network_of (farm_on pfring_start) = pfring_start"
    by (simp_all add: farm_on_def)
  obtain ps fs frames where "concat (map rev ps) = [trigger_of example_event False]"
    "list_all2 (carries rfc1071) (due [example_header] ps) fs" "frames \<in> shuffles fs (announced tr)"
    "set (announced tr) \<subseteq> {arp_announcement example_mac example_addr}"
    "lib (network_of u) = fold (\<lambda>bs r. snd (the (send_packet counting_sends (hd (queueRings pfring_start))
         (on_wire bs (length bs)) True True r))) frames (lib pfring_start)"
    using requests_reach_ring [OF list_send_queue.send_queue_axioms rfc1071.inet_checksum_axioms list_queue.tbb_fifo_axioms
      pfring_answers.start_farm r(1,5-9,4)]
    unfolding hdrs r(2) by blast
  with r(1,3,5) show ?thesis by blast
qed

lemma counted_sends:
  "fold (\<lambda>(t, bs) r. snd (pfring_send counting_sends (k t) (w bs) True r)) xs r = r + length xs"
  by (induction xs arbitrary: r) (auto simp: counting_sends_def)

theorem everything_can_be_sent_witness:
  "\<exists>tr u tr' v ps fs. pfring_answers.run_to tr u \<and> pfring_answers.run_to (tr @ tr') v \<and> at_rest fst fst v
     \<and> announced tr \<noteq> [] \<and> concat (map rev ps) = [trigger_of example_event False]
     \<and> list_all2 (carries rfc1071) (due [example_header] ps) fs
     \<and> lib (network_of v) = length fs + length (announced tr)"
proof -
  obtain tr u where r: "pfring_answers.run_to tr u" "requested (distributed tr) = [trigger_of example_event False]"
    "announced tr \<noteq> []" "Distribution (SetFlush True) \<notin> set tr" using pfring_answers.run_pending by blast
  have hdrs: "request_hdrs (distribution (farm_on pfring_start)) = [example_header]"
    "lib (network_of (farm_on pfring_start)) = 0" by (simp_all add: farm_on_def example_state_def)
  have small: "unat (MAX_TRIGGERS_PER_L1MRP (handler (distribution (farm_on pfring_start)))) \<le> 120"
    "\<forall>t < 1. ring (queueRings (network_of (farm_on pfring_start)) ! t) \<noteq> None"
    by (simp_all add: farm_on_def example_state_def example_PFring_def)
  from everything_can_be_sent [OF list_send_queue.send_queue_axioms rfc1071.inet_checksum_axioms list_queue.tbb_fifo_axioms
    accepting_counting_sends zero_less_one pfring_answers.start_farm pfring_answers.start_facts r(1,4) small]
  obtain tr' v ps fs where v: "farm_run list_queue list_queue rfc1071 (\<lambda>_ _. 0) fst (pfring_ready 1 example_mac example_addr)
      (pfring_transmit counting_sends (\<lambda>_ _. 0)) (\<lambda>n. n) (announce_pfring list_queue (\<lambda>_ _. 0)) 1 u tr' v"
    "at_rest fst fst v" "concat (map rev ps) = [trigger_of example_event False]"
    "list_all2 (carries rfc1071) (due [example_header] ps) fs"
    "mset (map snd (all_sent (handled (tr @ tr')))) = mset fs + mset (announced tr)"
    "lib (network_of v) = length (all_sent (handled (tr @ tr')))"
    unfolding hdrs r(2) counted_sends by auto
  from arg_cong [OF v(5), of size] v(6) have "lib (network_of v) = length fs + length (announced tr)" by simp
  with pfring_answers.farm_run_append [OF r(1) v(1)] r(1,3) v(2-4) show ?thesis by blast
qed

theorem frames_accounted_witness:
  "\<exists>tr u. pcap_answers.run_to tr u \<and> requested (distributed tr) \<noteq> [] \<and> announced tr \<noteq> []
     \<and> taken_by 0 (handled tr) = sent_by 0 (handled tr) \<and> (\<forall>e. pc (distribution u) \<noteq> Crashed e)"
proof -
  obtain tr u where r: "pcap_answers.run_to tr u" "requested (distributed tr) = [trigger_of example_event False]" "announced tr \<noteq> []"
    "packet_handler u 0 = Idle"
    using pcap_answers.run_delivery by blast
  from frames_accounted [OF pcap_delivery.delivery_axioms pcap_answers.start_farm r(1)] have
    "taken_by 0 (handled tr) = sent_by 0 (handled tr) @ to_hand (network_of u) (packet_handler u 0)"
    "\<forall>e. pc (distribution u) \<noteq> Crashed e" by blast+
  with r show ?thesis by (intro exI [of _ tr] exI [of _ u]) simp
qed

end
