(* ===== verification/MRPLittleEndian.thy ===== *)
theory MRPLittleEndian
  imports L1Refinement
begin

text \<open>
  The other branch of \<open>l1/MRP.h\<close> and of \<open>generateTriggerHDR\<close>, compiled when
  \<open>__USE_BIG_ENDIAN_FOR_MRP\<close> is not defined: the structs in the byte order of the host. Names that occur in
  both branches have the suffix \<open>_LE\<close> here.
\<close>

section \<open>Structs\<close>

record TRIGGER_RAW_HDR_LE =
  timestamp_LE :: u32
  triggerTypeWord_LE :: u16
  requestZeroSuppressed_LE :: byte
  fineTime_LE :: byte
  eventNumber_LE :: u24
  reserved2_LE :: byte

definition pack_TRIGGER_RAW_HDR_LE :: "TRIGGER_RAW_HDR_LE \<Rightarrow> byte list" where
  "pack_TRIGGER_RAW_HDR_LE t =
     le32 (timestamp_LE t) @ le16 (triggerTypeWord_LE t) @ [requestZeroSuppressed_LE t, fineTime_LE t]
     @ le24 (eventNumber_LE t) @ [reserved2_LE t]"

definition unpack_TRIGGER_RAW_HDR_LE :: "byte list \<Rightarrow> TRIGGER_RAW_HDR_LE" where
  "unpack_TRIGGER_RAW_HDR_LE bs =
     \<lparr>timestamp_LE = rd32 bs 0, triggerTypeWord_LE = rd16 bs 4, requestZeroSuppressed_LE = bs ! 6,
      fineTime_LE = bs ! 7, eventNumber_LE = rd24 bs 8, reserved2_LE = bs ! 11\<rparr>"

record MRP_RAW_HDR_LE =
  MRPLength_LE :: u16
  numberOfTriggers_LE :: u16
  ipAddress_LE :: u32
  reserved_LE :: u32

definition pack_MRP_RAW_HDR_LE :: "MRP_RAW_HDR_LE \<Rightarrow> byte list" where
  "pack_MRP_RAW_HDR_LE m =
     le16 (MRPLength_LE m) @ le16 (numberOfTriggers_LE m) @ le32 (ipAddress_LE m) @ le32 (reserved_LE m)"

definition unpack_MRP_RAW_HDR_LE :: "byte list \<Rightarrow> MRP_RAW_HDR_LE" where
  "unpack_MRP_RAW_HDR_LE bs =
     \<lparr>MRPLength_LE = rd16 bs 0, numberOfTriggers_LE = rd16 bs 2, ipAddress_LE = rd32 bs 4,
      reserved_LE = rd32 bs 8\<rparr>"

text \<open>\<open>__USE_PFRING_FOR_MRP\<close> is defined in the header, so the frame begins with the UDP header.\<close>

record MRP_FRAME_HDR_LE =
  frame_udp_LE :: UDP_HDR
  MRP_HDR_LE :: MRP_RAW_HDR_LE

interpretation trigger_LE: packed_struct pack_TRIGGER_RAW_HDR_LE unpack_TRIGGER_RAW_HDR_LE "\<lambda>_. True" 12
proof
  fix bs :: "byte list" assume "12 \<le> length bs"
  then show "pack_TRIGGER_RAW_HDR_LE (unpack_TRIGGER_RAW_HDR_LE bs) = take 12 bs"
    using take_nths [of 12 bs]
    by (simp add: pack_TRIGGER_RAW_HDR_LE_def unpack_TRIGGER_RAW_HDR_LE_def le16_rd16 le24_rd24 le32_rd32
        upt_numerals numeral_2_eq_2 numeral_3_eq_3)
qed (simp_all add: pack_TRIGGER_RAW_HDR_LE_def unpack_TRIGGER_RAW_HDR_LE_def
    rd16_def le16_def rd24_def le24_def rd32_def le32_def)

interpretation mrp_raw_LE: packed_struct pack_MRP_RAW_HDR_LE unpack_MRP_RAW_HDR_LE "\<lambda>_. True" 12
proof
  fix bs :: "byte list" assume "12 \<le> length bs"
  then show "pack_MRP_RAW_HDR_LE (unpack_MRP_RAW_HDR_LE bs) = take 12 bs"
    using take_nths [of 12 bs]
    by (simp add: pack_MRP_RAW_HDR_LE_def unpack_MRP_RAW_HDR_LE_def le16_rd16 le32_rd32 upt_numerals
        numeral_2_eq_2 numeral_3_eq_3)
qed (simp_all add: pack_MRP_RAW_HDR_LE_def unpack_MRP_RAW_HDR_LE_def rd16_def le16_def rd32_def le32_def)

section \<open>Operations\<close>

definition MRP_RAW_SetNumberOfTriggers_LE :: "u16 \<Rightarrow> MRP_RAW_HDR_LE \<Rightarrow> MRP_RAW_HDR_LE" where
  "MRP_RAW_SetNumberOfTriggers_LE triggerNum m =
     m\<lparr>numberOfTriggers_LE := triggerNum, MRPLength_LE := ucast (12 + ucast triggerNum * 12 :: u64)\<rparr>"

text \<open>The UDP payload is computed with 8 bytes for the header.\<close>

definition SetNumberOfTriggers_LE :: "u16 \<Rightarrow> MRP_FRAME_HDR_LE \<Rightarrow> MRP_FRAME_HDR_LE" where
  "SetNumberOfTriggers_LE triggerNum f =
     (let length = ucast (8 + ucast triggerNum * 12 :: u64) :: u16
      in f\<lparr>MRP_HDR_LE := MRP_RAW_SetNumberOfTriggers_LE triggerNum (MRP_HDR_LE f),
           frame_udp_LE := setPayloadSize (ucast length) (frame_udp_LE f)\<rparr>)"

definition generateTriggerHDR_LE ::
  "Event \<Rightarrow> bool \<Rightarrow> TRIGGER_RAW_HDR_LE heap \<Rightarrow> nat \<times> TRIGGER_RAW_HDR_LE heap" where
  "generateTriggerHDR_LE event zSuppressed h =
     heap_new \<lparr>timestamp_LE = getTimestamp event, triggerTypeWord_LE = getTriggerTypeWord event,
       requestZeroSuppressed_LE = (if zSuppressed then 1 else 0), fineTime_LE = getFinetime event,
       eventNumber_LE = ucast (getEventNumber event), reserved2_LE = 0\<rparr> h"

section \<open>The two branches are the same words\<close>

text \<open>Every group of four bytes reversed.\<close>

fun swap_words :: "byte list \<Rightarrow> byte list" where
  "swap_words (a # b # c # d # bs) = d # c # b # a # swap_words bs"
| "swap_words bs = bs"

lemma swap_words_swap_words: "swap_words (swap_words bs) = bs"
  by (induction bs rule: swap_words.induct) simp_all

lemma bytes16 [wire]: "le16 (htons w) = [ucast (drop_bit 8 w), ucast w]"
  by (simp only: le16_htons) (simp add: le16_def)

lemma bytes32 [wire]: "le32 (htonl w) = [ucast (drop_bit 24 w), ucast (drop_bit 16 w), ucast (drop_bit 8 w), ucast w]"
  by (simp only: le32_htonl) (simp add: le32_def)

lemma bytes24 [wire]:
  "le24 (ucast (drop_bit 8 (htonl w))) = [ucast (drop_bit 16 w), ucast (drop_bit 8 w), ucast w]"
  by (simp only: le24_of_le32 bytes32) simp

lemma le24_ucast: "le24 (ucast (w :: u32)) = [ucast w, ucast (drop_bit 8 w), ucast (drop_bit 16 w)]"
  by (simp add: le24_def) (auto intro!: bit_word_eqI simp: bit_simps)

definition trigger_of_LE :: "Event \<Rightarrow> bool \<Rightarrow> TRIGGER_RAW_HDR_LE" where
  "trigger_of_LE event zSuppressed =
     \<lparr>timestamp_LE = getTimestamp event, triggerTypeWord_LE = getTriggerTypeWord event,
       requestZeroSuppressed_LE = (if zSuppressed then 1 else 0), fineTime_LE = getFinetime event,
       eventNumber_LE = ucast (getEventNumber event), reserved2_LE = 0\<rparr>"

lemma generateTriggerHDR_LE_new: "generateTriggerHDR_LE event z h = heap_new (trigger_of_LE event z) h"
  by (simp add: generateTriggerHDR_LE_def trigger_of_LE_def)

lemma swap_trigger: "swap_words (pack_TRIGGER_RAW_HDR_LE (trigger_of_LE event z)) = pack_TRIGGER_RAW_HDR (trigger_of event z)"
  by (simp add: pack_TRIGGER_RAW_HDR_LE_def pack_TRIGGER_RAW_HDR_def trigger_of_LE_def trigger_of_def bytes16 bytes32 bytes24
      le24_ucast [of "getEventNumber event"]) (simp add: le16_def le32_def)

text \<open>
  C27: Both branches of the header describe the same 32-bit words: for every event and flag the element made
  by the host-order branch, with each of its three words byte-reversed, is in memory exactly the element the
  big-endian branch makes, and so is the first word of the packet header after \<open>SetNumberOfTriggers\<close>; each
  branch allocates one fresh object at the same address.
\<close>

theorem branches_agree:
  assumes "fresh h' = fresh h"
    and "generateTriggerHDR event z h = (p, g)" and "generateTriggerHDR_LE event z h' = (q, g')"
  shows "q = p \<and> fresh g' = fresh g
    \<and> swap_words (pack_TRIGGER_RAW_HDR_LE (the (live g' q))) = pack_TRIGGER_RAW_HDR (the (live g p))
    \<and> swap_words (take 4 (pack_MRP_RAW_HDR_LE (MRP_RAW_SetNumberOfTriggers_LE n m)))
        = take 4 (pack_MRP_RAW_HDR (MRP_RAW_SetNumberOfTriggers n m'))"
proof -
  have g: "p = fresh h" "g = h\<lparr>fresh := Suc (fresh h), live := (live h)(fresh h \<mapsto> trigger_of event z)\<rparr>"
    using assms(2) by (auto simp: generateTriggerHDR_new heap_new_def)
  have g': "q = fresh h'" "g' = h'\<lparr>fresh := Suc (fresh h'), live := (live h')(fresh h' \<mapsto> trigger_of_LE event z)\<rparr>"
    using assms(3) by (auto simp: generateTriggerHDR_LE_new heap_new_def)
  have "swap_words (take 4 (pack_MRP_RAW_HDR_LE (MRP_RAW_SetNumberOfTriggers_LE n m)))
        = take 4 (pack_MRP_RAW_HDR (MRP_RAW_SetNumberOfTriggers n m'))"
    by (simp add: pack_MRP_RAW_HDR_LE_def pack_MRP_RAW_HDR_def MRP_RAW_SetNumberOfTriggers_LE_def
        MRP_RAW_SetNumberOfTriggers_def mrp_length_def bytes16) (simp add: le16_def)
  with g g' assms(1) show ?thesis by (simp add: swap_trigger)
qed

theorem branches_agree_witness:
  "\<exists>p g g'. generateTriggerHDR example_event True \<lparr>fresh = 3, live = Map.empty\<rparr> = (p, g)
    \<and> generateTriggerHDR_LE example_event True \<lparr>fresh = 3, live = Map.empty\<rparr> = (p, g')
    \<and> swap_words (pack_TRIGGER_RAW_HDR_LE (the (live g' p))) = pack_TRIGGER_RAW_HDR (the (live g p))"
proof -
  let ?h = "\<lparr>fresh = 3, live = Map.empty :: nat \<rightharpoonup> TRIGGER_RAW_HDR\<rparr>"
  let ?h' = "\<lparr>fresh = 3, live = Map.empty :: nat \<rightharpoonup> TRIGGER_RAW_HDR_LE\<rparr>"
  obtain p g where g: "generateTriggerHDR example_event True ?h = (p, g)" by fastforce
  obtain q g' where g': "generateTriggerHDR_LE example_event True ?h' = (q, g')" by fastforce
  have "fresh ?h' = fresh ?h" by simp
  from branches_agree [OF this g g'] g g' show ?thesis by blast
qed

text \<open>
  In the branch that is switched off the two lengths of a frame disagree: the MRP header announces 12 bytes
  for itself, the UDP header has room for 8 of them, so that the last trigger would be cut.
\<close>

theorem SetNumberOfTriggers_LE_lengths:
  assumes "unat n \<le> 5457"
  shows "unat (MRPLength_LE (MRP_HDR_LE (SetNumberOfTriggers_LE n f))) = 12 + 12 * unat n
    \<and> unat (ntohs (udp_len (udp (frame_udp_LE (SetNumberOfTriggers_LE n f))))) = 8 + (8 + 12 * unat n)"
proof -
  have n: "unat (12 + ucast n * 12 :: u64) = 12 + 12 * unat n" "unat (8 + ucast n * 12 :: u64) = 8 + 12 * unat n"
    using assms by (simp_all add: unat_word_ariths unsigned_ucast_eq take_bit_eq_mod)
  define k where "k = (ucast (8 + ucast n * 12 :: u64) :: u16)"
  have "unat k = 8 + 12 * unat n" using n assms by (simp add: k_def unsigned_ucast_eq take_bit_eq_mod)
  then have "unat (ucast k :: u32) = 8 + 12 * unat n" using assms by (simp add: unsigned_ucast_eq take_bit_eq_mod)
  then have "unat (ntohs (udp_len (udp (setPayloadSize (ucast k) u)))) = 8 + (8 + 12 * unat n)" for u
    using assms by (simp add: unat_udp_len)
  then show ?thesis using n(1) assms
    by (simp add: SetNumberOfTriggers_LE_def MRP_RAW_SetNumberOfTriggers_LE_def Let_def k_def [symmetric]
        unsigned_ucast_eq take_bit_eq_mod)
qed

end
