(* ===== verification/DimListener.thy ===== *)
theory DimListener
  imports Prelude
begin

text \<open>
  \<open>dim/DimListener.h\<close> and \<open>.cpp\<close>: the callbacks on the run control services published over DIM. The DIM
  client is a parameter: what \<open>getInt\<close>, \<open>getSize\<close> and \<open>getData\<close> of a service return. A callback is a
  transformer of the state \<open>'s\<close> of the rest of the program.
\<close>

section \<open>State\<close>

datatype dim_service =
    EOB_TS
  | SOB_TS
  | runNumber
  | burstNumber
  | nextBurstNumber
  | burstTimeInfo

record BurstTimeInfo =
  bti_burstID :: int
  bti_sobTime :: int
  bti_eobTime :: int
  bti_runNumber :: int

record 's DimListener =
  eobCallbacks :: "(u32 \<Rightarrow> 's \<Rightarrow> 's) list"
  sobCallbacks :: "(u32 \<Rightarrow> 's \<Rightarrow> 's) list"
  runNumberCallbacks :: "(u32 \<Rightarrow> 's \<Rightarrow> 's) list"
  burstNumberCallbacks :: "(u32 \<Rightarrow> 's \<Rightarrow> 's) list"
  nextBurstNumberCallbacks :: "(u32 \<Rightarrow> 's \<Rightarrow> 's) list"
  burstTimeInfoCallbacks :: "(BurstTimeInfo \<Rightarrow> 's \<Rightarrow> 's) list"
  servers_started :: nat
  server_thread :: nat

text \<open>
  \<open>startServer\<close> makes a new thread object, the address of which is its number, each time it is called;
  the constructor sets the pointer to null.
\<close>

definition no_callbacks :: "'s DimListener" where
  "no_callbacks = \<lparr>eobCallbacks = [], sobCallbacks = [], runNumberCallbacks = [], burstNumberCallbacks = [],
     nextBurstNumberCallbacks = [], burstTimeInfoCallbacks = [], servers_started = 0, server_thread = 0\<rparr>"

definition startServer :: "'s DimListener \<Rightarrow> 's DimListener" where
  "startServer l = l\<lparr>servers_started := servers_started l + 1, server_thread := servers_started l + 1\<rparr>"

text \<open>
  \<open>getInt\<close> is a C \<open>int\<close>; the services are declared with the value they have while there is no link,
  \<open>-1\<close> or 0.
\<close>

record dim_client =
  dim_link :: "dim_service \<Rightarrow> int option"
  dim_data :: "byte list"

definition no_link :: "dim_service \<Rightarrow> int" where
  "no_link sv = (if sv \<in> {runNumber, burstNumber, nextBurstNumber} then - 1 else 0)"

definition getInt :: "dim_client \<Rightarrow> dim_service \<Rightarrow> int" where
  "getInt c sv = (case dim_link c sv of None \<Rightarrow> no_link sv | Some v \<Rightarrow> v)"

text \<open>The conversions from \<open>int\<close> to the return type \<open>uint\<close>.\<close>

definition getEobTimeStamp :: "dim_client \<Rightarrow> u32" where "getEobTimeStamp c = word_of_int (getInt c EOB_TS)"
definition getSobTimeStamp :: "dim_client \<Rightarrow> u32" where "getSobTimeStamp c = word_of_int (getInt c SOB_TS)"
definition getRunNumber :: "dim_client \<Rightarrow> u32" where "getRunNumber c = word_of_int (getInt c runNumber)"
definition getBurstNumber :: "dim_client \<Rightarrow> u32" where "getBurstNumber c = word_of_int (getInt c burstNumber)"
definition getNextBurstNumber :: "dim_client \<Rightarrow> u32" where
  "getNextBurstNumber c = word_of_int (getInt c nextBurstNumber)"

section \<open>Registration\<close>

definition registerEobListener :: "(u32 \<Rightarrow> 's \<Rightarrow> 's) \<Rightarrow> 's DimListener \<Rightarrow> 's DimListener" where
  "registerEobListener callback l = l\<lparr>eobCallbacks := eobCallbacks l @ [callback]\<rparr>"

definition registerSobListener :: "(u32 \<Rightarrow> 's \<Rightarrow> 's) \<Rightarrow> 's DimListener \<Rightarrow> 's DimListener" where
  "registerSobListener callback l = l\<lparr>sobCallbacks := sobCallbacks l @ [callback]\<rparr>"

definition registerRunNumberListener :: "(u32 \<Rightarrow> 's \<Rightarrow> 's) \<Rightarrow> 's DimListener \<Rightarrow> 's DimListener" where
  "registerRunNumberListener callback l = l\<lparr>runNumberCallbacks := runNumberCallbacks l @ [callback]\<rparr>"

definition registerBurstNumberListener :: "(u32 \<Rightarrow> 's \<Rightarrow> 's) \<Rightarrow> 's DimListener \<Rightarrow> 's DimListener" where
  "registerBurstNumberListener callback l = l\<lparr>burstNumberCallbacks := burstNumberCallbacks l @ [callback]\<rparr>"

definition registerNextBurstNumberListener :: "(u32 \<Rightarrow> 's \<Rightarrow> 's) \<Rightarrow> 's DimListener \<Rightarrow> 's DimListener" where
  "registerNextBurstNumberListener callback l = l\<lparr>nextBurstNumberCallbacks := nextBurstNumberCallbacks l @ [callback]\<rparr>"

definition registerBurstTimeInfoListener ::
  "(BurstTimeInfo \<Rightarrow> 's \<Rightarrow> 's) \<Rightarrow> 's DimListener \<Rightarrow> 's DimListener" where
  "registerBurstTimeInfoListener callback l = l\<lparr>burstTimeInfoCallbacks := burstTimeInfoCallbacks l @ [callback]\<rparr>"

section \<open>infoHandler\<close>

text \<open>\<open>for (auto callback : callbacks) callback(v)\<close>.\<close>

definition call_all :: "('v \<Rightarrow> 's \<Rightarrow> 's) list \<Rightarrow> 'v \<Rightarrow> 's \<Rightarrow> 's" where
  "call_all callbacks v s = fold (\<lambda>callback. callback v) callbacks s"

text \<open>Four 32-bit integers are read from the data as soon as it is not empty.\<close>

definition read_BurstTimeInfo :: "byte list \<Rightarrow> BurstTimeInfo res" where
  "read_BurstTimeInfo rawbti =
     (if length rawbti < 16 then Inl OutOfBounds
      else Inr \<lparr>bti_burstID = sint (rd32 rawbti 0), bti_sobTime = sint (rd32 rawbti 4),
                bti_eobTime = sint (rd32 rawbti 8), bti_runNumber = sint (rd32 rawbti 12)\<rparr>)"

definition infoHandler :: "dim_client \<Rightarrow> dim_service option \<Rightarrow> 's DimListener \<Rightarrow> 's \<Rightarrow> 's res" where
  "infoHandler c info l s =
     (if info = Some EOB_TS then Inr (call_all (eobCallbacks l) (word_of_int (getInt c EOB_TS)) s)
      else if info = Some SOB_TS then Inr (call_all (sobCallbacks l) (word_of_int (getInt c SOB_TS)) s)
      else if info = Some runNumber then Inr (call_all (runNumberCallbacks l) (word_of_int (getInt c runNumber)) s)
      else if info = Some burstNumber then Inr (call_all (burstNumberCallbacks l) (word_of_int (getInt c burstNumber)) s)
      else if info = Some nextBurstNumber
        then Inr (call_all (nextBurstNumberCallbacks l) (word_of_int (getInt c nextBurstNumber)) s)
      else if info = Some burstTimeInfo then
        (if length (dim_data c) \<noteq> 0 then
           bind_res (read_BurstTimeInfo (dim_data c)) (\<lambda>bti.
           if bti_eobTime bti \<noteq> 0 \<and> bti_runNumber bti \<noteq> 0
           then Inr (call_all (burstTimeInfoCallbacks l) bti s) else Inr s)
         else Inr s)
      else Inr s)"

section \<open>Properties\<close>

text \<open>A registration of either kind and the listener after a sequence of them.\<close>

datatype 's registration =
    On_number dim_service "u32 \<Rightarrow> 's \<Rightarrow> 's"
  | On_burst_time "BurstTimeInfo \<Rightarrow> 's \<Rightarrow> 's"

fun register :: "'s registration \<Rightarrow> 's DimListener \<Rightarrow> 's DimListener" where
  "register (On_number EOB_TS f) = registerEobListener f"
| "register (On_number SOB_TS f) = registerSobListener f"
| "register (On_number runNumber f) = registerRunNumberListener f"
| "register (On_number burstNumber f) = registerBurstNumberListener f"
| "register (On_number nextBurstNumber f) = registerNextBurstNumberListener f"
| "register (On_number burstTimeInfo f) = id"
| "register (On_burst_time f) = registerBurstTimeInfoListener f"

text \<open>What a registration makes of an update of a number service, or of the burst times.\<close>

fun on_number :: "dim_service \<Rightarrow> u32 \<Rightarrow> 's registration \<Rightarrow> 's \<Rightarrow> 's" where
  "on_number sv v (On_number sv' f) = (if sv' = sv then f v else id)"
| "on_number sv v (On_burst_time f) = id"

fun on_burst_time :: "BurstTimeInfo \<Rightarrow> 's registration \<Rightarrow> 's \<Rightarrow> 's" where
  "on_burst_time b (On_number sv f) = id"
| "on_burst_time b (On_burst_time f) = f b"

named_theorems listener \<open>registration and dispatch\<close>

lemmas [listener] = registerEobListener_def registerSobListener_def registerRunNumberListener_def
  registerBurstNumberListener_def registerNextBurstNumberListener_def registerBurstTimeInfoListener_def
  infoHandler_def call_all_def no_callbacks_def

lemma infoHandler_number:
  "sv \<noteq> burstTimeInfo \<Longrightarrow>
     infoHandler c (Some sv) (fold register regs no_callbacks) s
       = Inr (fold (on_number sv (word_of_int (getInt c sv))) regs s)"
proof (induction regs rule: rev_induct)
  case Nil
  then show ?case by (cases sv) (simp_all add: listener)
next
  case (snoc r regs)
  then show ?case
  proof (cases r)
    case (On_number sv' f)
    with snoc show ?thesis by (cases sv; cases sv') (simp_all add: listener)
  next
    case (On_burst_time f)
    with snoc show ?thesis by (cases sv) (simp_all add: listener)
  qed
qed

lemma burst_callbacks:
  "fold (\<lambda>callback. callback b) (burstTimeInfoCallbacks (fold register regs no_callbacks)) s
     = fold (on_burst_time b) regs s"
proof (induction regs rule: rev_induct)
  case (snoc r regs)
  then show ?case
  proof (cases r)
    case (On_number sv' f)
    with snoc show ?thesis by (cases sv') (simp_all add: listener)
  qed (simp add: listener)
qed (simp add: listener)

text \<open>
  C30: When a number service changes, exactly the callbacks registered for it run, each once, in the
  order of registration, with the value as \<open>uint\<close>; callbacks of other services never run.
\<close>

theorem infoHandler_dispatch:
  assumes "sv \<noteq> burstTimeInfo"
  shows "infoHandler c (Some sv) (fold register regs no_callbacks) s
    = Inr (fold (on_number sv (word_of_int (getInt c sv))) regs s)"
  using assms by (rule infoHandler_number)

theorem infoHandler_dispatch_witness:
  "infoHandler \<lparr>dim_link = (\<lambda>_. None), dim_data = []\<rparr> (Some runNumber)
     (fold register [On_number runNumber (\<lambda>v s. (1, v) # s), On_number SOB_TS (\<lambda>v s. (2, v) # s),
        On_number runNumber (\<lambda>v s. (3, v) # s)] no_callbacks) ([] :: (nat \<times> u32) list)
     = Inr [(3, 4294967295), (1, 4294967295)]"
  by (subst infoHandler_dispatch) (simp_all add: getInt_def no_link_def)

text \<open>
  An update of the burst times runs the callbacks registered for it, in order, exactly when the
  data is not empty and both the end of burst and the run number are not zero, and gives them the four
  little-endian integers of the first 16 bytes; data of 1 to 15 bytes is read beyond its end.
\<close>

lemma infoHandler_burst_time:
  shows "infoHandler c (Some burstTimeInfo) (fold register regs no_callbacks) s =
    (let d = dim_data c;
         b = \<lparr>bti_burstID = sint (rd32 d 0), bti_sobTime = sint (rd32 d 4),
              bti_eobTime = sint (rd32 d 8), bti_runNumber = sint (rd32 d 12)\<rparr>
     in if d = [] then Inr s
        else if length d < 16 then Inl OutOfBounds
        else if rd32 d 8 = 0 \<or> rd32 d 12 = 0 then Inr s
        else Inr (fold (on_burst_time b) regs s))"
proof -
  have [simp]: "sint (w :: u32) = 0 \<longleftrightarrow> w = 0" for w by (simp add: signed_eq_0_iff)
  show ?thesis
    by (auto simp: infoHandler_def call_all_def read_BurstTimeInfo_def burst_callbacks Let_def)
qed

end
