(* ===== verification/Actions.thy ===== *)
theory Actions
  imports Prelude
begin

text \<open>
  Operations that change a state and may throw, the sequencing and the catching of exceptions, and the
  triples with which they are reasoned about.
\<close>

section \<open>Exceptions\<close>

text \<open>
  The library's C++ wrapper throws \<open>zmq::error_t\<close> with an error number. A computation changes the
  state also when it throws, so the outcome and the state are separate.
\<close>

datatype 'a outcome =
    Ret 'a
  | Throw int
  | Fault fault

type_synonym ('s, 'a) action = "'s \<Rightarrow> 'a outcome \<times> 's"

definition ret :: "'a \<Rightarrow> ('s, 'a) action" where
  "ret x s = (Ret x, s)"

definition bind_act :: "('s, 'a) action \<Rightarrow> ('a \<Rightarrow> ('s, 'b) action) \<Rightarrow> ('s, 'b) action" where
  "bind_act m f s = (case m s of (Ret x, s) \<Rightarrow> f x s | (Throw n, s) \<Rightarrow> (Throw n, s) | (Fault e, s) \<Rightarrow> (Fault e, s))"

definition try_catch :: "('s, 'a) action \<Rightarrow> (int \<Rightarrow> ('s, 'a) action) \<Rightarrow> ('s, 'a) action" where
  "try_catch m handler s = (case m s of (Throw n, s) \<Rightarrow> handler n s | r \<Rightarrow> r)"

definition lift_res :: "'a res \<Rightarrow> ('s, 'a) action" where
  "lift_res r s = (case r of Inl e \<Rightarrow> (Fault e, s) | Inr x \<Rightarrow> (Ret x, s))"

lemma action_simps [simp]:
  "bind_act (ret x) f = f x"
  "m s = (Ret x, t) \<Longrightarrow> bind_act m f s = f x t"
  "m s = (Throw n, t) \<Longrightarrow> bind_act m f s = (Throw n, t)"
  "m s = (Fault e, t) \<Longrightarrow> bind_act m f s = (Fault e, t)"
  by (simp_all add: bind_act_def ret_def fun_eq_iff)

lemma bind_act_assoc: "bind_act (bind_act m f) g = bind_act m (\<lambda>x. bind_act (f x) g)"
  by (rule ext) (simp add: bind_act_def split: prod.splits outcome.splits)

lemma try_catch_simps [simp]:
  "m s = (Ret x, t) \<Longrightarrow> try_catch m f s = (Ret x, t)"
  "m s = (Throw n, t) \<Longrightarrow> try_catch m f s = f n t"
  "m s = (Fault e, t) \<Longrightarrow> try_catch m f s = (Fault e, t)"
  by (simp_all add: try_catch_def)

section \<open>Reasoning about actions\<close>

text \<open>
  From a state with \<open>P\<close> the action returns with \<open>Q\<close>, throws with \<open>E\<close>, or runs into a fault with \<open>F\<close>.
\<close>

definition triple ::
  "(fault \<Rightarrow> bool) \<Rightarrow> ('s \<Rightarrow> bool) \<Rightarrow> ('s, 'a) action \<Rightarrow> ('a \<Rightarrow> 's \<Rightarrow> bool) \<Rightarrow> (int \<Rightarrow> 's \<Rightarrow> bool) \<Rightarrow> bool" where
  "triple F P m Q E \<longleftrightarrow> (\<forall>s. P s \<longrightarrow> (case m s of (Ret x, t) \<Rightarrow> Q x t | (Throw n, t) \<Rightarrow> E n t | (Fault e, t) \<Rightarrow> F e))"

lemma triple_bind:
  assumes "triple F P m R E" "\<And>x. triple F (R x) (f x) Q E"
  shows "triple F P (bind_act m f) Q E"
  unfolding triple_def
proof (intro allI impI)
  fix s assume "P s"
  with assms(1) have m: "case m s of (Ret x, t) \<Rightarrow> R x t | (Throw n, t) \<Rightarrow> E n t | (Fault e, t) \<Rightarrow> F e"
    by (simp add: triple_def)
  obtain r t where mr: "m s = (r, t)" by fastforce
  show "case bind_act m f s of (Ret x, t) \<Rightarrow> Q x t | (Throw n, t) \<Rightarrow> E n t | (Fault e, t) \<Rightarrow> F e"
    using m mr assms(2) unfolding triple_def by (cases r) (auto simp: bind_act_def)
qed

lemma triple_catch:
  assumes "triple F P m Q R" "\<And>n. triple F (R n) (h n) Q E"
  shows "triple F P (try_catch m h) Q E"
  unfolding triple_def
proof (intro allI impI)
  fix s assume "P s"
  with assms(1) have m: "case m s of (Ret x, t) \<Rightarrow> Q x t | (Throw n, t) \<Rightarrow> R n t | (Fault e, t) \<Rightarrow> F e"
    by (simp add: triple_def)
  obtain r t where mr: "m s = (r, t)" by fastforce
  show "case try_catch m h s of (Ret x, t) \<Rightarrow> Q x t | (Throw n, t) \<Rightarrow> E n t | (Fault e, t) \<Rightarrow> F e"
    using m mr assms(2) unfolding triple_def by (cases r) (auto simp: try_catch_def)
qed

lemma triple_ret: "(\<And>s. P s \<Longrightarrow> Q x s) \<Longrightarrow> triple F P (ret x) Q E"
  by (simp add: triple_def ret_def)

lemma triple_conseq:
  assumes "triple F P m Q E" "\<And>s. P' s \<Longrightarrow> P s" "\<And>x s. Q x s \<Longrightarrow> Q' x s" "\<And>n s. E n s \<Longrightarrow> E' n s"
    "\<And>e. F e \<Longrightarrow> F' e"
  shows "triple F' P' m Q' E'"
  unfolding triple_def
proof (intro allI impI)
  fix s assume "P' s"
  with assms(1,2) have m: "case m s of (Ret x, t) \<Rightarrow> Q x t | (Throw n, t) \<Rightarrow> E n t | (Fault e, t) \<Rightarrow> F e"
    by (simp add: triple_def)
  obtain r t where mr: "m s = (r, t)" by fastforce
  show "case m s of (Ret x, t) \<Rightarrow> Q' x t | (Throw n, t) \<Rightarrow> E' n t | (Fault e, t) \<Rightarrow> F' e"
    using m mr assms(3-5) by (cases r) auto
qed

lemma triple_if: "(b \<Longrightarrow> triple F P m Q E) \<Longrightarrow> (\<not> b \<Longrightarrow> triple F P m' Q E) \<Longrightarrow> triple F P (if b then m else m') Q E"
  by simp

lemma triple_guard:
  assumes "triple F P m Q E" "\<And>s. P s \<Longrightarrow> Q d s"
  shows "triple F P (\<lambda>s. if c s then (Ret d, s) else m s) Q E"
  using assms by (simp add: triple_def)

text \<open>\<open>f\<close> of the state stays as it is.\<close>

definition keeps :: "('s \<Rightarrow> 'b) \<Rightarrow> ('s, 'a) action \<Rightarrow> bool" where
  "keeps f m \<longleftrightarrow> (\<forall>s. f (snd (m s)) = f s)"

lemma keeps_bind: "keeps f m \<Longrightarrow> (\<And>x. keeps f (g x)) \<Longrightarrow> keeps f (bind_act m g)"
  by (auto simp: keeps_def bind_act_def split: prod.splits outcome.splits) (metis snd_conv)+

lemma bind_ret [simp]: "bind_act m (\<lambda>_. ret ()) = (m :: ('s, unit) action)" "bind_act m ret = m"
  by (simp_all add: bind_act_def ret_def fun_eq_iff split: prod.splits outcome.splits)

end
