(* ===== verification/ZMQHandler.thy ===== *)
theory ZMQHandler
  imports Actions
begin

text \<open>
  \<open>socket/ZMQHandler.h\<close> and \<open>.cpp\<close>: sockets of ZeroMQ, their book-keeping and sending with
  retry. The library is the parameter \<open>zmq_api\<close> over an opaque
  state \<open>'z\<close>.
\<close>

section \<open>The library and the state\<close>

text \<open>
  Error number 0 is success, or \<open>EAGAIN\<close>, for which the wrapper returns false and throws nothing; the
  code ignores that result. \<open>zmq_recv\<close> gives the message, \<open>None\<close> when it returns false (timeout). A
  socket handle is the library's number of the socket.
\<close>

record 'z zmq_api =
  zmq_socket :: "int \<Rightarrow> 'z \<Rightarrow> (int + nat) \<times> 'z"
  zmq_setsockopt :: "nat \<Rightarrow> int \<Rightarrow> int \<Rightarrow> 'z \<Rightarrow> int \<times> 'z"
  zmq_bind :: "nat \<Rightarrow> string \<Rightarrow> 'z \<Rightarrow> int \<times> 'z"
  zmq_connect :: "nat \<Rightarrow> string \<Rightarrow> 'z \<Rightarrow> int \<times> 'z"
  zmq_connected :: "nat \<Rightarrow> 'z \<Rightarrow> bool"
  zmq_send :: "nat \<Rightarrow> byte list \<Rightarrow> int \<Rightarrow> 'z \<Rightarrow> int \<times> 'z"
  zmq_recv :: "nat \<Rightarrow> 'z \<Rightarrow> (int + byte list option) \<times> 'z"
  zmq_close :: "nat \<Rightarrow> 'z \<Rightarrow> 'z"
  zmq_ctx_new :: "int \<Rightarrow> 'z \<Rightarrow> int \<times> 'z"
  zmq_ctx_term :: "'z \<Rightarrow> 'z"

text \<open>The option numbers of \<open>zmq.h\<close>, and \<open>EINTR\<close>.\<close>

definition ZMQ_LINGER :: int where "ZMQ_LINGER = 17"
definition ZMQ_SNDHWM :: int where "ZMQ_SNDHWM = 23"
definition ZMQ_RCVTIMEO :: int where "ZMQ_RCVTIMEO = 27"
definition ZMQ_PULL :: int where "ZMQ_PULL = 7"
definition ZMQ_PUSH :: int where "ZMQ_PUSH = 8"
definition EINTR :: int where "EINTR = 4"

datatype context_ptr = NullContext | LiveContext | DeletedContext

text \<open>\<open>sockets\<close> is the heap of \<open>zmq::socket_t\<close> objects; a pointer is an address, 0 is null.\<close>

record 'z ZMQHandler =
  context_ptr :: context_ptr
  boundAddresses :: "string set"
  running :: bool
  numberOfActiveSockets :: int
  allSockets :: "nat \<rightharpoonup> string"
  sockets :: "nat heap"
  zlib :: 'z

type_synonym ('z, 'm, 'a) zmq_action = "(('z, 'm) ZMQHandler_scheme, 'a) action"

definition IsRunning :: "('z, 'm) ZMQHandler_scheme \<Rightarrow> bool" where
  "IsRunning s = running s"

definition Stop :: "('z, 'm) ZMQHandler_scheme \<Rightarrow> ('z, 'm) ZMQHandler_scheme" where
  "Stop s = s\<lparr>running := False\<rparr>"

text \<open>The callback that releases the data of a message.\<close>

definition freeZmqMessage :: "nat \<Rightarrow> nat \<Rightarrow> byte list heap \<Rightarrow> byte list heap res" where
  "freeZmqMessage data hint h = heap_delete data h"

definition ZMQ_Initialize :: "'z zmq_api \<Rightarrow> int \<Rightarrow> ('z, 'm, unit) zmq_action" where
  "ZMQ_Initialize api numberOfIOThreads s =
     (case zmq_ctx_new api numberOfIOThreads (zlib s) of (rc, z) \<Rightarrow>
        if rc \<noteq> 0 then (Throw rc, s\<lparr>zlib := z\<rparr>)
        else (Ret (), s\<lparr>zlib := z, context_ptr := LiveContext\<rparr>))"

definition ZMQ_shutdown :: "'z zmq_api \<Rightarrow> ('z, 'm, unit) zmq_action" where
  "ZMQ_shutdown api s = (case context_ptr s of
       NullContext \<Rightarrow> (Ret (), s)
     | LiveContext \<Rightarrow> (Ret (), s\<lparr>zlib := zmq_ctx_term api (zlib s), context_ptr := DeletedContext\<rparr>)
     | DeletedContext \<Rightarrow> (Fault UseAfterFree, s))"

text \<open>A call of the library on a socket object; a non-zero result is thrown.\<close>

definition on_socket :: "nat \<Rightarrow> (nat \<Rightarrow> 'z \<Rightarrow> int \<times> 'z) \<Rightarrow> ('z, 'm, unit) zmq_action" where
  "on_socket p f s = (case heap_read p (sockets s) of
       Inl e \<Rightarrow> (Fault e, s)
     | Inr h \<Rightarrow> (case f h (zlib s) of (rc, z) \<Rightarrow>
         if rc \<noteq> 0 then (Throw rc, s\<lparr>zlib := z\<rparr>) else (Ret (), s\<lparr>zlib := z\<rparr>)))"

text \<open>\<open>new zmq::socket_t\<close>; when the constructor throws no object remains.\<close>

definition new_socket :: "'z zmq_api \<Rightarrow> int \<Rightarrow> ('z, 'm, nat) zmq_action" where
  "new_socket api socketType s = (case context_ptr s of
       NullContext \<Rightarrow> (Fault NullDeref, s)
     | DeletedContext \<Rightarrow> (Fault UseAfterFree, s)
     | LiveContext \<Rightarrow> (case zmq_socket api socketType (zlib s) of
           (Inl n, z) \<Rightarrow> (Throw n, s\<lparr>zlib := z\<rparr>)
         | (Inr h, z) \<Rightarrow> (case heap_new h (sockets s) of (p, hp) \<Rightarrow> (Ret p, s\<lparr>zlib := z, sockets := hp\<rparr>))))"

definition GenerateSocket :: "'z zmq_api \<Rightarrow> string \<Rightarrow> int \<Rightarrow> int \<Rightarrow> ('z, 'm, nat) zmq_action" where
  "GenerateSocket api name socketType highWaterMark =
     bind_act (new_socket api socketType) (\<lambda>socket.
     bind_act (on_socket socket (\<lambda>h. zmq_setsockopt api h ZMQ_LINGER 0)) (\<lambda>_.
     bind_act (on_socket socket (\<lambda>h. zmq_setsockopt api h ZMQ_SNDHWM highWaterMark)) (\<lambda>_ s.
     (Ret socket, s\<lparr>numberOfActiveSockets := numberOfActiveSockets s + 1,
                    allSockets := (allSockets s)(socket \<mapsto> name)\<rparr>))))"

text \<open>The names of the remaining sockets are only logged.\<close>

definition DestroySocket :: "'z zmq_api \<Rightarrow> nat \<Rightarrow> ('z, 'm, unit) zmq_action" where
  "DestroySocket api socket s =
     (if socket = 0 then (Ret (), s)
      else let s = s\<lparr>allSockets := (allSockets s)(socket := None)\<rparr>
        in case heap_read socket (sockets s) of
             Inl e \<Rightarrow> (Fault e, s)
           | Inr h \<Rightarrow> bind_act (lift_res (heap_delete socket (sockets s))) (\<lambda>hp s.
               (Ret (), s\<lparr>zlib := zmq_close api h (zlib s), sockets := hp,
                  numberOfActiveSockets := numberOfActiveSockets s - 1\<rparr>)) s)"

definition show_int :: "int \<Rightarrow> string" where
  "show_int i = (if i < 0 then ''-'' @ show_nat (nat (- i)) else show_nat (nat i))"

definition GetEBL0Address :: "int \<Rightarrow> string" where
  "GetEBL0Address threadNum = ''inproc://EB/'' @ show_int threadNum @ ''/L0''"

definition GetEBLKrAddress :: "int \<Rightarrow> string" where
  "GetEBLKrAddress threadNum = ''inproc://EB/'' @ show_int threadNum @ ''/LKr''"

section \<open>sendMessage\<close>

text \<open>
  \<open>IsRunning\<close> is read before every attempt and other threads may call \<open>Stop\<close> in between: \<open>stopped i\<close>
  says whether one has before the \<open>i\<close>-th test. \<open>None\<close> when the loop does not end.
\<close>

partial_function (option) send_attempts ::
  "'z zmq_api \<Rightarrow> (nat \<Rightarrow> bool) \<Rightarrow> nat \<Rightarrow> nat \<Rightarrow> byte list \<Rightarrow> int \<Rightarrow> ('z, 'm) ZMQHandler_scheme
     \<Rightarrow> (unit outcome \<times> ('z, 'm) ZMQHandler_scheme) option" where
  "send_attempts api stopped i socket msg flags s =
     (if \<not> IsRunning s \<or> stopped i then Some (Ret (), s)
      else case on_socket socket (\<lambda>h. zmq_send api h msg flags) s of
          (Ret _, s) \<Rightarrow> Some (Ret (), s)
        | (Fault e, s) \<Rightarrow> Some (Fault e, s)
        | (Throw n, s) \<Rightarrow> if n \<noteq> EINTR then Some (DestroySocket api socket s)
                         else send_attempts api stopped (i + 1) socket msg flags s)"

definition sendMessage ::
  "'z zmq_api \<Rightarrow> (nat \<Rightarrow> bool) \<Rightarrow> nat \<Rightarrow> byte list \<Rightarrow> int \<Rightarrow> ('z, 'm) ZMQHandler_scheme
     \<Rightarrow> (unit outcome \<times> ('z, 'm) ZMQHandler_scheme) option" where
  "sendMessage api stopped socket msg flags s = send_attempts api stopped 0 socket msg flags s"

section \<open>Book-keeping of the sockets\<close>

lemma on_socket_cases:
  obtains (dead) e where "heap_read p (sockets s) = Inl e" "on_socket p f s = (Fault e, s)"
  | (finished) h z where "heap_read p (sockets s) = Inr h" "f h (zlib s) = (0, z)"
      "on_socket p f s = (Ret (), s\<lparr>zlib := z\<rparr>)"
  | (thrown) h n z where "heap_read p (sockets s) = Inr h" "f h (zlib s) = (n, z)" "n \<noteq> 0"
      "on_socket p f s = (Throw n, s\<lparr>zlib := z\<rparr>)"
proof (cases "heap_read p (sockets s)")
  case (Inl e)
  then show ?thesis by (intro that(1) [of e]) (simp_all add: on_socket_def)
next
  case (Inr h)
  obtain n z where f: "f h (zlib s) = (n, z)" by fastforce
  show ?thesis
  proof (cases "n = 0")
    case True
    with Inr f show ?thesis by (intro that(2) [of h z]) (simp_all add: on_socket_def)
  next
    case False
    with Inr f show ?thesis by (intro that(3) [of h n z]) (simp_all add: on_socket_def)
  qed
qed

text \<open>
  The registered sockets are live objects and \<open>numberOfActiveSockets_\<close> is their number.
\<close>

definition sockets_ok :: "('z, 'm) ZMQHandler_scheme \<Rightarrow> bool" where
  "sockets_ok s \<longleftrightarrow> heap_ok (sockets s) \<and> finite (dom (allSockets s))
     \<and> dom (allSockets s) \<subseteq> dom (live (sockets s))
     \<and> numberOfActiveSockets s = int (card (dom (allSockets s)))"

definition same_books :: "('z, 'm) ZMQHandler_scheme \<Rightarrow> ('z, 'm) ZMQHandler_scheme \<Rightarrow> bool" where
  "same_books s t \<longleftrightarrow> allSockets t = allSockets s \<and> numberOfActiveSockets t = numberOfActiveSockets s
     \<and> context_ptr t = context_ptr s \<and> running t = running s \<and> boundAddresses t = boundAddresses s"

lemma sockets_ok_same:
  "sockets_ok s \<Longrightarrow> same_books s t \<Longrightarrow> sockets t = sockets s \<Longrightarrow> sockets_ok t"
  by (simp add: sockets_ok_def same_books_def)

lemma sockets_ok_leak:
  "sockets_ok s \<Longrightarrow> same_books s t \<Longrightarrow> heap_new h (sockets s) = (p, sockets t) \<Longrightarrow> sockets_ok t"
  using heap_ok_new [of "sockets s" h p "sockets t"] heap_new_fresh [of "sockets s" h p "sockets t"]
  by (auto simp: sockets_ok_def same_books_def)

lemma sockets_ok_register:
  assumes "sockets_ok s" "heap_new h (sockets s) = (p, sockets t)"
    "allSockets t = (allSockets s)(p \<mapsto> name)" "numberOfActiveSockets t = numberOfActiveSockets s + 1"
  shows "sockets_ok t"
proof -
  have "live (sockets s) p = None" "live (sockets t) = (live (sockets s))(p \<mapsto> h)" "heap_ok (sockets t)"
    using assms(1,2) heap_new_fresh [of "sockets s" h p "sockets t"] heap_ok_new [of "sockets s" h p "sockets t"]
    by (auto simp: sockets_ok_def)
  moreover from this assms(1) have "p \<notin> dom (allSockets s)" by (auto simp: sockets_ok_def)
  ultimately show ?thesis using assms(1,3,4) by (auto simp: sockets_ok_def)
qed

text \<open>Setting the two options of a live socket.\<close>

lemma on_socket_live:
  assumes "heap_read p (sockets s) = Inr h" "f h (zlib s) = (n, z)"
  shows "on_socket p f s = (if n \<noteq> 0 then Throw n else Ret (), s\<lparr>zlib := z\<rparr>)"
  using assms by (simp add: on_socket_def)

definition set_options :: "'z zmq_api \<Rightarrow> int \<Rightarrow> nat \<Rightarrow> ('z, 'm, unit) zmq_action" where
  "set_options api highWaterMark p =
     bind_act (on_socket p (\<lambda>h. zmq_setsockopt api h ZMQ_LINGER 0)) (\<lambda>_.
     on_socket p (\<lambda>h. zmq_setsockopt api h ZMQ_SNDHWM highWaterMark))"

lemma GenerateSocket_options:
  "GenerateSocket api name socketType highWaterMark =
     bind_act (new_socket api socketType) (\<lambda>socket.
     bind_act (set_options api highWaterMark socket) (\<lambda>_ s.
     (Ret socket, s\<lparr>numberOfActiveSockets := numberOfActiveSockets s + 1,
                    allSockets := (allSockets s)(socket \<mapsto> name)\<rparr>)))"
  by (simp only: GenerateSocket_def set_options_def bind_act_assoc)

lemma set_options_cases:
  assumes "heap_read p (sockets s) = Inr h"
  obtains (thrown) n z where "set_options api highWaterMark p s = (Throw n, s\<lparr>zlib := z\<rparr>)" "n \<noteq> 0"
  | (set) z where "set_options api highWaterMark p s = (Ret (), s\<lparr>zlib := z\<rparr>)"
proof -
  obtain n1 z1 where o1: "zmq_setsockopt api h ZMQ_LINGER 0 (zlib s) = (n1, z1)" by fastforce
  obtain n2 z2 where o2: "zmq_setsockopt api h ZMQ_SNDHWM highWaterMark z1 = (n2, z2)" by fastforce
  note first = on_socket_live [OF assms, where f = "\<lambda>h. zmq_setsockopt api h ZMQ_LINGER 0", OF o1]
  have second: "on_socket p (\<lambda>h. zmq_setsockopt api h ZMQ_SNDHWM highWaterMark) (s\<lparr>zlib := z1\<rparr>)
      = (if n2 \<noteq> 0 then Throw n2 else Ret (), s\<lparr>zlib := z2\<rparr>)"
    using assms o2 by (subst on_socket_live [where h = h]) simp_all
  consider "n1 \<noteq> 0" | "n1 = 0" "n2 \<noteq> 0" | "n1 = 0" "n2 = 0" by blast
  then show ?thesis
    by cases (use that first second in \<open>auto simp: set_options_def bind_act_def\<close>)
qed

text \<open>The outcomes of \<open>GenerateSocket\<close>.\<close>

lemma GenerateSocket_cases:
  assumes "sockets_ok s"
  obtains (fault) "context_ptr s \<noteq> LiveContext"
      "\<exists>e. GenerateSocket api name socketType highWaterMark s = (Fault e, s)"
  | (refused) n t where "context_ptr s = LiveContext"
      "GenerateSocket api name socketType highWaterMark s = (Throw n, t)"
      "same_books s t" "sockets t = sockets s"
  | (leak) n t p h where "context_ptr s = LiveContext"
      "GenerateSocket api name socketType highWaterMark s = (Throw n, t)" "n \<noteq> 0"
      "same_books s t" "heap_new h (sockets s) = (p, sockets t)"
  | (new) p h t where "context_ptr s = LiveContext"
      "GenerateSocket api name socketType highWaterMark s = (Ret p, t)"
      "heap_new h (sockets s) = (p, sockets t)" "allSockets t = (allSockets s)(p \<mapsto> name)"
      "numberOfActiveSockets t = numberOfActiveSockets s + 1" "context_ptr t = context_ptr s"
      "running t = running s" "boundAddresses t = boundAddresses s"
proof (cases "context_ptr s")
  case LiveContext
  obtain r z where socket: "zmq_socket api socketType (zlib s) = (r, z)" by fastforce
  show ?thesis
  proof (cases r)
    case (Inl n)
    with socket LiveContext show ?thesis
      by (intro that(2) [of n "s\<lparr>zlib := z\<rparr>"])
        (simp_all add: GenerateSocket_def bind_act_def new_socket_def same_books_def)
  next
    case (Inr h)
    obtain p hp where p: "heap_new h (sockets s) = (p, hp)" by fastforce
    define s1 where "s1 = s\<lparr>zlib := z, sockets := hp\<rparr>"
    have s1: "new_socket api socketType s = (Ret p, s1)"
      using socket Inr LiveContext p by (simp add: new_socket_def s1_def)
    have "live hp p = Some h" "heap_ok hp" "0 < p"
      using heap_new_fresh [OF _ p] heap_ok_new [OF _ p] assms by (simp_all add: sockets_ok_def)
    then have hp: "heap_read p (sockets s1) = Inr h" by (simp add: heap_read_def s1_def)
    note d = GenerateSocket_options s1
    have same: "same_books s (s1\<lparr>zlib := x\<rparr>)" "sockets (s1\<lparr>zlib := x\<rparr>) = hp" for x
      by (simp_all add: same_books_def s1_def)
    from hp show ?thesis
    proof (cases rule: set_options_cases [where api = api and highWaterMark = highWaterMark])
      case (thrown n z)
      then have "GenerateSocket api name socketType highWaterMark s = (Throw n, s1\<lparr>zlib := z\<rparr>)"
        by (simp add: d)
      from that(3) [OF LiveContext this thrown(2)] p same show ?thesis by simp
    next
      case (set z)
      then have "GenerateSocket api name socketType highWaterMark s
          = (Ret p, s1\<lparr>zlib := z, numberOfActiveSockets := numberOfActiveSockets s1 + 1,
              allSockets := (allSockets s1)(p \<mapsto> name)\<rparr>)"
        by (simp add: d)
      from that(4) [OF LiveContext this, of h] p show ?thesis by (simp add: s1_def)
    qed
  qed
qed (auto intro!: that(1) simp: GenerateSocket_def bind_act_def new_socket_def)

lemma sockets_ok_GenerateSocket:
  assumes "sockets_ok s" "GenerateSocket api name socketType highWaterMark s = (r, t)"
  shows "sockets_ok t"
  using assms(1)
proof (cases rule: GenerateSocket_cases [where api = api and name = name and socketType = socketType
      and highWaterMark = highWaterMark])
  case fault
  with assms show ?thesis by auto
next
  case (refused n u)
  with assms show ?thesis by (auto intro: sockets_ok_same)
next
  case (leak n u p h)
  with assms show ?thesis by (auto intro: sockets_ok_leak)
next
  case (new p h u)
  with assms show ?thesis by (auto intro: sockets_ok_register)
qed

lemma DestroySocket_registered:
  assumes "sockets_ok s" "allSockets s p = Some name"
  obtains h t where "live (sockets s) p = Some h" "DestroySocket api p s = (Ret (), t)" "sockets_ok t"
    "allSockets t = (allSockets s)(p := None)" "live (sockets t) = (live (sockets s))(p := None)"
    "numberOfActiveSockets t = numberOfActiveSockets s - 1" "zlib t = zmq_close api h (zlib s)"
    "context_ptr t = context_ptr s" "running t = running s"
proof -
  from assms obtain h where h: "live (sockets s) p = Some h" and ok: "heap_ok (sockets s)"
    by (force simp: sockets_ok_def)
  then have p: "0 < p" by (auto simp: heap_ok_def)
  define t where "t = s\<lparr>allSockets := (allSockets s)(p := None), zlib := zmq_close api h (zlib s),
     sockets := (sockets s)\<lparr>live := (live (sockets s))(p := None)\<rparr>,
     numberOfActiveSockets := numberOfActiveSockets s - 1\<rparr>"
  have "DestroySocket api p s = (Ret (), t)"
    using p h ok by (simp add: DestroySocket_def t_def bind_act_def lift_res_def heap_read_live heap_delete_live)
  moreover have "sockets_ok t"
  proof -
    have "card (dom (allSockets s)) = Suc (card (dom (allSockets s) - {p}))"
      using assms by (intro card.remove) (auto simp: sockets_ok_def)
    with assms show ?thesis by (auto simp: sockets_ok_def t_def intro: heap_ok_upd)
  qed
  ultimately show ?thesis using h by (intro that [of h t]) (simp_all add: t_def)
qed

section \<open>What the clients rely on\<close>

text \<open>
  A component that keeps pointers to sockets: each non-null one is a socket of its own.
\<close>

definition own_sockets :: "('x \<Rightarrow> nat) \<Rightarrow> bool" where
  "own_sockets f \<longleftrightarrow> (\<forall>x y. f x = f y \<and> f x \<noteq> 0 \<longrightarrow> x = y)"

lemma own_sockets_upd: "own_sockets f \<Longrightarrow> p \<noteq> 0 \<longrightarrow> (\<forall>y. f y \<noteq> p) \<Longrightarrow> own_sockets (f(x := p))"
  unfolding own_sockets_def by (metis fun_upd_apply)

lemma own_sockets_other: "own_sockets f \<Longrightarrow> f x \<noteq> 0 \<Longrightarrow> y \<noteq> x \<Longrightarrow> f y \<noteq> f x"
  unfolding own_sockets_def by metis

text \<open>
  The contract: what \<open>GenerateSocket\<close> and \<open>DestroySocket\<close> do to the set of registered sockets, and that
  they leave the client's own state alone.
\<close>

locale socket_provider =
  fixes generate_socket :: "string \<Rightarrow> int \<Rightarrow> int \<Rightarrow> ('s, nat) action"
    and destroy_socket :: "nat \<Rightarrow> ('s, unit) action"
    and usable :: "'s \<Rightarrow> bool"
    and registered :: "'s \<Rightarrow> nat set"
    and client :: "'s \<Rightarrow> 'c"
  assumes generate_law: "usable s \<Longrightarrow> generate_socket name socketType highWaterMark s = (r, t) \<Longrightarrow>
      usable t \<and> client t = client s \<and> (case r of
          Ret p \<Rightarrow> p \<noteq> 0 \<and> p \<notin> registered s \<and> registered t = insert p (registered s)
        | Throw n \<Rightarrow> registered t = registered s
        | Fault e \<Rightarrow> False)"
    and destroy_law: "usable s \<Longrightarrow> p \<in> registered s \<Longrightarrow> \<exists>t. destroy_socket p s = (Ret (), t)
      \<and> usable t \<and> client t = client s \<and> registered t = registered s - {p}"
    and destroy_null: "destroy_socket 0 s = (Ret (), s)"
    and not_null: "usable s \<Longrightarrow> 0 \<notin> registered s"
begin

lemma generate_socket_triple:
  "triple F (\<lambda>s. usable s \<and> registered s = S \<and> client s = c) (generate_socket name socketType highWaterMark)
     (\<lambda>p s. usable s \<and> p \<noteq> 0 \<and> p \<notin> S \<and> registered s = insert p S \<and> client s = c)
     (\<lambda>_ s. usable s \<and> registered s = S \<and> client s = c)"
  unfolding triple_def
proof (intro allI impI)
  fix s assume s: "usable s \<and> registered s = S \<and> client s = c"
  then have u: "usable s" and c: "registered s = S" "client s = c" by blast+
  obtain r t where g: "generate_socket name socketType highWaterMark s = (r, t)" by fastforce
  note law = generate_law [OF u g, unfolded c]
  show "case generate_socket name socketType highWaterMark s of
      (Ret p, t) \<Rightarrow> usable t \<and> p \<noteq> 0 \<and> p \<notin> S \<and> registered t = insert p S \<and> client t = c
    | (Throw n, t) \<Rightarrow> usable t \<and> registered t = S \<and> client t = c | (Fault e, t) \<Rightarrow> F e"
    unfolding g using law by (cases r) simp_all
qed

lemma destroy_socket_triple:
  assumes "p = 0 \<or> p \<in> S"
  shows "triple F (\<lambda>s. usable s \<and> registered s = S \<and> client s = c) (destroy_socket p)
     (\<lambda>_ s. usable s \<and> registered s = S - {p} \<and> client s = c) E"
  unfolding triple_def
proof (intro allI impI)
  fix s assume s: "usable s \<and> registered s = S \<and> client s = c"
  show "case destroy_socket p s of (Ret u, t) \<Rightarrow> usable t \<and> registered t = S - {p} \<and> client t = c
    | (Throw n, t) \<Rightarrow> E n t | (Fault e, t) \<Rightarrow> F e"
  proof (cases "p = 0")
    case True
    from s have "p \<notin> S" using not_null [of s] True by blast
    then show ?thesis using s True by (simp add: destroy_null)
  next
    case False
    with assms s have "usable s" "p \<in> registered s" by blast+
    from destroy_law [OF this] obtain t where t: "destroy_socket p s = (Ret (), t)" "usable t"
      "client t = client s" "registered t = registered s - {p}" by blast
    show ?thesis unfolding t(1) using t(2-4) s by simp
  qed
qed

text \<open>A socket that is made and destroyed leaves no trace in the register.\<close>

lemma generate_destroy:
  "triple F (\<lambda>s. usable s \<and> registered s = S \<and> client s = c)
     (bind_act (generate_socket name socketType highWaterMark) destroy_socket)
     (\<lambda>_ s. usable s \<and> registered s = S \<and> client s = c)
     (\<lambda>_ s. usable s \<and> registered s = S \<and> client s = c)"
proof (rule triple_bind [OF generate_socket_triple])
  fix p
  show "triple F (\<lambda>s. usable s \<and> p \<noteq> 0 \<and> p \<notin> S \<and> registered s = insert p S \<and> client s = c) (destroy_socket p)
     (\<lambda>_ s. usable s \<and> registered s = S \<and> client s = c) (\<lambda>_ s. usable s \<and> registered s = S \<and> client s = c)"
  proof (cases "p \<notin> S")
    case True
    then have "insert p S - {p} = S" by simp
    with destroy_socket_triple [of p "insert p S" F c] show ?thesis
      by (intro triple_conseq [OF destroy_socket_triple [of p "insert p S" F c "\<lambda>_ _. False"]]) simp_all
  qed (simp add: triple_def)
qed

text \<open>A client's pointers after one has got a new socket, or has been destroyed and forgotten.\<close>

lemma table_new:
  assumes "usable s" "own_sockets f" "\<forall>y. f y \<noteq> 0 \<longrightarrow> f y \<in> registered s"
    and "generate_socket name socketType highWaterMark s = (Ret p, t)"
  shows "own_sockets (f(x := p))" "\<forall>y. (f(x := p)) y \<noteq> 0 \<longrightarrow> (f(x := p)) y \<in> registered t"
proof -
  have p: "p \<noteq> 0" "p \<notin> registered s" "registered t = insert p (registered s)"
    using generate_law [OF assms(1,4)] by simp_all
  then have "\<forall>y. f y \<noteq> p" using assms(3) by metis
  then show "own_sockets (f(x := p))" by (simp add: own_sockets_upd [OF assms(2)])
  show "\<forall>y. (f(x := p)) y \<noteq> 0 \<longrightarrow> (f(x := p)) y \<in> registered t" using p assms(3) by simp
qed

lemma table_forget:
  assumes "usable s" "own_sockets f" "\<forall>y. f y \<noteq> 0 \<longrightarrow> f y \<in> registered s"
  obtains t where "destroy_socket (f x) s = (Ret (), t)" "usable t" "client t = client s"
    "own_sockets (f(x := 0))" "\<forall>y. (f(x := 0)) y \<noteq> 0 \<longrightarrow> (f(x := 0)) y \<in> registered t"
proof (cases "f x = 0")
  case True
  with assms show ?thesis by (intro that [of s]) (simp_all add: destroy_null fun_upd_idem)
next
  case False
  with assms destroy_law [of s "f x"] obtain t where t: "destroy_socket (f x) s = (Ret (), t)" "usable t"
    "client t = client s" "registered t = registered s - {f x}" by auto
  have "f y \<noteq> f x" if "y \<noteq> x" for y using own_sockets_other [OF assms(2) False that] .
  then have "\<forall>y. (f(x := 0)) y \<noteq> 0 \<longrightarrow> (f(x := 0)) y \<in> registered t" using t(4) assms(3) by simp
  with t show ?thesis by (intro that [of t]) (simp_all add: own_sockets_upd [OF assms(2)])
qed

end

text \<open>\<open>ZMQHandler\<close> fulfils it for every client, whose state is the extension of the record.\<close>

definition zmq_usable :: "('z, 'm) ZMQHandler_scheme \<Rightarrow> bool" where
  "zmq_usable s \<longleftrightarrow> sockets_ok s \<and> context_ptr s = LiveContext"

abbreviation client_state :: "('z, 'm) ZMQHandler_scheme \<Rightarrow> 'm" where
  "client_state \<equiv> ZMQHandler.ZMQHandler.more"

lemma client_state_upd [simp]:
  "client_state (s\<lparr>zlib := z\<rparr>) = client_state s" "client_state (s\<lparr>sockets := h\<rparr>) = client_state s"
  "client_state (s\<lparr>numberOfActiveSockets := n\<rparr>) = client_state s" "client_state (s\<lparr>allSockets := m\<rparr>) = client_state s"
  by (cases s; simp)+

lemma client_state_keeps:
  "keeps client_state (new_socket api socketType)" "keeps client_state (on_socket p g)"
  by (auto simp: keeps_def new_socket_def on_socket_def split: context_ptr.splits sum.splits prod.splits)

lemma client_state_GenerateSocket: "keeps client_state (GenerateSocket api name socketType highWaterMark)"
  unfolding GenerateSocket_def by (intro keeps_bind client_state_keeps) (simp add: keeps_def)

lemma client_state_DestroySocket: "keeps client_state (DestroySocket api p)"
  by (auto simp: keeps_def DestroySocket_def bind_act_def lift_res_def Let_def split: sum.splits prod.splits if_splits)

interpretation zmq_sockets: socket_provider "GenerateSocket api" "DestroySocket api" zmq_usable
    "\<lambda>s. dom (allSockets s)" client_state
  for api
proof unfold_locales
  fix name socketType highWaterMark r t and s :: "('a, 'b) ZMQHandler_scheme"
  assume "zmq_usable s" and g: "GenerateSocket api name socketType highWaterMark s = (r, t)"
  then have s: "sockets_ok s" "context_ptr s = LiveContext" by (simp_all add: zmq_usable_def)
  have keep: "client_state t = client_state s"
    using client_state_GenerateSocket [of api name socketType highWaterMark] g unfolding keeps_def by (metis snd_conv)
  show "zmq_usable t \<and> client_state t = client_state s \<and> (case r of
          Ret p \<Rightarrow> p \<noteq> 0 \<and> p \<notin> dom (allSockets s) \<and> dom (allSockets t) = insert p (dom (allSockets s))
        | Throw n \<Rightarrow> dom (allSockets t) = dom (allSockets s) | Fault e \<Rightarrow> False)"
    using s(1)
  proof (cases rule: GenerateSocket_cases [where api = api and name = name and socketType = socketType
        and highWaterMark = highWaterMark])
    case fault
    with s show ?thesis by simp
  next
    case (refused n u)
    with g s keep show ?thesis by (auto simp: same_books_def zmq_usable_def intro: sockets_ok_same)
  next
    case (leak n u p h)
    with g s keep show ?thesis by (auto simp: same_books_def zmq_usable_def intro: sockets_ok_leak)
  next
    case (new p h u)
    have "p \<noteq> 0" "p \<notin> dom (allSockets s)"
      using heap_new_fresh [OF _ new(3)] s(1) by (auto simp: sockets_ok_def)
    with new g s keep sockets_ok_register [OF s(1) new(3-5)] show ?thesis by (auto simp: zmq_usable_def)
  qed
next
  fix s :: "('a, 'b) ZMQHandler_scheme" and p
  assume "zmq_usable s" "p \<in> dom (allSockets s)"
  then obtain name where s: "sockets_ok s" "allSockets s p = Some name" "context_ptr s = LiveContext"
    by (auto simp: zmq_usable_def)
  obtain h t where t: "DestroySocket api p s = (Ret (), t)" "sockets_ok t"
    "allSockets t = (allSockets s)(p := None)" "context_ptr t = context_ptr s"
    by (rule DestroySocket_registered [OF s(1,2), where api = api])
  have "client_state t = client_state s"
    using client_state_DestroySocket [of api p] t(1) unfolding keeps_def by (metis snd_conv)
  with t s(3) show "\<exists>t. DestroySocket api p s = (Ret (), t) \<and> zmq_usable t \<and> client_state t = client_state s
      \<and> dom (allSockets t) = dom (allSockets s) - {p}" by (auto simp: zmq_usable_def)
next
  fix s :: "('a, 'b) ZMQHandler_scheme"
  show "DestroySocket api 0 s = (Ret (), s)" by (simp add: DestroySocket_def)
  show "0 \<notin> dom (allSockets s)" if "zmq_usable s"
    using that by (fastforce simp: zmq_usable_def sockets_ok_def heap_ok_def)
qed

section \<open>Any sequence\<close>

text \<open>
  Any sequence of the two operations, in which only registered sockets and null pointers are
  destroyed and the callers catch what is thrown.
\<close>

inductive socket_run :: "'z zmq_api \<Rightarrow> ('z, 'm) ZMQHandler_scheme \<Rightarrow> ('z, 'm) ZMQHandler_scheme \<Rightarrow> bool"
  for api s where
  start: "socket_run api s s"
| generate: "socket_run api s t \<Longrightarrow> GenerateSocket api name socketType highWaterMark t = (r, u) \<Longrightarrow>
    \<nexists>e. r = Fault e \<Longrightarrow> socket_run api s u"
| destroy: "socket_run api s t \<Longrightarrow> p = 0 \<or> p \<in> dom (allSockets t) \<Longrightarrow> DestroySocket api p t = (r, u) \<Longrightarrow>
    socket_run api s u"

lemma sockets_ok_run: "socket_run api s t \<Longrightarrow> sockets_ok s \<Longrightarrow> sockets_ok t"
proof (induction rule: socket_run.induct)
  case (generate t name socketType highWaterMark r u)
  then show ?case by (auto intro: sockets_ok_GenerateSocket)
next
  case (destroy t p r u)
  show ?case
  proof (cases "p = 0")
    case True
    with destroy show ?thesis by (simp add: DestroySocket_def)
  next
    case False
    with destroy obtain name where "allSockets t p = Some name" by auto
    moreover have "sockets_ok t" using destroy by simp
    ultimately have "\<exists>v. DestroySocket api p t = (Ret (), v) \<and> sockets_ok v"
      by (metis DestroySocket_registered)
    then obtain v where "DestroySocket api p t = (Ret (), v)" "sockets_ok v" by blast
    with destroy show ?thesis by simp
  qed
qed

text \<open>
  C17: Through any sequence of generated and destroyed sockets, with exceptions of the library at any
  call, the active count is the number of registered sockets, these are live, and each can be
  destroyed: that succeeds, frees exactly this object, removes its entry and lowers the count by one.
\<close>

theorem sockets_accounted:
  assumes "socket_run api s t" and "sockets_ok s"
  shows "numberOfActiveSockets t = int (card (dom (allSockets t)))
    \<and> (\<forall>p \<in> dom (allSockets t). live (sockets t) p \<noteq> None
        \<and> (\<exists>u. DestroySocket api p t = (Ret (), u) \<and> allSockets u = (allSockets t)(p := None)
             \<and> live (sockets u) = (live (sockets t))(p := None)
             \<and> numberOfActiveSockets u = numberOfActiveSockets t - 1))"
proof -
  from assms have ok: "sockets_ok t" by (rule sockets_ok_run)
  moreover have "live (sockets t) p \<noteq> None \<and> (\<exists>u. DestroySocket api p t = (Ret (), u)
      \<and> allSockets u = (allSockets t)(p := None) \<and> live (sockets u) = (live (sockets t))(p := None)
      \<and> numberOfActiveSockets u = numberOfActiveSockets t - 1)" if p: "p \<in> dom (allSockets t)" for p
  proof -
    from p obtain name where "allSockets t p = Some name" by auto
    from DestroySocket_registered [OF ok this, of api] show ?thesis by (metis option.distinct(1))
  qed
  ultimately show ?thesis by (simp add: sockets_ok_def)
qed

text \<open>A library that accepts everything but a high water mark of 0; its state counts the sockets it made.\<close>

definition numbering_zmq :: "nat zmq_api" where
  "numbering_zmq = \<lparr>zmq_socket = (\<lambda>_ z. (Inr (z + 1), z + 1)),
     zmq_setsockopt = (\<lambda>_ opt v z. (if opt = ZMQ_SNDHWM \<and> v = 0 then 22 else 0, z)),
     zmq_bind = (\<lambda>_ _ z. (0, z)), zmq_connect = (\<lambda>_ a z. (if a = ''refused'' then 111 else 0, z)),
     zmq_connected = (\<lambda>_ _. True),
     zmq_send = (\<lambda>_ _ _ z. (if z = 0 then 0 else EINTR, z - 1)), zmq_recv = (\<lambda>_ z. (Inr (Some [2, 0, 0, 0]), z)),
     zmq_close = (\<lambda>_ z. z), zmq_ctx_new = (\<lambda>_ z. (0, z)), zmq_ctx_term = (\<lambda>z. z)\<rparr>"

definition fresh_handler :: "nat ZMQHandler" where
  "fresh_handler = \<lparr>context_ptr = LiveContext, boundAddresses = {}, running = True, numberOfActiveSockets = 0,
     allSockets = Map.empty, sockets = \<lparr>fresh = 1, live = Map.empty\<rparr>, zlib = 0\<rparr>"

lemma fresh_handler_ok: "sockets_ok fresh_handler"
  by (simp add: sockets_ok_def fresh_handler_def heap_ok_def)

lemmas numbering_step = GenerateSocket_def bind_act_def new_socket_def on_socket_def heap_new_def heap_read_def
  numbering_zmq_def ZMQ_LINGER_def ZMQ_SNDHWM_def

theorem sockets_accounted_witness:
  "\<exists>t. socket_run numbering_zmq fresh_handler t \<and> dom (allSockets t) = {1 :: nat}
     \<and> live (sockets t) = [1 \<mapsto> 1, 2 \<mapsto> 2] \<and> numberOfActiveSockets t = int (card {1 :: nat})"
proof -
  let ?s1 = "fresh_handler\<lparr>numberOfActiveSockets := 1, allSockets := [1 \<mapsto> ''a''], zlib := 1,
      sockets := \<lparr>fresh = 2, live = [1 \<mapsto> 1]\<rparr>\<rparr>"
  let ?s2 = "?s1\<lparr>zlib := 2, sockets := \<lparr>fresh = 3, live = [1 \<mapsto> 1, 2 \<mapsto> 2]\<rparr>\<rparr>"
  have "GenerateSocket numbering_zmq ''a'' ZMQ_PUSH 10 fresh_handler = (Ret 1, ?s1)"
    by (simp add: numbering_step fresh_handler_def)
  then have 1: "socket_run numbering_zmq fresh_handler ?s1"
    by (rule socket_run.generate [OF socket_run.start]) simp
  have "GenerateSocket numbering_zmq ''b'' ZMQ_PUSH 0 ?s1 = (Throw 22, ?s2)"
    by (simp add: numbering_step fresh_handler_def numeral_2_eq_2 numeral_3_eq_3)
  then have 2: "socket_run numbering_zmq fresh_handler ?s2"
    by (rule socket_run.generate [OF 1]) simp
  have books: "dom (allSockets ?s2) = {1}" "live (sockets ?s2) = [1 \<mapsto> 1, 2 \<mapsto> 2]" by simp_all
  from sockets_accounted [OF 2 fresh_handler_ok] have "numberOfActiveSockets ?s2 = int (card (dom (allSockets ?s2)))"
    by (rule conjunct1)
  with 2 books show ?thesis by metis
qed

lemma GenerateSocket_outcomes_lemma:
  assumes "sockets_ok s" and "context_ptr s = LiveContext"
    and "GenerateSocket api name socketType highWaterMark s = (r, t)"
  shows "case r of
      Ret p \<Rightarrow> p \<noteq> 0 \<and> live (sockets s) p = None \<and> dom (live (sockets t)) = insert p (dom (live (sockets s)))
        \<and> allSockets t = (allSockets s)(p \<mapsto> name) \<and> numberOfActiveSockets t = numberOfActiveSockets s + 1
    | Throw n \<Rightarrow> allSockets t = allSockets s \<and> numberOfActiveSockets t = numberOfActiveSockets s
        \<and> (live (sockets t) = live (sockets s)
           \<or> (\<exists>p. p \<notin> dom (live (sockets s)) \<and> dom (live (sockets t)) = insert p (dom (live (sockets s)))))
    | Fault e \<Rightarrow> False"
  using assms(1)
proof (cases rule: GenerateSocket_cases [where api = api and name = name and socketType = socketType
      and highWaterMark = highWaterMark])
  case fault
  with assms(2) show ?thesis by simp
next
  case (refused n u)
  then have [simp]: "r = Throw n" "u = t" using assms(3) by auto
  from refused show ?thesis by (simp add: same_books_def)
next
  case (leak n u p h)
  then have [simp]: "r = Throw n" "u = t" using assms(3) by auto
  from assms(1) leak heap_new_fresh [OF _ leak(5)] show ?thesis
    by (auto simp: same_books_def sockets_ok_def intro!: exI [of _ p])
next
  case (new p h u)
  then have [simp]: "r = Ret p" "u = t" using assms(3) by auto
  from assms(1) new heap_new_fresh [OF _ new(3)] show ?thesis by (auto simp: sockets_ok_def)
qed

text \<open>A live object outside the register stays so: nobody has a pointer to it.\<close>

lemma leaked_run:
  assumes "socket_run api s t" "sockets_ok s" "live (sockets s) p = Some h" "p \<notin> dom (allSockets s)"
  shows "live (sockets t) p = Some h \<and> p \<notin> dom (allSockets t)"
  using assms
proof (induction rule: socket_run.induct)
  case (generate t name socketType highWaterMark r u)
  have ok: "sockets_ok t" using sockets_ok_run generate by blast
  then have heap: "heap_ok (sockets t)" by (simp add: sockets_ok_def)
  have t: "live (sockets t) p = Some h" "p \<notin> dom (allSockets t)" using generate by blast+
  from ok show ?case
  proof (cases rule: GenerateSocket_cases [where api = api and name = name and socketType = socketType
        and highWaterMark = highWaterMark])
    case (leak n v p' h')
    with generate.hyps(2) heap_new_fresh [OF heap leak(5)] t show ?thesis by (auto simp: same_books_def)
  next
    case (new p' h' v)
    with generate.hyps(2) heap_new_fresh [OF heap new(3)] t show ?thesis by (cases "p' = p") auto
  qed (use generate.hyps(2) t in \<open>auto simp: same_books_def\<close>)
next
  case (destroy t p' r u)
  have ok: "sockets_ok t" using sockets_ok_run destroy by blast
  have t: "live (sockets t) p = Some h" "p \<notin> dom (allSockets t)" using destroy by blast+
  show ?case
  proof (cases "p' = 0")
    case True
    with destroy.hyps(3) t show ?thesis by (simp add: DestroySocket_def)
  next
    case False
    with destroy.hyps(2) obtain name where reg: "allSockets t p' = Some name" by auto
    from DestroySocket_registered [OF ok reg, of api] obtain v where
      "DestroySocket api p' t = (Ret (), v)" "allSockets v = (allSockets t)(p' := None)"
      "live (sockets v) = (live (sockets t))(p' := None)" by metis
    with destroy.hyps(3) t reg show ?thesis by (cases "p' = p") auto
  qed
qed simp

text \<open>
  C39: What \<open>GenerateSocket\<close> does is decided by the library. When the constructor throws nothing has changed.
  Otherwise there is one new object. When both calls of \<open>setsockopt\<close> succeed it is returned, registered under the
  name and counted. When one of them throws, the first error is thrown on, and the object is leaked: it is
  neither deleted nor registered, and through any later sequence of generated and destroyed sockets it stays
  allocated and out of the register.
\<close>

theorem GenerateSocket_outcomes:
  assumes "sockets_ok s" and "context_ptr s = LiveContext"
    and "GenerateSocket api name socketType highWaterMark s = (r, t)"
  shows "case zmq_socket api socketType (zlib s) of
      (Inl n, z) \<Rightarrow> r = Throw n \<and> allSockets t = allSockets s \<and> live (sockets t) = live (sockets s)
        \<and> numberOfActiveSockets t = numberOfActiveSockets s
    | (Inr h, z) \<Rightarrow> \<exists>p. p \<noteq> 0 \<and> live (sockets s) p = None \<and> live (sockets t) = (live (sockets s))(p \<mapsto> h)
        \<and> (let (linger, z) = zmq_setsockopt api h ZMQ_LINGER 0 z;
                (mark, z) = zmq_setsockopt api h ZMQ_SNDHWM highWaterMark z;
                error = (if linger \<noteq> 0 then linger else mark)
           in if error = 0
              then r = Ret p \<and> allSockets t = (allSockets s)(p \<mapsto> name) \<and> numberOfActiveSockets t = numberOfActiveSockets s + 1
              else r = Throw error \<and> allSockets t = allSockets s \<and> numberOfActiveSockets t = numberOfActiveSockets s
                \<and> (\<forall>u. socket_run api t u \<longrightarrow> live (sockets u) p = Some h \<and> p \<notin> dom (allSockets u)))"
proof -
  obtain q z where socket: "zmq_socket api socketType (zlib s) = (q, z)" by fastforce
  show ?thesis
  proof (cases q)
    case (Inl n)
    with assms(2,3) socket show ?thesis by (auto simp: GenerateSocket_def bind_act_def new_socket_def)
  next
    case (Inr h)
    obtain p hp where p: "heap_new h (sockets s) = (p, hp)" by fastforce
    have heap: "heap_ok (sockets s)" "dom (allSockets s) \<subseteq> dom (live (sockets s))"
      using assms(1) by (auto simp: sockets_ok_def)
    have new: "p \<noteq> 0" "live (sockets s) p = None" "live hp = (live (sockets s))(p \<mapsto> h)"
      using heap_new_fresh [OF heap(1) p] by simp_all
    then have read: "heap_read p hp = Inr h" by (simp add: heap_read_def)
    obtain linger z1 where o1: "zmq_setsockopt api h ZMQ_LINGER 0 z = (linger, z1)" by fastforce
    obtain mark z2 where o2: "zmq_setsockopt api h ZMQ_SNDHWM highWaterMark z1 = (mark, z2)" by fastforce
    have run: "GenerateSocket api name socketType highWaterMark s =
        (if linger \<noteq> 0 then (Throw linger, s\<lparr>zlib := z1, sockets := hp\<rparr>)
         else if mark \<noteq> 0 then (Throw mark, s\<lparr>zlib := z2, sockets := hp\<rparr>)
         else (Ret p, s\<lparr>zlib := z2, sockets := hp, numberOfActiveSockets := numberOfActiveSockets s + 1,
           allSockets := (allSockets s)(p \<mapsto> name)\<rparr>))"
      using socket Inr assms(2) p read o1 o2
      by (simp add: GenerateSocket_def bind_act_def new_socket_def on_socket_def)
    have "sockets t = hp" using run assms(3) by (auto split: if_splits)
    with new have live: "live (sockets t) = (live (sockets s))(p \<mapsto> h)" by simp
    have forever: "live (sockets u) p = Some h \<and> p \<notin> dom (allSockets u)"
      if "allSockets t = allSockets s" "socket_run api t u" for u
      by (rule leaked_run [OF that(2) sockets_ok_GenerateSocket [OF assms(1,3)]])
         (use live that(1) heap(2) new(2) in auto)
    define error where "error = (if linger \<noteq> 0 then linger else mark)"
    have "if error = 0
        then r = Ret p \<and> allSockets t = (allSockets s)(p \<mapsto> name) \<and> numberOfActiveSockets t = numberOfActiveSockets s + 1
        else r = Throw error \<and> allSockets t = allSockets s \<and> numberOfActiveSockets t = numberOfActiveSockets s"
      using run assms(3) by (auto simp: error_def split: if_splits)
    with forever new live show ?thesis
      by (auto simp: socket Inr o1 o2 Let_def error_def split: if_splits)
  qed
qed

theorem GenerateSocket_outcomes_witness:
  "\<exists>t. GenerateSocket numbering_zmq ''b'' ZMQ_PUSH 0 fresh_handler = (Throw 22, t)
     \<and> allSockets t = Map.empty \<and> numberOfActiveSockets t = 0 \<and> live (sockets t) = [1 \<mapsto> 1]
     \<and> (\<forall>u. socket_run numbering_zmq t u \<longrightarrow> live (sockets u) 1 = Some 1 \<and> 1 \<notin> dom (allSockets u))"
proof -
  let ?t = "fresh_handler\<lparr>zlib := 1, sockets := \<lparr>fresh = 2, live = [1 \<mapsto> 1]\<rparr>\<rparr>"
  have run: "GenerateSocket numbering_zmq ''b'' ZMQ_PUSH 0 fresh_handler = (Throw 22, ?t)"
    by (simp add: numbering_step fresh_handler_def)
  have "context_ptr fresh_handler = LiveContext" by (simp add: fresh_handler_def)
  from GenerateSocket_outcomes [OF fresh_handler_ok this run] obtain p where
    p: "live (sockets ?t) = (live (sockets fresh_handler))(p \<mapsto> 1)"
      "\<forall>u. socket_run numbering_zmq ?t u \<longrightarrow> live (sockets u) p = Some 1 \<and> p \<notin> dom (allSockets u)"
    by (auto simp: numbering_zmq_def ZMQ_LINGER_def ZMQ_SNDHWM_def fresh_handler_def)
  have "p = 1" using arg_cong [OF p(1), of dom] by (simp add: fresh_handler_def)
  with run p(2) show ?thesis by (intro exI [of _ ?t]) (simp add: fresh_handler_def)
qed

section \<open>Sending with retries\<close>

text \<open>The library after \<open>k\<close> attempts to send.\<close>

fun after_sends :: "'z zmq_api \<Rightarrow> nat \<Rightarrow> byte list \<Rightarrow> int \<Rightarrow> nat \<Rightarrow> 'z \<Rightarrow> 'z" where
  "after_sends api h msg flags 0 z = z"
| "after_sends api h msg flags (Suc k) z = after_sends api h msg flags k (snd (zmq_send api h msg flags z))"

definition send_result :: "'z zmq_api \<Rightarrow> nat \<Rightarrow> byte list \<Rightarrow> int \<Rightarrow> nat \<Rightarrow> 'z \<Rightarrow> int" where
  "send_result api h msg flags k z = fst (zmq_send api h msg flags (after_sends api h msg flags k z))"

text \<open>Attempt \<open>k\<close> is the last one, or is not made.\<close>

definition send_ends :: "'z zmq_api \<Rightarrow> (nat \<Rightarrow> bool) \<Rightarrow> nat \<Rightarrow> byte list \<Rightarrow> int \<Rightarrow> 'z \<Rightarrow> nat \<Rightarrow> bool" where
  "send_ends api stopped h msg flags z k \<longleftrightarrow> stopped k \<or> send_result api h msg flags k z \<noteq> EINTR"

lemma send_shift [simp]:
  "send_result api h msg flags k (snd (zmq_send api h msg flags z)) = send_result api h msg flags (Suc k) z"
  by (simp add: send_result_def)

definition send_end ::
  "'z zmq_api \<Rightarrow> bool \<Rightarrow> nat \<Rightarrow> nat \<Rightarrow> byte list \<Rightarrow> int \<Rightarrow> nat \<Rightarrow> ('z, 'm) ZMQHandler_scheme
     \<Rightarrow> unit outcome \<times> ('z, 'm) ZMQHandler_scheme" where
  "send_end api stop socket h msg flags k s =
     (let z = after_sends api h msg flags k (zlib s); (rc, z') = zmq_send api h msg flags z
      in if stop then (Ret (), s\<lparr>zlib := z\<rparr>)
         else if rc = 0 then (Ret (), s\<lparr>zlib := z'\<rparr>) else DestroySocket api socket (s\<lparr>zlib := z'\<rparr>))"

lemma send_end_later:
  "zmq_send api h msg flags (zlib s) = (rc, z) \<Longrightarrow>
     send_end api stop socket h msg flags k (s\<lparr>zlib := z\<rparr>) = send_end api stop socket h msg flags (Suc k) s"
  by (simp add: send_end_def Let_def split_beta)

lemma send_attempts_ends:
  assumes "running s" "heap_read socket (sockets s) = Inr h"
    and "\<And>j. j < k \<Longrightarrow> \<not> stopped (i + j) \<and> send_result api h msg flags j (zlib s) = EINTR"
    and "stopped (i + k) \<or> send_result api h msg flags k (zlib s) \<noteq> EINTR"
  shows "send_attempts api stopped i socket msg flags s
    = Some (send_end api (stopped (i + k)) socket h msg flags k s)"
  using assms
proof (induction k arbitrary: i s)
  case 0
  obtain rc z where send: "zmq_send api h msg flags (zlib s) = (rc, z)" by fastforce
  with 0 have "stopped i \<or> rc \<noteq> EINTR" by (simp add: send_result_def)
  with 0 send show ?case
    by (subst send_attempts.simps) (auto simp: on_socket_def IsRunning_def send_end_def split: outcome.splits)
next
  case (Suc k)
  obtain rc z where send: "zmq_send api h msg flags (zlib s) = (rc, z)" by fastforce
  have now: "\<not> stopped i" "rc = EINTR" using Suc.prems(3) [of 0] send by (simp_all add: send_result_def)
  have later: "\<not> stopped (i + 1 + j) \<and> send_result api h msg flags j z = EINTR" if "j < k" for j
    using Suc.prems(3) [of "Suc j"] that send_shift [of api h msg flags j "zlib s"] send by simp
  have "stopped (i + 1 + k) \<or> send_result api h msg flags k z \<noteq> EINTR"
    using Suc.prems(4) send_shift [of api h msg flags k "zlib s"] send by simp
  with Suc.IH [of "s\<lparr>zlib := z\<rparr>" "i + 1"] later Suc.prems(1,2)
  have "send_attempts api stopped (i + 1) socket msg flags (s\<lparr>zlib := z\<rparr>)
      = Some (send_end api (stopped (i + 1 + k)) socket h msg flags k (s\<lparr>zlib := z\<rparr>))" by simp
  with now Suc.prems(1,2) send show ?case
    by (subst send_attempts.simps) (simp add: on_socket_def IsRunning_def send_end_later EINTR_def)
qed

lemma send_attempts_endless:
  assumes "send_attempts api stopped i socket msg flags s = Some x"
    and "running s" "heap_read socket (sockets s) = Inr h"
  shows "\<exists>k. stopped (i + k) \<or> send_result api h msg flags k (zlib s) \<noteq> EINTR"
  using assms(2,3)
proof (induction arbitrary: h rule: send_attempts.raw_induct [OF _ assms(1), consumes 0, case_names step])
  case (step loop api stopped i socket msg flags s x)
  obtain rc z where send: "zmq_send api h msg flags (zlib s) = (rc, z)" by fastforce
  show ?case
  proof (cases "stopped i \<or> rc \<noteq> EINTR")
    case True
    with send show ?thesis by (intro exI [of _ 0]) (simp add: send_result_def)
  next
    case False
    with step.prems send step.hyps have "loop api stopped (i + 1) socket msg flags (s\<lparr>zlib := z\<rparr>) = Some x"
      by (simp add: on_socket_def IsRunning_def EINTR_def)
    from step.IH [OF this, of h] step.prems obtain k where
      "stopped (i + 1 + k) \<or> send_result api h msg flags k z \<noteq> EINTR" by auto
    with send send_shift [of api h msg flags k "zlib s"] show ?thesis by (intro exI [of _ "Suc k"]) simp
  qed
qed

text \<open>
  C18: On a live socket \<open>sendMessage\<close> returns exactly when, at some test, \<open>Stop\<close> has been called or an
  attempt ends otherwise than with \<open>EINTR\<close>; the first such one decides: nothing more is sent after
  \<open>Stop\<close>, a success ends it, and any other error destroys the socket.
\<close>

theorem sendMessage_first_end:
  assumes "running s" and "heap_read socket (sockets s) = Inr h"
  shows "sendMessage api stopped socket msg flags s =
    (if \<exists>k. send_ends api stopped h msg flags (zlib s) k
     then let k = LEAST k. send_ends api stopped h msg flags (zlib s) k
       in Some (send_end api (stopped k) socket h msg flags k s)
     else None)"
proof (cases "\<exists>k. send_ends api stopped h msg flags (zlib s) k")
  case True
  let ?k = "LEAST k. send_ends api stopped h msg flags (zlib s) k"
  have "\<not> stopped (0 + j) \<and> send_result api h msg flags j (zlib s) = EINTR" if "j < ?k" for j
    using not_less_Least [OF that] by (simp add: send_ends_def)
  moreover have "stopped (0 + ?k) \<or> send_result api h msg flags ?k (zlib s) \<noteq> EINTR"
    using LeastI_ex [OF True] by (simp add: send_ends_def)
  ultimately show ?thesis
    using send_attempts_ends [OF assms, of ?k stopped 0 api msg flags] True
    by (simp add: sendMessage_def Let_def)
next
  case False
  with send_attempts_endless [OF _ assms, of api stopped 0 msg flags] show ?thesis
    by (cases "send_attempts api stopped 0 socket msg flags s") (auto simp: sendMessage_def send_ends_def)
qed

theorem sendMessage_first_end_witness:
  "\<exists>t. sendMessage numbering_zmq (\<lambda>_. False) 1 [1, 2] 0
      (fresh_handler\<lparr>sockets := \<lparr>fresh = 2, live = [1 \<mapsto> 1]\<rparr>, zlib := 2\<rparr>) = Some (Ret (), t)"
proof -
  let ?s = "fresh_handler\<lparr>sockets := \<lparr>fresh = 2, live = [1 \<mapsto> 1]\<rparr>, zlib := 2\<rparr>"
  have ends: "send_ends numbering_zmq (\<lambda>_. False) 1 [1, 2] 0 (zlib ?s) k \<longleftrightarrow> k = 2" if "k \<le> 2" for k
  proof -
    from that consider "k = 0" | "k = 1" | "k = 2" by linarith
    then show ?thesis
      by cases (simp_all add: send_ends_def send_result_def numbering_zmq_def EINTR_def numeral_2_eq_2)
  qed
  then have ex: "\<exists>k. send_ends numbering_zmq (\<lambda>_. False) 1 [1, 2] 0 (zlib ?s) k" by blast
  have least: "(LEAST k. send_ends numbering_zmq (\<lambda>_. False) 1 [1, 2] 0 (zlib ?s) k) = 2"
    using ends by (intro Least_equality) (auto simp: not_less_eq_eq intro: ccontr)
  have "running ?s" "heap_read 1 (sockets ?s) = Inr 1" by (simp_all add: fresh_handler_def heap_read_def)
  from sendMessage_first_end [OF this, of numbering_zmq "\<lambda>_. False" "[1, 2]" 0] ex least
  have "sendMessage numbering_zmq (\<lambda>_. False) 1 [1, 2] 0 ?s
      = Some (send_end numbering_zmq False 1 1 [1, 2] 0 2 ?s)"
    by (simp only: Let_def if_True)
  then show ?thesis by (simp add: send_end_def numbering_zmq_def numeral_2_eq_2)
qed

section \<open>Addresses\<close>

lemma show_int_chars: "set (show_int i) \<subseteq> insert CHR ''-'' (set ''0123456789'')"
  using show_nat_digits [of "nat i"] show_nat_digits [of "nat (- i)"] unfolding show_int_def
  by (cases "i < 0") (simp_all only: if_True if_False append_Cons append_Nil list.set(2) subset_insertI2 insert_mono)

lemma show_int_inject: "show_int i = show_int j \<longleftrightarrow> i = j"
proof -
  have "CHR ''-'' \<notin> set (show_nat n)" for n using show_nat_digits [of n] by auto
  then have "show_nat n \<noteq> CHR ''-'' # xs" for n xs by (metis list.set_intros(1))
  then have neq: "show_nat n \<noteq> CHR ''-'' # xs" "CHR ''-'' # xs \<noteq> show_nat n" for n xs by metis+
  show ?thesis by (auto simp: show_int_def neq)
qed

text \<open>
  The in-process addresses of two event builder threads are different for different thread numbers,
  also negative ones, and no L0 address is an LKr address.
\<close>

theorem EB_addresses_distinct:
  shows "(GetEBL0Address i = GetEBL0Address j \<longleftrightarrow> i = j) \<and> (GetEBLKrAddress i = GetEBLKrAddress j \<longleftrightarrow> i = j)
    \<and> GetEBL0Address i \<noteq> GetEBLKrAddress j"
proof -
  have "CHR ''/'' \<notin> set (show_int n)" for n using show_int_chars [of n] by auto
  then have "show_int i @ CHR ''/'' # xs = show_int j @ CHR ''/'' # ys \<longleftrightarrow> i = j \<and> xs = ys" for xs ys
    by (simp add: cut_unique show_int_inject)
  from this [of "''L0''" "''LKr''"] this [of "''L0''" "''L0''"] this [of "''LKr''" "''LKr''"] show ?thesis
    by (simp add: GetEBL0Address_def GetEBLKrAddress_def show_int_inject)
qed

end
