(* ===== verification/Inproc.thy ===== *)
theory Inproc
  imports ZMQHandler
begin

text \<open>
  \<open>BindInproc\<close> and \<open>ConnectInproc\<close> of \<open>socket/ZMQHandler.cpp\<close>: threads bind and connect in-process sockets
  in any order, under one mutex.
\<close>

section \<open>In-process sockets\<close>

text \<open>
  \<open>BindInproc\<close> and \<open>ConnectInproc\<close> run in different threads. The places where a thread can be between
  two steps are the constructors; \<open>connectMutex\<close> is the thread that owns the mutex. \<open>calls\<close> lists the
  successful calls of the library, the last one first.
\<close>

datatype inproc_pc =
    Outside
  | Bind_call nat string
  | Bind_lock string
  | Bind_insert string
  | Bind_failed "unit outcome"
  | Connect_lock nat string
  | Connect_find nat string
  | Connect_call nat string
  | Connect_unlock
  | Connect_failed "unit outcome"

datatype inproc_call =
    Bound string
  | Connected string

record 'z inproc = "'z ZMQHandler" +
  connectMutex :: "nat option"
  pcs :: "nat \<Rightarrow> inproc_pc"
  calls :: "inproc_call list"

definition goto :: "nat \<Rightarrow> inproc_pc \<Rightarrow> 'z inproc \<Rightarrow> 'z inproc" where
  "goto t pc s = s\<lparr>pcs := (pcs s)(t := pc)\<rparr>"

definition BindInproc :: "nat \<Rightarrow> nat \<Rightarrow> string \<Rightarrow> 'z inproc \<Rightarrow> 'z inproc option" where
  "BindInproc t socket address s =
     (if pcs s t = Outside then Some (goto t (Bind_call socket address) s) else None)"

definition ConnectInproc :: "nat \<Rightarrow> nat \<Rightarrow> string \<Rightarrow> 'z inproc \<Rightarrow> 'z inproc option" where
  "ConnectInproc t socket address s =
     (if pcs s t = Outside then Some (goto t (Connect_lock socket address) s) else None)"

text \<open>
  The next step of thread \<open>t\<close>; \<open>None\<close> when it waits for the mutex, is not in one of the two functions,
  or has left it by an exception. \<open>BindInproc\<close> has a \<open>lock_guard\<close>, \<open>ConnectInproc\<close> calls \<open>lock\<close> and
  \<open>unlock\<close>.
\<close>

definition inproc_step :: "'z zmq_api \<Rightarrow> nat \<Rightarrow> 'z inproc \<Rightarrow> 'z inproc option" where
  "inproc_step api t s = (case pcs s t of
       Bind_call socket address \<Rightarrow>
         (case on_socket socket (\<lambda>h. zmq_bind api h address) s of
            (Ret u, s) \<Rightarrow> Some (goto t (Bind_lock address) (s\<lparr>calls := Bound address # calls s\<rparr>))
          | (e, s) \<Rightarrow> Some (goto t (Bind_failed e) s))
     | Bind_lock address \<Rightarrow>
         if connectMutex s = None then Some (goto t (Bind_insert address) (s\<lparr>connectMutex := Some t\<rparr>)) else None
     | Bind_insert address \<Rightarrow>
         Some (goto t Outside (s\<lparr>boundAddresses := insert address (boundAddresses s), connectMutex := None\<rparr>))
     | Connect_lock socket address \<Rightarrow>
         if connectMutex s = None then Some (goto t (Connect_find socket address) (s\<lparr>connectMutex := Some t\<rparr>))
         else None
     | Connect_find socket address \<Rightarrow>
         if address \<notin> boundAddresses s then Some (goto t (Connect_lock socket address) (s\<lparr>connectMutex := None\<rparr>))
         else Some (goto t (Connect_call socket address) s)
     | Connect_call socket address \<Rightarrow>
         (case on_socket socket (\<lambda>h. zmq_connect api h address) s of
            (Ret u, s) \<Rightarrow> Some (goto t Connect_unlock (s\<lparr>calls := Connected address # calls s\<rparr>))
          | (e, s) \<Rightarrow> Some (goto t (Connect_failed e) s))
     | Connect_unlock \<Rightarrow> Some (goto t Outside (s\<lparr>connectMutex := None\<rparr>))
     | _ \<Rightarrow> None)"

datatype inproc_label =
    Calls_Bind nat string
  | Calls_Connect nat string
  | Goes_on

fun inproc_label_step :: "'z zmq_api \<Rightarrow> nat \<Rightarrow> inproc_label \<Rightarrow> 'z inproc \<Rightarrow> 'z inproc option" where
  "inproc_label_step api t (Calls_Bind socket address) s = BindInproc t socket address s"
| "inproc_label_step api t (Calls_Connect socket address) s = ConnectInproc t socket address s"
| "inproc_label_step api t Goes_on s = inproc_step api t s"

text \<open>A schedule: which thread makes which step.\<close>

fun inproc_run :: "'z zmq_api \<Rightarrow> (nat \<times> inproc_label) list \<Rightarrow> 'z inproc \<Rightarrow> 'z inproc option" where
  "inproc_run api [] s = Some s"
| "inproc_run api ((t, l) # sched) s =
     (case inproc_label_step api t l s of None \<Rightarrow> None | Some s \<Rightarrow> inproc_run api sched s)"

section \<open>Binding and connecting in any order\<close>

text \<open>The places in which a thread owns the mutex.\<close>

fun owns_mutex :: "inproc_pc \<Rightarrow> bool" where
  "owns_mutex (Bind_insert a) = True"
| "owns_mutex (Connect_find p a) = True"
| "owns_mutex (Connect_call p a) = True"
| "owns_mutex Connect_unlock = True"
| "owns_mutex (Connect_failed e) = True"
| "owns_mutex pc = False"

text \<open>Every connection comes after the library has bound its address.\<close>

fun bound_before :: "inproc_call list \<Rightarrow> bool" where
  "bound_before [] = True"
| "bound_before (Bound a # cs) = bound_before cs"
| "bound_before (Connected a # cs) = (Bound a \<in> set cs \<and> bound_before cs)"

definition pc_ok :: "'z inproc \<Rightarrow> inproc_pc \<Rightarrow> bool" where
  "pc_ok s pc = (case pc of
       Bind_lock a \<Rightarrow> Bound a \<in> set (calls s)
     | Bind_insert a \<Rightarrow> Bound a \<in> set (calls s)
     | Connect_call p a \<Rightarrow> a \<in> boundAddresses s
     | _ \<Rightarrow> True)"

definition inproc_inv :: "'z inproc \<Rightarrow> bool" where
  "inproc_inv s \<longleftrightarrow> (\<forall>t. owns_mutex (pcs s t) \<longleftrightarrow> connectMutex s = Some t)
     \<and> (\<forall>t. pc_ok s (pcs s t)) \<and> (\<forall>a \<in> boundAddresses s. Bound a \<in> set (calls s)) \<and> bound_before (calls s)"

text \<open>What one step of a thread may change.\<close>

lemma inproc_invI:
  assumes "inproc_inv s"
    and "pcs s' = (pcs s)(t := pc)"
    and "connectMutex s' = (if owns_mutex pc then Some t else if owns_mutex (pcs s t) then None else connectMutex s)"
    and "owns_mutex pc \<longrightarrow> owns_mutex (pcs s t) \<or> connectMutex s = None"
    and "set (calls s) \<subseteq> set (calls s')" "boundAddresses s \<subseteq> boundAddresses s'"
    and "pc_ok s' pc" "\<forall>a \<in> boundAddresses s'. Bound a \<in> set (calls s')" "bound_before (calls s')"
  shows "inproc_inv s'"
proof -
  have "owns_mutex (pcs s' u) \<longleftrightarrow> connectMutex s' = Some u" for u
    using assms(1-4) by (auto simp: inproc_inv_def)
  moreover have "pc_ok s' (pcs s' u)" for u
  proof -
    have "pc_ok s (pcs s u)" using assms(1) by (simp add: inproc_inv_def)
    then have "pc_ok s' (pcs s u)"
      using assms(5,6) by (auto simp: pc_ok_def split: inproc_pc.splits)
    with assms(2,7) show ?thesis by simp
  qed
  ultimately show ?thesis using assms(8,9) by (simp add: inproc_inv_def)
qed

lemma outside_free: "inproc_inv s \<Longrightarrow> pcs s t = Outside \<Longrightarrow> connectMutex s \<noteq> Some t"
  unfolding inproc_inv_def by (metis owns_mutex.simps(6))

lemma inproc_inv_BindInproc:
  "inproc_inv s \<Longrightarrow> BindInproc t p a s = Some s' \<Longrightarrow> inproc_inv s'"
  using outside_free [of s t]
  by (intro inproc_invI [of s s' t "Bind_call p a"])
    (auto simp: BindInproc_def goto_def inproc_inv_def pc_ok_def split: if_splits)

lemma inproc_inv_ConnectInproc:
  "inproc_inv s \<Longrightarrow> ConnectInproc t p a s = Some s' \<Longrightarrow> inproc_inv s'"
  using outside_free [of s t]
  by (intro inproc_invI [of s s' t "Connect_lock p a"])
    (auto simp: ConnectInproc_def goto_def inproc_inv_def pc_ok_def split: if_splits)

lemma inproc_inv_step:
  assumes inv: "inproc_inv s" and step: "inproc_step api t s = Some s'"
  shows "inproc_inv s'"
proof -
  have old: "owns_mutex (pcs s t) \<longleftrightarrow> connectMutex s = Some t" "pc_ok s (pcs s t)"
    "\<forall>a \<in> boundAddresses s. Bound a \<in> set (calls s)" "bound_before (calls s)"
    using inv by (simp_all add: inproc_inv_def)
  note facts = old step [unfolded inproc_step_def]
  note simps = goto_def pc_ok_def
  show ?thesis
  proof (cases "pcs s t")
    case (Bind_call p a)
    show ?thesis
    proof (cases rule: on_socket_cases [of p s "\<lambda>h. zmq_bind api h a"])
      case (dead e)
      with facts Bind_call show ?thesis by (intro inproc_invI [OF inv, of s' t "Bind_failed (Fault e)"]) (auto simp: simps)
    next
      case (finished h z)
      with facts Bind_call show ?thesis by (intro inproc_invI [OF inv, of s' t "Bind_lock a"]) (auto simp: simps)
    next
      case (thrown h n z)
      with facts Bind_call show ?thesis by (intro inproc_invI [OF inv, of s' t "Bind_failed (Throw n)"]) (auto simp: simps)
    qed
  next
    case (Bind_lock a)
    with facts show ?thesis by (intro inproc_invI [OF inv, of s' t "Bind_insert a"]) (auto simp: simps split: if_splits)
  next
    case (Bind_insert a)
    with facts show ?thesis by (intro inproc_invI [OF inv, of s' t Outside]) (auto simp: simps)
  next
    case (Connect_lock p a)
    with facts show ?thesis by (intro inproc_invI [OF inv, of s' t "Connect_find p a"]) (auto simp: simps split: if_splits)
  next
    case (Connect_find p a)
    show ?thesis
    proof (cases "a \<in> boundAddresses s")
      case True
      with Connect_find facts show ?thesis by (intro inproc_invI [OF inv, of s' t "Connect_call p a"]) (auto simp: simps)
    next
      case False
      with Connect_find facts show ?thesis by (intro inproc_invI [OF inv, of s' t "Connect_lock p a"]) (auto simp: simps)
    qed
  next
    case (Connect_call p a)
    show ?thesis
    proof (cases rule: on_socket_cases [of p s "\<lambda>h. zmq_connect api h a"])
      case (dead e)
      with facts Connect_call show ?thesis by (intro inproc_invI [OF inv, of s' t "Connect_failed (Fault e)"]) (auto simp: simps)
    next
      case (finished h z)
      with facts Connect_call show ?thesis by (intro inproc_invI [OF inv, of s' t Connect_unlock]) (auto simp: simps)
    next
      case (thrown h n z)
      with facts Connect_call show ?thesis by (intro inproc_invI [OF inv, of s' t "Connect_failed (Throw n)"]) (auto simp: simps)
    qed
  next
    case Connect_unlock
    with facts show ?thesis by (intro inproc_invI [OF inv, of s' t Outside]) (auto simp: simps)
  qed (use facts in simp_all)
qed

lemma inproc_inv_run: "inproc_run api sched s = Some s' \<Longrightarrow> inproc_inv s \<Longrightarrow> inproc_inv s'"
proof (induction sched arbitrary: s)
  case (Cons tl sched)
  then show ?case
    by (cases tl; cases "snd tl") (auto split: option.splits intro: inproc_inv_BindInproc inproc_inv_ConnectInproc inproc_inv_step)
qed simp

text \<open>Nobody is in the two functions and nothing has been bound.\<close>

definition inproc_start :: "'z inproc \<Rightarrow> bool" where
  "inproc_start s \<longleftrightarrow> pcs s = (\<lambda>_. Outside) \<and> connectMutex s = None \<and> boundAddresses s = {} \<and> calls s = []"

lemma inproc_inv_start: "inproc_start s \<Longrightarrow> inproc_inv s"
  by (simp add: inproc_start_def inproc_inv_def pc_ok_def)

lemma bound_before_split: "bound_before (cs @ Connected a # ds) \<Longrightarrow> Bound a \<in> set ds"
  by (induction cs rule: bound_before.induct) simp_all

text \<open>
  C11: However the threads are scheduled, a socket is connected to an address only after the library has
  bound that address, an address is announced only after that too, and never two threads are between the
  locking and the unlocking of the mutex.
\<close>

theorem connect_after_bind:
  assumes "inproc_start s" and "inproc_run api sched s = Some s'"
  shows "(\<forall>cs a ds. calls s' = cs @ Connected a # ds \<longrightarrow> Bound a \<in> set ds)
    \<and> (\<forall>a \<in> boundAddresses s'. Bound a \<in> set (calls s'))
    \<and> (\<forall>t u. owns_mutex (pcs s' t) \<and> owns_mutex (pcs s' u) \<longrightarrow> t = u)"
proof -
  have inv: "inproc_inv s'" using assms inproc_inv_run inproc_inv_start by blast
  then have "bound_before (calls s')" by (simp add: inproc_inv_def)
  then have "Bound a \<in> set ds" if "calls s' = cs @ Connected a # ds" for cs a ds
    using bound_before_split [of cs a ds] that by simp
  with inv show ?thesis by (auto simp: inproc_inv_def)
qed

definition two_sockets :: "nat inproc" where
  "two_sockets = \<lparr>context_ptr = LiveContext, boundAddresses = {}, running = True, numberOfActiveSockets = 2,
     allSockets = [1 \<mapsto> ''b'', 2 \<mapsto> ''c''], sockets = \<lparr>fresh = 3, live = [1 \<mapsto> 1, 2 \<mapsto> 2]\<rparr>, zlib = 2,
     connectMutex = None, pcs = (\<lambda>_. Outside), calls = []\<rparr>"

lemma two_sockets_start: "inproc_start two_sockets"
  by (simp add: two_sockets_def inproc_start_def)

lemmas inproc_eval = two_sockets_def BindInproc_def ConnectInproc_def
  inproc_step_def goto_def on_socket_def heap_read_def numbering_zmq_def

theorem connect_after_bind_witness:
  "\<exists>s'. inproc_run numbering_zmq
      [(7, Calls_Connect 2 ''x''), (7, Goes_on), (7, Goes_on), (3, Calls_Bind 1 ''x''), (3, Goes_on), (3, Goes_on),
       (3, Goes_on), (7, Goes_on), (7, Goes_on), (7, Goes_on)] two_sockets = Some s'
     \<and> calls s' = [Connected ''x'', Bound ''x''] \<and> pcs s' 7 = Connect_unlock \<and> boundAddresses s' = {''x''}
     \<and> (\<forall>t. owns_mutex (pcs s' t) \<longrightarrow> t = 7)"
proof -
  let ?sched = "[(7, Calls_Connect 2 ''x''), (7, Goes_on), (7, Goes_on), (3, Calls_Bind 1 ''x''), (3, Goes_on),
      (3, Goes_on), (3, Goes_on), (7, Goes_on), (7, Goes_on), (7, Goes_on)] :: (nat \<times> inproc_label) list"
  have "\<exists>s'. inproc_run numbering_zmq ?sched two_sockets = Some s' \<and> calls s' = [Connected ''x'', Bound ''x'']
      \<and> pcs s' 7 = Connect_unlock \<and> boundAddresses s' = {''x''}"
    by (simp add: inproc_eval)
  then obtain s' where s': "inproc_run numbering_zmq ?sched two_sockets = Some s'"
    "calls s' = [Connected ''x'', Bound ''x'']" "pcs s' 7 = Connect_unlock" "boundAddresses s' = {''x''}" by blast
  from connect_after_bind [OF two_sockets_start s'(1)] have "owns_mutex (pcs s' t) \<longrightarrow> t = 7" for t
    using s'(3) by simp
  with s' show ?thesis by blast
qed

text \<open>A connection that fails keeps the mutex for ever.\<close>

fun connections :: "inproc_call list \<Rightarrow> string list" where
  "connections [] = []"
| "connections (Bound a # cs) = connections cs"
| "connections (Connected a # cs) = a # connections cs"

lemma blocked_step:
  assumes "inproc_inv s" "pcs s t = Connect_failed e" "inproc_label_step api u l s = Some s'"
  shows "pcs s' t = Connect_failed e \<and> boundAddresses s' = boundAddresses s \<and> connections (calls s') = connections (calls s)"
proof -
  have "owns_mutex (pcs s v) \<longleftrightarrow> connectMutex s = Some v" for v using assms(1) by (simp add: inproc_inv_def)
  from this [of t] this [of u] assms(2)
  have held: "connectMutex s = Some t" "owns_mutex (pcs s u) \<longleftrightarrow> t = u" by simp_all
  show ?thesis
  proof (cases l)
    case Goes_on
    with assms(3) have step: "inproc_step api u s = Some s'" by simp
    show ?thesis
    proof (cases "pcs s u")
      case (Bind_call p a)
      with step held assms(2) show ?thesis
        by (cases rule: on_socket_cases [of p s "\<lambda>h. zmq_bind api h a"]) (auto simp: inproc_step_def goto_def)
    qed (use step held assms(2) in \<open>auto simp: inproc_step_def goto_def split: if_splits\<close>)
  qed (use assms(2,3) in \<open>auto simp: BindInproc_def ConnectInproc_def goto_def split: if_splits\<close>)
qed

text \<open>
  C34: When \<open>connect\<close> throws, \<open>ConnectInproc\<close> leaves without unlocking: under every schedule the mutex
  stays with that thread, no other thread announces an address or connects any more.
\<close>

theorem failed_connect_blocks:
  assumes "inproc_start s0" and "inproc_run api sched0 s0 = Some s" and "pcs s t = Connect_failed e"
    and "inproc_run api sched s = Some s'"
  shows "connectMutex s' = Some t \<and> boundAddresses s' = boundAddresses s
    \<and> connections (calls s') = connections (calls s)"
proof -
  have "inproc_inv s" using assms(1,2) inproc_inv_run inproc_inv_start by blast
  with assms(4,3) have "inproc_inv s' \<and> pcs s' t = Connect_failed e \<and> boundAddresses s' = boundAddresses s
      \<and> connections (calls s') = connections (calls s)"
  proof (induction sched arbitrary: s)
    case (Cons ul sched)
    obtain u l where ul: "ul = (u, l)" by fastforce
    with Cons.prems obtain v where v: "inproc_label_step api u l s = Some v" "inproc_run api sched v = Some s'"
      by (auto split: option.splits)
    then have "inproc_run api [(u, l)] s = Some v" by simp
    then have "inproc_inv v" using Cons.prems(3) inproc_inv_run by blast
    with blocked_step [OF Cons.prems(3,2) v(1)] Cons.IH [OF v(2)] show ?case by simp
  qed simp
  then show ?thesis by (auto simp: inproc_inv_def)
qed

theorem failed_connect_blocks_witness:
  "\<exists>s s'. inproc_run numbering_zmq
      [(3, Calls_Bind 1 ''refused''), (3, Goes_on), (3, Goes_on), (3, Goes_on), (7, Calls_Connect 2 ''refused''),
       (7, Goes_on), (7, Goes_on), (7, Goes_on)] two_sockets = Some s
     \<and> inproc_run numbering_zmq [(3, Calls_Bind 1 ''y''), (3, Goes_on)] s = Some s'
     \<and> pcs s' 3 = Bind_lock ''y'' \<and> connectMutex s' = Some 7"
proof -
  let ?first = "[(3, Calls_Bind 1 ''refused''), (3, Goes_on), (3, Goes_on), (3, Goes_on),
      (7, Calls_Connect 2 ''refused''), (7, Goes_on), (7, Goes_on), (7, Goes_on)] :: (nat \<times> inproc_label) list"
  let ?sched = "[(3, Calls_Bind 1 ''y''), (3, Goes_on)] :: (nat \<times> inproc_label) list"
  let ?s = "two_sockets\<lparr>boundAddresses := {''refused''}, connectMutex := Some 7,
      pcs := (\<lambda>_. Outside)(3 := Outside, 7 := Connect_failed (Throw 111)), calls := [Bound ''refused'']\<rparr>"
  let ?t = "?s\<lparr>pcs := (pcs ?s)(3 := Bind_lock ''y''), calls := [Bound ''y'', Bound ''refused'']\<rparr>"
  have s: "inproc_run numbering_zmq ?first two_sockets = Some ?s" by (simp add: inproc_eval)
  have t: "inproc_run numbering_zmq ?sched ?s = Some ?t" by (simp add: inproc_eval fun_upd_twist)
  have "pcs ?s 7 = Connect_failed (Throw 111)" "pcs ?t 3 = Bind_lock ''y''" by simp_all
  with failed_connect_blocks [OF two_sockets_start s this(1) t] s t show ?thesis by metis
qed

text \<open>While no connection fails, whoever owns the mutex gives it back.\<close>

definition sockets_live :: "'z inproc \<Rightarrow> bool" where
  "sockets_live s \<longleftrightarrow> (\<forall>t p a. pcs s t \<in> {Connect_lock p a, Connect_find p a, Connect_call p a}
      \<longrightarrow> (\<exists>h. heap_read p (sockets s) = Inr h))"

definition connects :: "'z zmq_api \<Rightarrow> bool" where
  "connects api \<longleftrightarrow> (\<forall>h a z. fst (zmq_connect api h a z) = 0)"

lemma connects_step:
  assumes "connects api" "pcs s t = Connect_call p a" "heap_read p (sockets s) = Inr h"
  obtains z where "inproc_step api t s
    = Some (goto t Connect_unlock (s\<lparr>zlib := z, calls := Connected a # calls s\<rparr>))"
proof -
  obtain rc z where c: "zmq_connect api h a (zlib s) = (rc, z)" by fastforce
  moreover from this have "rc = 0"
    using assms(1) unfolding connects_def by (metis fst_conv)
  ultimately show ?thesis
    using assms(2,3) by (intro that [of z]) (simp add: inproc_step_def on_socket_def)
qed

lemma run_step: "inproc_step api t s = Some u \<Longrightarrow> inproc_run api ((t, Goes_on) # sched) s = inproc_run api sched u"
  by simp

lemma inproc_run_append:
  "inproc_run api (xs @ ys) s = (case inproc_run api xs s of None \<Rightarrow> None | Some u \<Rightarrow> inproc_run api ys u)"
  by (induction api xs s rule: inproc_run.induct) (auto split: option.splits)

text \<open>A thread that has found its address connects and unlocks in two steps.\<close>

lemma call_and_unlock:
  assumes "connects api" "pcs s t = Connect_call p a" "heap_read p (sockets s) = Inr h"
  shows "\<exists>z. inproc_run api [(t, Goes_on), (t, Goes_on)] s
    = Some (s\<lparr>zlib := z, calls := Connected a # calls s, connectMutex := None, pcs := (pcs s)(t := Outside)\<rparr>)"
proof -
  obtain z where z: "inproc_step api t s = Some (goto t Connect_unlock (s\<lparr>zlib := z, calls := Connected a # calls s\<rparr>))"
    by (rule connects_step [OF assms])
  show ?thesis
    by (intro exI [of _ z], subst run_step [OF z]) (simp add: goto_def inproc_step_def)
qed

lemma owner_releases:
  assumes "inproc_inv s" "connects api" "sockets_live s" "connectMutex s = Some u"
    and "\<forall>e. pcs s u \<noteq> Connect_failed e"
  shows "\<exists>sched s'. inproc_run api sched s = Some s' \<and> connectMutex s' = None \<and> sockets s' = sockets s
     \<and> boundAddresses s \<subseteq> boundAddresses s' \<and> (\<forall>t. t \<noteq> u \<longrightarrow> pcs s' t = pcs s t)"
proof -
  have "owns_mutex (pcs s u)" using assms(1,4) by (auto simp: inproc_inv_def)
  then show ?thesis
  proof (cases "pcs s u" rule: owns_mutex.cases)
    case (1 a)
    then show ?thesis
      by (intro exI [of _ "[(u, Goes_on)]"]) (auto simp: inproc_step_def goto_def)
  next
    case (2 p a)
    with assms(3) obtain h where h: "heap_read p (sockets s) = Inr h" unfolding sockets_live_def by blast
    show ?thesis
    proof (cases "a \<in> boundAddresses s")
      case False
      with 2 show ?thesis by (intro exI [of _ "[(u, Goes_on)]"]) (auto simp: inproc_step_def goto_def)
    next
      case True
      define v where "v = s\<lparr>pcs := (pcs s)(u := Connect_call p a)\<rparr>"
      have s: "inproc_step api u s = Some v" using 2 True by (simp add: inproc_step_def goto_def v_def)
      have "pcs v u = Connect_call p a" "heap_read p (sockets v) = Inr h" using h by (simp_all add: v_def)
      then obtain z where "inproc_run api [(u, Goes_on), (u, Goes_on)] v
          = Some (v\<lparr>zlib := z, calls := Connected a # calls v, connectMutex := None, pcs := (pcs v)(u := Outside)\<rparr>)"
        using call_and_unlock [OF assms(2)] by blast
      then show ?thesis
        using run_step [OF s, of "[(u, Goes_on), (u, Goes_on)]"]
        by (intro exI [of _ "[(u, Goes_on), (u, Goes_on), (u, Goes_on)]"]) (simp add: v_def)
    qed
  next
    case (3 p a)
    with assms(3) obtain h where "heap_read p (sockets s) = Inr h" unfolding sockets_live_def by blast
    then obtain z where "inproc_run api [(u, Goes_on), (u, Goes_on)] s
        = Some (s\<lparr>zlib := z, calls := Connected a # calls s, connectMutex := None, pcs := (pcs s)(u := Outside)\<rparr>)"
      using call_and_unlock [OF assms(2) 3] by blast
    then show ?thesis by (intro exI [of _ "[(u, Goes_on), (u, Goes_on)]"]) simp
  next
    case 4
    then show ?thesis by (intro exI [of _ "[(u, Goes_on)]"]) (auto simp: inproc_step_def goto_def)
  qed (use assms(5) in simp_all)
qed

text \<open>
  C20: As long as no connection has failed and the library accepts connections, a thread that waits in
  \<open>ConnectInproc\<close> for an address that has been bound can always finish: some schedule gives back the
  mutex, if it is taken, and then lets the thread find the address, connect and leave.
\<close>

theorem connect_can_finish:
  assumes "inproc_start s0" and "inproc_run api sched0 s0 = Some s"
    and "connects api" and "sockets_live s" and "\<forall>t e. pcs s t \<noteq> Connect_failed e"
    and "pcs s t = Connect_lock p a" and "a \<in> boundAddresses s"
  shows "\<exists>sched s'. inproc_run api sched s = Some s' \<and> pcs s' t = Outside
    \<and> hd (calls s') = Connected a \<and> connectMutex s' = None"
proof -
  have inv: "inproc_inv s" using assms(1,2) inproc_inv_run inproc_inv_start by blast
  have "\<exists>sched v. inproc_run api sched s = Some v \<and> connectMutex v = None \<and> sockets v = sockets s
      \<and> boundAddresses s \<subseteq> boundAddresses v \<and> pcs v t = Connect_lock p a"
  proof (cases "connectMutex s")
    case None
    with assms(6) show ?thesis by (intro exI [of _ "[]"]) simp
  next
    case (Some u)
    then have "owns_mutex (pcs s u)" using inv by (auto simp: inproc_inv_def)
    then have "t \<noteq> u" using assms(6) by auto
    then show ?thesis using owner_releases [OF inv assms(3,4) Some] assms(5,6) by metis
  qed
  then obtain xs v where v: "inproc_run api xs s = Some v" "connectMutex v = None" "sockets v = sockets s"
    "a \<in> boundAddresses v" "pcs v t = Connect_lock p a" using assms(7) by blast
  define w where "w = v\<lparr>connectMutex := Some t, pcs := (pcs v)(t := Connect_find p a, t := Connect_call p a)\<rparr>"
  have w: "inproc_run api [(t, Goes_on), (t, Goes_on)] v = Some w"
    using v by (simp add: inproc_step_def goto_def w_def)
  obtain h where "heap_read p (sockets w) = Inr h"
    using assms(4,6) v(3) unfolding sockets_live_def w_def by fastforce
  moreover have "pcs w t = Connect_call p a" by (simp add: w_def)
  ultimately obtain z where "inproc_run api [(t, Goes_on), (t, Goes_on)] w
      = Some (w\<lparr>zlib := z, calls := Connected a # calls w, connectMutex := None, pcs := (pcs w)(t := Outside)\<rparr>)"
    using call_and_unlock [OF assms(3)] by blast
  with v(1) w have "inproc_run api (xs @ [(t, Goes_on), (t, Goes_on)] @ [(t, Goes_on), (t, Goes_on)]) s
      = Some (w\<lparr>zlib := z, calls := Connected a # calls w, connectMutex := None, pcs := (pcs w)(t := Outside)\<rparr>)"
    by (simp only: inproc_run_append option.case)
  then show ?thesis by (intro exI conjI, assumption) simp_all
qed

definition willing_zmq :: "nat zmq_api" where
  "willing_zmq = numbering_zmq\<lparr>zmq_connect := (\<lambda>_ _ z. (0, z))\<rparr>"

theorem connect_can_finish_witness:
  "\<exists>s sched s'. inproc_run willing_zmq
      [(3, Calls_Bind 1 ''x''), (3, Goes_on), (3, Goes_on), (3, Goes_on), (7, Calls_Connect 2 ''x''),
       (3, Calls_Bind 1 ''y''), (3, Goes_on), (3, Goes_on)] two_sockets = Some s
     \<and> connectMutex s = Some 3 \<and> inproc_run willing_zmq sched s = Some s' \<and> hd (calls s') = Connected ''x''"
proof -
  let ?first = "[(3, Calls_Bind 1 ''x''), (3, Goes_on), (3, Goes_on), (3, Goes_on), (7, Calls_Connect 2 ''x''),
       (3, Calls_Bind 1 ''y''), (3, Goes_on), (3, Goes_on)] :: (nat \<times> inproc_label) list"
  let ?s = "two_sockets\<lparr>boundAddresses := {''x''}, connectMutex := Some 3,
      pcs := (\<lambda>_. Outside)(7 := Connect_lock 2 ''x'', 3 := Bind_insert ''y''), calls := [Bound ''y'', Bound ''x'']\<rparr>"
  have s: "inproc_run willing_zmq ?first two_sockets = Some ?s" by (simp add: inproc_eval willing_zmq_def)
  have "connects willing_zmq" by (simp add: connects_def willing_zmq_def)
  moreover have "sockets_live ?s"
    by (auto simp: sockets_live_def two_sockets_def heap_read_def split: if_splits)
  moreover have "\<forall>t e. pcs ?s t \<noteq> Connect_failed e" by simp
  ultimately have "\<exists>sched s'. inproc_run willing_zmq sched ?s = Some s' \<and> pcs s' 7 = Outside
      \<and> hd (calls s') = Connected ''x'' \<and> connectMutex s' = None"
    by (rule connect_can_finish [OF two_sockets_start s, where p = 2]) simp_all
  then obtain sched s' where "inproc_run willing_zmq sched ?s = Some s'" "hd (calls s') = Connected ''x''" by blast
  with s show ?thesis by (intro exI conjI) simp_all
qed

end
