(* ===== verification/IPCHandler.thy ===== *)
theory IPCHandler
  imports ZMQHandler
begin

text \<open>
  \<open>monitoring/IPCHandler.h\<close> and \<open>.cpp\<close>: state, statistics and commands between the processes of the
  farm, over the sockets of \<open>ZMQHandler\<close>.
\<close>

section \<open>State\<close>

datatype STATE = OFF | INITIALIZING | RUNNING | ERROR | TIMEOUT

text \<open>The value of the enumerator; the object has the size of an \<open>unsigned int\<close>.\<close>

fun STATE_val :: "STATE \<Rightarrow> u32" where
  "STATE_val OFF = 0"
| "STATE_val INITIALIZING = 1"
| "STATE_val RUNNING = 2"
| "STATE_val ERROR = 3"
| "STATE_val TIMEOUT = 4"

definition StateAddress :: string where "StateAddress = ''tcp://127.0.0.1:4500''"
definition StatisticsAddress :: string where "StatisticsAddress = ''tcp://127.0.0.1:4501''"
definition CommandAddress :: string where "CommandAddress = ''tcp://127.0.0.1:4502''"
definition StateAddressServer :: string where "StateAddressServer = ''tcp://*:4500''"
definition StatisticsAddressServer :: string where "StatisticsAddressServer = ''tcp://*:4501''"
definition CommandAddressServer :: string where "CommandAddressServer = ''tcp://*:4502''"

text \<open>
  The six static pointers and their six \<open>...Active_\<close> flags, indexed by the name of the socket.
\<close>

datatype ipc_socket =
    stateSender
  | statisticsSender
  | commandSender
  | stateReceiver
  | statisticsReceiver
  | commandReceiver

record 'z IPCHandler = "'z ZMQHandler" +
  socket_of :: "ipc_socket \<Rightarrow> nat"
  active :: "ipc_socket \<Rightarrow> bool"

type_synonym ('z, 'a) ipc_action = "('z IPCHandler, 'a) action"

definition set_socket :: "ipc_socket \<Rightarrow> nat \<Rightarrow> ('z, unit) ipc_action" where
  "set_socket x p s = (Ret (), s\<lparr>socket_of := (socket_of s)(x := p)\<rparr>)"

definition set_active :: "ipc_socket \<Rightarrow> bool \<Rightarrow> ('z, unit) ipc_action" where
  "set_active x b s = (Ret (), s\<lparr>active := (active s)(x := b)\<rparr>)"

definition isRunning :: "'z IPCHandler \<Rightarrow> bool" where
  "isRunning s = IsRunning s"

section \<open>Opening and closing the sockets\<close>

definition destroy_inactive :: "'z zmq_api \<Rightarrow> ipc_socket \<Rightarrow> ('z, unit) ipc_action" where
  "destroy_inactive api x s = (if \<not> active s x then DestroySocket api (socket_of s x) s else (Ret (), s))"

definition shutDown :: "'z zmq_api \<Rightarrow> ('z, unit) ipc_action" where
  "shutDown api =
     bind_act (destroy_inactive api stateSender) (\<lambda>_.
     bind_act (destroy_inactive api statisticsSender) (\<lambda>_.
     bind_act (destroy_inactive api commandSender) (\<lambda>_.
     bind_act (destroy_inactive api stateReceiver) (\<lambda>_.
     bind_act (destroy_inactive api statisticsReceiver) (\<lambda>_.
     destroy_inactive api commandReceiver)))))"

text \<open>\<open>x_ = ZMQHandler::GenerateSocket("x_", type)\<close>, with the default high water mark.\<close>

definition generate :: "'z zmq_api \<Rightarrow> ipc_socket \<Rightarrow> string \<Rightarrow> int \<Rightarrow> ('z, unit) ipc_action" where
  "generate api x name socketType =
     bind_act (GenerateSocket api name socketType 10000000) (\<lambda>p. set_socket x p)"

text \<open>A call of the library on one of the six sockets.\<close>

definition on_ipc :: "ipc_socket \<Rightarrow> (nat \<Rightarrow> 'z \<Rightarrow> int \<times> 'z) \<Rightarrow> ('z, unit) ipc_action" where
  "on_ipc x f s = on_socket (socket_of s x) f s"

definition connectClient :: "'z zmq_api \<Rightarrow> ('z, bool) ipc_action" where
  "connectClient api s =
     (if \<not> IsRunning s then (Ret False, s)
      else try_catch
        (bind_act (generate api stateSender ''stateSender_'' ZMQ_PUSH) (\<lambda>_.
         bind_act (generate api statisticsSender ''statisticsSender_'' ZMQ_PUSH) (\<lambda>_.
         bind_act (generate api commandReceiver ''commandReceiver_'' ZMQ_PULL) (\<lambda>_.
         bind_act (on_ipc stateSender (\<lambda>h. zmq_connect api h StateAddress)) (\<lambda>_.
         bind_act (on_ipc statisticsSender (\<lambda>h. zmq_connect api h StatisticsAddress)) (\<lambda>_.
         bind_act (on_ipc commandReceiver (\<lambda>h. zmq_bind api h CommandAddressServer)) (\<lambda>_.
         ret True))))))
        ) (\<lambda>_. ret False) s)"

definition bindServer :: "'z zmq_api \<Rightarrow> ('z, bool) ipc_action" where
  "bindServer api s =
     (if \<not> IsRunning s then (Ret False, s)
      else try_catch
        (bind_act (generate api stateReceiver ''stateReceiver_'' ZMQ_PULL) (\<lambda>_.
         bind_act (generate api statisticsReceiver ''statisticsReceiver_'' ZMQ_PULL) (\<lambda>_.
         bind_act (generate api commandSender ''commandSender_'' ZMQ_PUSH) (\<lambda>_.
         bind_act (on_ipc stateReceiver (\<lambda>h. zmq_bind api h StateAddressServer)) (\<lambda>_.
         bind_act (on_ipc statisticsReceiver (\<lambda>h. zmq_bind api h StatisticsAddressServer)) (\<lambda>_.
         bind_act (on_ipc commandSender (\<lambda>h. zmq_connect api h CommandAddress)) (\<lambda>_.
         ret True))))))
        ) (\<lambda>_. ret False) s)"

text \<open>\<open>if (!x_ && !open()) return d; body\<close>.\<close>

definition opened :: "ipc_socket \<Rightarrow> ('z, bool) ipc_action \<Rightarrow> 'a \<Rightarrow> ('z, 'a) ipc_action \<Rightarrow> ('z, 'a) ipc_action" where
  "opened x open_sockets d body s =
     (if socket_of s x = 0 then bind_act open_sockets (\<lambda>ok. if \<not> ok then ret d else body) s else body s)"

section \<open>Operations\<close>

definition setTimeout :: "'z zmq_api \<Rightarrow> int \<Rightarrow> ('z, unit) ipc_action" where
  "setTimeout api timeout =
     opened statisticsReceiver (bindServer api) ()
       (try_catch
         (bind_act (on_ipc statisticsReceiver (\<lambda>h. zmq_setsockopt api h ZMQ_RCVTIMEO timeout)) (\<lambda>_.
          on_ipc stateReceiver (\<lambda>h. zmq_setsockopt api h ZMQ_RCVTIMEO timeout)))
         (\<lambda>_. ret ()))"

definition updateState :: "'z zmq_api \<Rightarrow> STATE \<Rightarrow> ('z, unit) ipc_action" where
  "updateState api newState s =
     (if \<not> IsRunning s then (Ret (), s)
      else opened stateSender (connectClient api) ()
        (try_catch (on_ipc stateSender (\<lambda>h. zmq_send api h (le32 (STATE_val newState)) 0)) (\<lambda>_. ret ())) s)"

text \<open>The bytes of a \<open>std::string\<close>.\<close>

definition chars :: "string \<Rightarrow> byte list" where
  "chars = map of_char"

definition string_of :: "byte list \<Rightarrow> string" where
  "string_of = map (\<lambda>b. char_of (unat b))"

definition sendStatistics :: "'z zmq_api \<Rightarrow> string \<Rightarrow> string \<Rightarrow> ('z, unit) ipc_action" where
  "sendStatistics api name values s =
     (if \<not> IsRunning s then (Ret (), s)
      else opened statisticsSender (connectClient api) ()
        (\<lambda>s. if socket_of s statisticsSender = 0 \<or> name = [] \<or> values = [] then (Ret (), s)
          else let message = name @ '':'' @ values in
            try_catch (on_ipc statisticsSender (\<lambda>h. zmq_send api h (chars message) 0)) (\<lambda>_. ret ()) s) s)"

definition sendErrorMessage :: "'z zmq_api \<Rightarrow> string \<Rightarrow> ('z, unit) ipc_action" where
  "sendErrorMessage api message = sendStatistics api ''ErrorMessage'' message"

text \<open>The handlers of the exceptions: all but \<open>EINTR\<close> destroy the socket.\<close>

definition destroy_and_forget :: "'z zmq_api \<Rightarrow> ipc_socket \<Rightarrow> int \<Rightarrow> ('z, unit) ipc_action" where
  "destroy_and_forget api x n =
     (if n \<noteq> EINTR
      then bind_act (\<lambda>s. DestroySocket api (socket_of s x) s) (\<lambda>_. set_socket x 0)
      else ret ())"

definition is_connected :: "'z zmq_api \<Rightarrow> ipc_socket \<Rightarrow> ('z, bool) ipc_action" where
  "is_connected api x s = (case heap_read (socket_of s x) (sockets s) of
       Inl e \<Rightarrow> (Fault e, s) | Inr h \<Rightarrow> (Ret (zmq_connected api h (zlib s)), s))"

definition sendCommand :: "'z zmq_api \<Rightarrow> string \<Rightarrow> ('z, unit) ipc_action" where
  "sendCommand api command s =
     (if \<not> IsRunning s then (Ret (), s)
      else opened commandSender (bindServer api) ()
        (\<lambda>s. if socket_of s commandSender = 0 \<or> command = [] then (Ret (), s)
          else try_catch
            (bind_act (is_connected api commandSender) (\<lambda>yes.
             if yes then on_ipc commandSender (\<lambda>h. zmq_send api h (chars command) 0) else ret ()))
            (destroy_and_forget api commandSender) s) s)"

text \<open>\<open>None\<close> when nothing came before the timeout.\<close>

definition receive :: "'z zmq_api \<Rightarrow> ipc_socket \<Rightarrow> ('z, byte list option) ipc_action" where
  "receive api x s = (case heap_read (socket_of s x) (sockets s) of
       Inl e \<Rightarrow> (Fault e, s)
     | Inr h \<Rightarrow> (case zmq_recv api h (zlib s) of
           (Inl n, z) \<Rightarrow> (Throw n, s\<lparr>zlib := z\<rparr>)
         | (Inr r, z) \<Rightarrow> (Ret r, s\<lparr>zlib := z\<rparr>)))"

text \<open>The result of \<open>recv\<close> is not used here; the message is empty when nothing came.\<close>

definition getNextCommand :: "'z zmq_api \<Rightarrow> ('z, string) ipc_action" where
  "getNextCommand api s =
     (if \<not> IsRunning s then (Ret [], s)
      else opened commandReceiver (connectClient api) []
        (try_catch
          (bind_act (set_active commandReceiver True) (\<lambda>_.
           bind_act (receive api commandReceiver) (\<lambda>msg.
           bind_act (set_active commandReceiver False) (\<lambda>_.
           ret (case msg of None \<Rightarrow> [] | Some m \<Rightarrow> string_of m)))))
          (\<lambda>n. bind_act (destroy_and_forget api commandReceiver n) (\<lambda>_. ret []))) s)"

definition tryToReceiveStatistics :: "'z zmq_api \<Rightarrow> ('z, string) ipc_action" where
  "tryToReceiveStatistics api s =
     (if \<not> IsRunning s then (Ret [], s)
      else opened statisticsReceiver (bindServer api) []
        (try_catch
          (bind_act (set_active statisticsReceiver True) (\<lambda>_.
           bind_act (receive api statisticsReceiver) (\<lambda>msg. case msg of
             Some m \<Rightarrow> ret (string_of m)
           | None \<Rightarrow> bind_act (set_active statisticsReceiver False) (\<lambda>_. ret []))))
          (\<lambda>n. bind_act (destroy_and_forget api statisticsReceiver n) (\<lambda>_. ret []))) s)"

text \<open>The received state is the integer in the first four bytes of the message, whatever its size.\<close>

definition tryToReceiveState :: "'z zmq_api \<Rightarrow> ('z, u32) ipc_action" where
  "tryToReceiveState api s =
     (if \<not> IsRunning s then (Ret (STATE_val TIMEOUT), s)
      else opened stateReceiver (bindServer api) (STATE_val TIMEOUT)
        (try_catch
          (bind_act (set_active stateReceiver True) (\<lambda>_.
           bind_act (receive api stateReceiver) (\<lambda>msg. case msg of
             Some m \<Rightarrow> if length m < 4 then (\<lambda>s. (Fault OutOfBounds, s)) else ret (rd32 m 0)
           | None \<Rightarrow> bind_act (set_active stateReceiver False) (\<lambda>_. ret (STATE_val TIMEOUT)))))
          (\<lambda>n. bind_act (destroy_and_forget api stateReceiver n) (\<lambda>_. ret (STATE_val TIMEOUT)))) s)"

section \<open>The pointers\<close>

text \<open>The sockets in \<open>A\<close> are open; every non-null pointer is a registered socket of its own.\<close>

definition ipc_ok :: "ipc_socket set \<Rightarrow> 'z IPCHandler \<Rightarrow> bool" where
  "ipc_ok A s \<longleftrightarrow> sockets_ok s \<and> context_ptr s = LiveContext
     \<and> (\<forall>x. socket_of s x \<noteq> 0 \<longrightarrow> socket_of s x \<in> dom (allSockets s))
     \<and> own_sockets (socket_of s)
     \<and> (\<forall>x \<in> A. socket_of s x \<noteq> 0)"

lemma ipc_ok_mono: "ipc_ok A s \<Longrightarrow> B \<subseteq> A \<Longrightarrow> ipc_ok B s"
  by (auto simp: ipc_ok_def)

lemma ipc_ok_lib [simp]: "ipc_ok A (s\<lparr>zlib := z\<rparr>) = ipc_ok A s" "ipc_ok A (s\<lparr>active := f\<rparr>) = ipc_ok A s"
  by (simp_all add: ipc_ok_def sockets_ok_def)

lemma ipc_ok_registered:
  assumes "ipc_ok A s" "socket_of s x \<noteq> 0"
  shows "socket_of s x \<in> dom (allSockets s)" "socket_of s x \<in> dom (live (sockets s))"
  using assms unfolding ipc_ok_def sockets_ok_def by (metis, metis subset_iff)

lemma ipc_ok_read:
  assumes "ipc_ok A s" "socket_of s x \<noteq> 0"
  shows "\<exists>h. heap_read (socket_of s x) (sockets s) = Inr h"
proof -
  have "socket_of s x \<in> dom (live (sockets s))" using assms unfolding ipc_ok_def sockets_ok_def by blast
  with assms(2) show ?thesis by (auto simp: heap_read_def)
qed

text \<open>
  The handler's own state is the extension of the record, which the register's operations leave alone; the
  rest comes from the contract of the register.
\<close>

lemma client_state_fields:
  "client_state t = client_state s \<Longrightarrow> socket_of t = socket_of s"
  "client_state t = client_state s \<Longrightarrow> active t = active s"
  by (cases s; cases t; simp)+

lemma ipc_ok_contract:
  "ipc_ok A s \<longleftrightarrow> zmq_usable s \<and> (\<forall>x. socket_of s x \<noteq> 0 \<longrightarrow> socket_of s x \<in> dom (allSockets s))
     \<and> own_sockets (socket_of s) \<and> (\<forall>x \<in> A. socket_of s x \<noteq> 0)"
  by (auto simp: ipc_ok_def zmq_usable_def)

lemma zmq_usable_socket_of [simp]: "zmq_usable (s\<lparr>socket_of := f\<rparr>) = zmq_usable s"
  by (simp add: zmq_usable_def sockets_ok_def)

lemma GenerateSocket_frame:
  assumes "GenerateSocket api name socketType highWaterMark s = (r, t)"
  shows "socket_of t = socket_of s" "active t = active s"
  using client_state_GenerateSocket [of api name socketType highWaterMark] client_state_fields [of t s] assms
  unfolding keeps_def by (metis snd_conv)+

lemma DestroySocket_frame:
  assumes "DestroySocket api p s = (r, t)"
  shows "socket_of t = socket_of s" "active t = active s"
  using client_state_DestroySocket [of api p] client_state_fields [of t s] assms
  unfolding keeps_def by (metis snd_conv)+

lemma generate_triple:
  "triple F (ipc_ok A) (generate api x name socketType) (\<lambda>_. ipc_ok (insert x A)) (\<lambda>_. ipc_ok A)"
  unfolding triple_def
proof (intro allI impI)
  fix s :: "'a IPCHandler" assume s: "ipc_ok A s"
  obtain r t where g: "GenerateSocket api name socketType 10000000 s = (r, t)" by fastforce
  have ok: "zmq_usable s" "own_sockets (socket_of s)"
    "\<forall>x. socket_of s x \<noteq> 0 \<longrightarrow> socket_of s x \<in> dom (allSockets s)" using s by (simp_all add: ipc_ok_contract)
  note law = zmq_sockets.generate_law [OF ok(1) g]
  have t: "socket_of t = socket_of s" "zmq_usable t" using law client_state_fields [of t s] by blast+
  show "case generate api x name socketType s of (Ret u, t) \<Rightarrow> ipc_ok (insert x A) t | (Throw n, t) \<Rightarrow> ipc_ok A t
      | (Fault e, t) \<Rightarrow> F e"
  proof (cases r)
    case (Ret p)
    note new = zmq_sockets.table_new [OF ok g [unfolded Ret], of x]
    have "p \<noteq> 0" using law Ret by simp
    with new s t have "ipc_ok (insert x A) (t\<lparr>socket_of := (socket_of s)(x := p)\<rparr>)"
      by (simp add: ipc_ok_contract)
    then show ?thesis using g Ret t(1) by (simp add: generate_def bind_act_def set_socket_def)
  next
    case (Throw n)
    then show ?thesis using g s t law by (simp add: generate_def bind_act_def ipc_ok_contract)
  next
    case (Fault e)
    then show ?thesis using law by simp
  qed
qed

lemma on_ipc_triple:
  assumes "x \<in> A"
  shows "triple F (ipc_ok A) (on_ipc x f) (\<lambda>_. ipc_ok A) (\<lambda>_. ipc_ok A)"
  unfolding triple_def
proof (intro allI impI)
  fix s :: "'a IPCHandler" assume s: "ipc_ok A s"
  with assms obtain h where "heap_read (socket_of s x) (sockets s) = Inr h"
    using ipc_ok_read [OF s, of x] by (auto simp: ipc_ok_def)
  with s show "case on_ipc x f s of (Ret u, t) \<Rightarrow> ipc_ok A t | (Throw n, t) \<Rightarrow> ipc_ok A t | (Fault e, t) \<Rightarrow> F e"
    by (auto simp: on_ipc_def on_socket_def split: prod.splits)
qed

lemma receive_triple:
  assumes "x \<in> A"
  shows "triple F (ipc_ok A) (receive api x) (\<lambda>_. ipc_ok A) (\<lambda>_. ipc_ok A)"
  unfolding triple_def
proof (intro allI impI)
  fix s :: "'a IPCHandler" assume s: "ipc_ok A s"
  with assms obtain h where "heap_read (socket_of s x) (sockets s) = Inr h"
    using ipc_ok_read [OF s, of x] by (auto simp: ipc_ok_def)
  with s show "case receive api x s of (Ret m, t) \<Rightarrow> ipc_ok A t | (Throw n, t) \<Rightarrow> ipc_ok A t | (Fault e, t) \<Rightarrow> F e"
    by (auto simp: receive_def split: prod.splits sum.splits)
qed

lemma is_connected_triple:
  assumes "x \<in> A"
  shows "triple F (ipc_ok A) (is_connected api x) (\<lambda>_. ipc_ok A) (\<lambda>_. ipc_ok A)"
  unfolding triple_def
proof (intro allI impI)
  fix s :: "'a IPCHandler" assume s: "ipc_ok A s"
  with assms obtain h where "heap_read (socket_of s x) (sockets s) = Inr h"
    using ipc_ok_read [OF s, of x] by (auto simp: ipc_ok_def)
  with s show "case is_connected api x s of (Ret m, t) \<Rightarrow> ipc_ok A t | (Throw n, t) \<Rightarrow> ipc_ok A t | (Fault e, t) \<Rightarrow> F e"
    by (simp add: is_connected_def)
qed

lemma destroy_and_forget_triple:
  "triple F (ipc_ok A) (destroy_and_forget api x n) (\<lambda>_. ipc_ok (A - {x})) E"
  unfolding triple_def
proof (intro allI impI)
  fix s :: "'a IPCHandler" assume s: "ipc_ok A s"
  then have ok: "zmq_usable s" "own_sockets (socket_of s)"
    "\<forall>x. socket_of s x \<noteq> 0 \<longrightarrow> socket_of s x \<in> dom (allSockets s)" by (simp_all add: ipc_ok_contract)
  show "case destroy_and_forget api x n s of (Ret u, t) \<Rightarrow> ipc_ok (A - {x}) t | (Throw n, t) \<Rightarrow> E n t | (Fault e, t) \<Rightarrow> F e"
  proof (cases "n = EINTR")
    case True
    with s show ?thesis
      by (simp add: destroy_and_forget_def ret_def bind_act_def set_socket_def ipc_ok_contract own_sockets_upd)
  next
    case False
    obtain t where t: "DestroySocket api (socket_of s x) s = (Ret (), t)" "zmq_usable t"
      "client_state t = client_state s" "own_sockets ((socket_of s)(x := 0))"
      "\<forall>y. ((socket_of s)(x := 0)) y \<noteq> 0 \<longrightarrow> ((socket_of s)(x := 0)) y \<in> dom (allSockets t)"
      by (rule zmq_sockets.table_forget [OF ok])
    then have "ipc_ok (A - {x}) (t\<lparr>socket_of := (socket_of s)(x := 0)\<rparr>)"
      using s by (simp add: ipc_ok_contract)
    moreover have "destroy_and_forget api x n s = (Ret (), t\<lparr>socket_of := (socket_of s)(x := 0)\<rparr>)"
      using False t(1) client_state_fields(1) [OF t(3)]
      by (simp add: destroy_and_forget_def bind_act_def set_socket_def)
    ultimately show ?thesis by simp
  qed
qed

section \<open>The operations are safe\<close>

lemma ipc_ok_open: "ipc_ok A s \<Longrightarrow> socket_of s x \<noteq> 0 \<Longrightarrow> ipc_ok (insert x A) s"
  by (simp add: ipc_ok_def)

lemma ipc_ok_empty: "ipc_ok A s \<Longrightarrow> ipc_ok {} s"
  by (rule ipc_ok_mono) simp_all

lemma triple_running:
  assumes "triple F (ipc_ok A) m Q E" "\<And>s. ipc_ok A s \<Longrightarrow> Q d s"
  shows "triple F (ipc_ok A) (\<lambda>s. if \<not> IsRunning s then (Ret d, s) else m s) Q E"
  using assms by (simp add: triple_def)

lemma triple_opened:
  assumes "triple F (ipc_ok {}) open_sockets (\<lambda>ok s. ipc_ok (if ok then A else {}) s) E"
    and "triple F (ipc_ok {x}) body Q E" "x \<in> A" "\<And>s. ipc_ok {} s \<Longrightarrow> Q d s"
  shows "triple F (ipc_ok {}) (opened x open_sockets d body) Q E"
proof -
  have "triple F (ipc_ok A) body Q E" using assms(2)
    by (rule triple_conseq) (use assms(3) ipc_ok_mono [of A _ "{x}"] in auto)
  then have "triple F (ipc_ok (if ok then A else {})) (if \<not> ok then ret d else body) Q E" for ok
    using assms(4) by (cases ok) (simp_all add: triple_ret)
  with assms(1) have "triple F (ipc_ok {}) (bind_act open_sockets (\<lambda>ok. if \<not> ok then ret d else body)) Q E"
    by (rule triple_bind)
  moreover have "triple F (\<lambda>s. ipc_ok {} s \<and> socket_of s x \<noteq> 0) body Q E"
    using assms(2) by (rule triple_conseq) (simp_all add: ipc_ok_open)
  ultimately show ?thesis by (simp add: triple_def opened_def)
qed

text \<open>The rules with the weakest condition after an exception.\<close>

lemma generate_rule:
  "triple F (ipc_ok A) (generate api x name socketType) (\<lambda>_. ipc_ok (insert x A)) (\<lambda>_. ipc_ok {})"
  by (rule triple_conseq [OF generate_triple [of F A]]) (auto dest: ipc_ok_empty)

lemma on_ipc_rule: "x \<in> A \<Longrightarrow> triple F (ipc_ok A) (on_ipc x f) (\<lambda>_. ipc_ok A) (\<lambda>_. ipc_ok {})"
  by (rule triple_conseq [OF on_ipc_triple [of x A]]) (auto dest: ipc_ok_empty)

lemma receive_rule: "x \<in> A \<Longrightarrow> triple F (ipc_ok A) (receive api x) (\<lambda>_. ipc_ok A) (\<lambda>_. ipc_ok {})"
  by (rule triple_conseq [OF receive_triple [of x A]]) (auto dest: ipc_ok_empty)

lemma is_connected_rule: "x \<in> A \<Longrightarrow> triple F (ipc_ok A) (is_connected api x) (\<lambda>_. ipc_ok A) (\<lambda>_. ipc_ok {})"
  by (rule triple_conseq [OF is_connected_triple [of x A]]) (auto dest: ipc_ok_empty)

lemma forget_rule: "triple F (ipc_ok {}) (destroy_and_forget api x n) (\<lambda>_. ipc_ok {}) E"
  using destroy_and_forget_triple [of F "{}" api x n E] by simp

lemma connectClient_triple:
  "triple F (ipc_ok {}) (connectClient api)
     (\<lambda>ok s. ipc_ok (if ok then {commandReceiver, statisticsSender, stateSender} else {}) s) E"
  unfolding connectClient_def
  by (rule triple_running triple_catch [where R = "\<lambda>_. ipc_ok {}"] triple_bind generate_rule on_ipc_rule
      triple_ret | simp)+

lemma bindServer_triple:
  "triple F (ipc_ok {}) (bindServer api)
     (\<lambda>ok s. ipc_ok (if ok then {commandSender, statisticsReceiver, stateReceiver} else {}) s) E"
  unfolding bindServer_def
  by (rule triple_running triple_catch [where R = "\<lambda>_. ipc_ok {}"] triple_bind generate_rule on_ipc_rule
      triple_ret | simp)+

lemma set_active_rule: "triple F (ipc_ok A) (set_active x b) (\<lambda>_. ipc_ok A) E"
  by (simp add: triple_def set_active_def)

lemma ret_rule: "triple F (ipc_ok A) (ret d) (\<lambda>_. ipc_ok {}) E"
  by (rule triple_ret) (rule ipc_ok_empty)

lemma triple_body:
  assumes "triple F (ipc_ok A) m (\<lambda>_. ipc_ok {}) (\<lambda>_. ipc_ok {})"
    "\<And>n. triple F (ipc_ok {}) (h n) (\<lambda>_. ipc_ok {}) E"
  shows "triple F (ipc_ok A) (try_catch m h) (\<lambda>_. ipc_ok {}) E"
  using assms by (rule triple_catch)

lemma weaken_post: "triple F P m (\<lambda>_. ipc_ok A) E \<Longrightarrow> triple F P m (\<lambda>_. ipc_ok {}) E"
  by (erule triple_conseq) (auto dest: ipc_ok_empty)

lemmas opened_rules = triple_opened [OF connectClient_triple] triple_opened [OF bindServer_triple]

lemma updateState_triple: "triple F (ipc_ok {}) (updateState api v) (\<lambda>_. ipc_ok {}) E"
  unfolding updateState_def
  by (intro triple_running opened_rules triple_body ret_rule weaken_post [OF on_ipc_rule]) simp_all

lemma sendStatistics_triple: "triple F (ipc_ok {}) (sendStatistics api name values) (\<lambda>_. ipc_ok {}) E"
  unfolding sendStatistics_def Let_def
  by (intro triple_running opened_rules triple_guard triple_body ret_rule weaken_post [OF on_ipc_rule])
    (simp_all, erule ipc_ok_empty)

lemma sendCommand_triple: "triple F (ipc_ok {}) (sendCommand api command) (\<lambda>_. ipc_ok {}) E"
  unfolding sendCommand_def
  by (intro triple_running opened_rules triple_guard triple_body triple_bind [OF is_connected_rule]
      triple_if ret_rule forget_rule weaken_post [OF on_ipc_rule])
    (simp_all, erule ipc_ok_empty)

lemma getNextCommand_triple: "triple F (ipc_ok {}) (getNextCommand api) (\<lambda>_. ipc_ok {}) E"
  unfolding getNextCommand_def
  by (intro triple_running opened_rules triple_body triple_bind [OF set_active_rule]
      triple_bind [OF receive_rule] triple_bind [OF forget_rule] ret_rule) simp_all

lemma tryToReceiveStatistics_triple: "triple F (ipc_ok {}) (tryToReceiveStatistics api) (\<lambda>_. ipc_ok {}) E"
proof -
  have "triple F (ipc_ok A) (case msg of Some m \<Rightarrow> ret (string_of m)
      | None \<Rightarrow> bind_act (set_active statisticsReceiver False) (\<lambda>_. ret [])) (\<lambda>_. ipc_ok {}) (\<lambda>_. ipc_ok {})" for msg A
    by (cases msg) (simp_all add: ret_rule triple_bind [OF set_active_rule])
  then show ?thesis
    unfolding tryToReceiveStatistics_def
    by (intro triple_running opened_rules triple_body triple_bind [OF set_active_rule]
        triple_bind [OF receive_rule] triple_bind [OF forget_rule] ret_rule) simp_all
qed

lemma tryToReceiveState_triple:
  "triple (\<lambda>e. e = OutOfBounds) (ipc_ok {}) (tryToReceiveState api) (\<lambda>_. ipc_ok {}) E"
proof -
  have "triple (\<lambda>e. e = OutOfBounds) (ipc_ok A) (case msg of
      Some m \<Rightarrow> if length m < 4 then \<lambda>s. (Fault OutOfBounds, s) else ret (rd32 m 0)
    | None \<Rightarrow> bind_act (set_active stateReceiver False) (\<lambda>_. ret (STATE_val TIMEOUT)))
    (\<lambda>_. ipc_ok {}) (\<lambda>_. ipc_ok {})" for msg A
    by (cases msg) (simp_all add: ret_rule triple_bind [OF set_active_rule], simp add: triple_def)
  then show ?thesis
    unfolding tryToReceiveState_def
    by (intro triple_running opened_rules triple_body triple_bind [OF set_active_rule]
        triple_bind [OF receive_rule] triple_bind [OF forget_rule] ret_rule) simp_all
qed

section \<open>Shutting down\<close>

text \<open>\<open>shutDown\<close> goes through the six sockets in this order.\<close>

fun destroy_all :: "'z zmq_api \<Rightarrow> ipc_socket list \<Rightarrow> ('z, unit) ipc_action" where
  "destroy_all api [] = ret ()"
| "destroy_all api (x # xs) = bind_act (destroy_inactive api x) (\<lambda>_. destroy_all api xs)"

definition shutdown_order :: "ipc_socket list" where
  "shutdown_order = [stateSender, statisticsSender, commandSender, stateReceiver, statisticsReceiver, commandReceiver]"

lemma shutdown_order_all: "set shutdown_order = UNIV" "distinct shutdown_order"
proof -
  have "x \<in> set shutdown_order" for x by (cases x) (simp_all add: shutdown_order_def)
  then show "set shutdown_order = UNIV" by auto
qed (simp add: shutdown_order_def)

lemma shutDown_all: "shutDown api = destroy_all api shutdown_order"
  by (simp add: shutDown_def shutdown_order_def)

definition closes :: "'z IPCHandler \<Rightarrow> ipc_socket list \<Rightarrow> nat set" where
  "closes s xs = {socket_of s x |x. x \<in> set xs \<and> \<not> active s x \<and> socket_of s x \<noteq> 0}"

lemma destroy_all_ok:
  assumes "sockets_ok s" "own_sockets (socket_of s)" "distinct xs" "closes s xs \<subseteq> dom (allSockets s)"
  shows "\<exists>t. destroy_all api xs s = (Ret (), t) \<and> sockets_ok t \<and> socket_of t = socket_of s \<and> active t = active s
    \<and> allSockets t = (allSockets s) |` (- closes s xs)
    \<and> live (sockets t) = (live (sockets s)) |` (- closes s xs)"
  using assms
proof (induction xs arbitrary: s)
  case Nil
  then show ?case by (simp add: ret_def closes_def)
next
  case (Cons x xs)
  show ?case
  proof (cases "active s x \<or> socket_of s x = 0")
    case True
    then have "closes s (x # xs) = closes s xs" by (auto simp: closes_def)
    moreover have "destroy_inactive api x s = (Ret (), s)"
      using True by (auto simp: destroy_inactive_def DestroySocket_def)
    ultimately show ?thesis using Cons by simp
  next
    case False
    let ?p = "socket_of s x"
    have "?p \<in> dom (allSockets s)" using False Cons.prems(4) by (auto simp: closes_def)
    then obtain name where "allSockets s ?p = Some name" by auto
    then obtain h u where u: "DestroySocket api ?p s = (Ret (), u)" "sockets_ok u"
      "allSockets u = (allSockets s)(?p := None)" "live (sockets u) = (live (sockets s))(?p := None)"
      by (rule DestroySocket_registered [OF Cons.prems(1), where api = api])
    note fr = DestroySocket_frame [OF u(1)]
    have c: "closes s (x # xs) = insert ?p (closes s xs)" "closes u xs = closes s xs"
      using False fr by (auto simp: closes_def)
    have "?p \<notin> closes s xs"
      using Cons.prems(2,3) False own_sockets_other [of "socket_of s" x] by (force simp: closes_def)
    with c Cons.prems u(3) have "closes u xs \<subseteq> dom (allSockets u)" by auto
    from Cons.IH [OF u(2) _ _ this] obtain t where t: "destroy_all api xs u = (Ret (), t)" "sockets_ok t"
      "socket_of t = socket_of u" "active t = active u" "allSockets t = (allSockets u) |` (- closes u xs)"
      "live (sockets t) = (live (sockets u)) |` (- closes u xs)"
      using Cons.prems(2,3) fr by auto
    have "allSockets t = (allSockets s) |` (- closes s (x # xs))"
      "live (sockets t) = (live (sockets s)) |` (- closes s (x # xs))"
      unfolding t(5,6) u(3,4) c by (auto simp: fun_eq_iff restrict_map_def)
    moreover have "destroy_inactive api x s = (Ret (), u)" using False u(1) by (simp add: destroy_inactive_def)
    ultimately show ?thesis using t(1-4) fr by simp
  qed
qed

lemma destroy_all_dead:
  assumes "\<forall>p \<in> closes s xs. live (sockets s) p = None" "closes s xs \<noteq> {}"
  shows "fst (destroy_all api xs s) = Fault UseAfterFree"
  using assms
proof (induction xs)
  case Nil
  then show ?case by (simp add: closes_def)
next
  case (Cons x xs)
  show ?case
  proof (cases "active s x \<or> socket_of s x = 0")
    case True
    then have "closes s (x # xs) = closes s xs" by (auto simp: closes_def)
    moreover have "destroy_inactive api x s = (Ret (), s)"
      using True by (auto simp: destroy_inactive_def DestroySocket_def)
    ultimately show ?thesis using Cons by simp
  next
    case False
    then have "live (sockets s) (socket_of s x) = None" using Cons.prems(1) by (auto simp: closes_def)
    with False show ?thesis
      by (simp add: destroy_inactive_def bind_act_def DestroySocket_def heap_read_def)
  qed
qed

lemma shutDown_ok:
  assumes "ipc_ok {} s"
  obtains t where "shutDown api s = (Ret (), t)" "sockets_ok t" "socket_of t = socket_of s" "active t = active s"
    "allSockets t = (allSockets s) |` (- closes s shutdown_order)"
    "live (sockets t) = (live (sockets s)) |` (- closes s shutdown_order)"
proof -
  have "closes s shutdown_order \<subseteq> dom (allSockets s)"
    using assms unfolding ipc_ok_def closes_def by blast
  with destroy_all_ok [of s shutdown_order api] assms show ?thesis
    using that by (auto simp: ipc_ok_def shutDown_all shutdown_order_all)
qed

section \<open>Setting the timeout\<close>

lemma set_both_triple:
  "triple F (ipc_ok {statisticsReceiver, stateReceiver})
    (try_catch (bind_act (on_ipc statisticsReceiver f) (\<lambda>_. on_ipc stateReceiver g)) (\<lambda>_. ret ())) (\<lambda>_. ipc_ok {}) E"
  by (intro triple_body triple_bind [OF on_ipc_rule] weaken_post [OF on_ipc_rule] ret_rule) simp_all

text \<open>
  \<open>setTimeout\<close> faults only when the statistics receiver is open and the state receiver is not, and then it
  dereferences null.
\<close>

abbreviation null_state_receiver :: "'z IPCHandler \<Rightarrow> bool" where
  "null_state_receiver t \<equiv> socket_of t statisticsReceiver \<noteq> 0 \<and> socket_of t stateReceiver = 0"

lemma setTimeout_outcome:
  assumes "ipc_ok {} s"
  shows "case setTimeout api timeout s of
      (Ret u, t) \<Rightarrow> ipc_ok {} t
    | (Throw n, t) \<Rightarrow> False
    | (Fault e, t) \<Rightarrow> e = NullDeref \<and> null_state_receiver t"
proof (cases "null_state_receiver s")
  case True
  then obtain h where h: "heap_read (socket_of s statisticsReceiver) (sockets s) = Inr h"
    using ipc_ok_read [OF assms] by blast
  obtain rc z where "zmq_setsockopt api h ZMQ_RCVTIMEO timeout (zlib s) = (rc, z)" by fastforce
  with True h assms show ?thesis
    by (simp add: setTimeout_def opened_def try_catch_def bind_act_def on_ipc_def on_socket_def heap_read_def ret_def)
next
  case False
  let ?set = "\<lambda>h. zmq_setsockopt api h ZMQ_RCVTIMEO timeout"
  let ?body = "try_catch (bind_act (on_ipc statisticsReceiver ?set) (\<lambda>_. on_ipc stateReceiver ?set)) (\<lambda>_. ret ())"
  have body: "triple (\<lambda>_. False) (ipc_ok A) ?body (\<lambda>_. ipc_ok {}) (\<lambda>_ _. False)"
    if "{statisticsReceiver, stateReceiver} \<subseteq> A" for A :: "ipc_socket set"
    by (rule triple_conseq [OF set_both_triple]) (use that in \<open>auto intro: ipc_ok_mono [of A]\<close>)
  show ?thesis
  proof (cases "socket_of s statisticsReceiver = 0")
    case True
    have "triple (\<lambda>_. False) (ipc_ok {}) (bind_act (bindServer api) (\<lambda>ok. if \<not> ok then ret () else ?body))
        (\<lambda>_. ipc_ok {}) (\<lambda>_ _. False)"
      by (rule triple_bind [OF bindServer_triple]) (simp add: triple_ret body)
    with True assms show ?thesis unfolding triple_def by (fastforce simp: setTimeout_def opened_def split: prod.splits outcome.splits)
  next
    case nonnull: False
    with False assms have "ipc_ok {statisticsReceiver, stateReceiver} s" by (simp add: ipc_ok_def)
    with body [of "{statisticsReceiver, stateReceiver}"] nonnull show ?thesis
      unfolding triple_def by (fastforce simp: setTimeout_def opened_def split: prod.splits outcome.splits)
  qed
qed

section \<open>Any sequence of operations\<close>

text \<open>A sequence of the public operations of a process before it shuts down, the results left aside.\<close>

datatype ipc_op =
    Updates_state STATE
  | Sends_statistics string string
  | Sends_error string
  | Sends_command string
  | Gets_command
  | Receives_statistics
  | Receives_state
  | Sets_timeout int

fun ipc_step :: "'z zmq_api \<Rightarrow> ipc_op \<Rightarrow> ('z, unit) ipc_action" where
  "ipc_step api (Updates_state v) = updateState api v"
| "ipc_step api (Sends_statistics name values) = sendStatistics api name values"
| "ipc_step api (Sends_error message) = sendErrorMessage api message"
| "ipc_step api (Sends_command command) = sendCommand api command"
| "ipc_step api Gets_command = bind_act (getNextCommand api) (\<lambda>_. ret ())"
| "ipc_step api Receives_statistics = bind_act (tryToReceiveStatistics api) (\<lambda>_. ret ())"
| "ipc_step api Receives_state = bind_act (tryToReceiveState api) (\<lambda>_. ret ())"
| "ipc_step api (Sets_timeout timeout) = setTimeout api timeout"

fun ipc_run :: "'z zmq_api \<Rightarrow> ipc_op list \<Rightarrow> ('z, unit) ipc_action" where
  "ipc_run api [] = ret ()"
| "ipc_run api (op # ops) = bind_act (ipc_step api op) (\<lambda>_. ipc_run api ops)"

text \<open>The faults an operation may end in.\<close>

fun ipc_fault :: "ipc_op \<Rightarrow> fault \<Rightarrow> 'z IPCHandler \<Rightarrow> bool" where
  "ipc_fault Receives_state e t \<longleftrightarrow> e = OutOfBounds"
| "ipc_fault (Sets_timeout timeout) e t \<longleftrightarrow> e = NullDeref \<and> null_state_receiver t"
| "ipc_fault op e t \<longleftrightarrow> False"

lemma ipc_step_outcome:
  assumes "ipc_ok {} s"
  shows "case ipc_step api op s of (Ret u, t) \<Rightarrow> ipc_ok {} t | (Throw n, t) \<Rightarrow> False | (Fault e, t) \<Rightarrow> ipc_fault op e t"
proof (cases "\<exists>timeout. op = Sets_timeout timeout")
  case True
  then obtain timeout where "op = Sets_timeout timeout" by blast
  with setTimeout_outcome [OF assms, of api timeout] show ?thesis by (auto split: prod.splits outcome.splits)
next
  case False
  then have "triple (\<lambda>e. op = Receives_state \<and> e = OutOfBounds) (ipc_ok {}) (ipc_step api op) (\<lambda>_. ipc_ok {}) (\<lambda>_ _. False)"
    by (cases op)
      (simp_all add: updateState_triple sendStatistics_triple sendErrorMessage_def sendCommand_triple
        triple_bind [OF getNextCommand_triple] triple_bind [OF tryToReceiveStatistics_triple]
        triple_bind [OF tryToReceiveState_triple] ret_rule)
  with assms show ?thesis unfolding triple_def by (fastforce split: prod.splits outcome.splits)
qed

lemma ipc_run_outcome:
  assumes "ipc_ok {} s"
  shows "case ipc_run api ops s of
      (Ret u, t) \<Rightarrow> ipc_ok {} t
    | (Throw n, t) \<Rightarrow> False
    | (Fault e, t) \<Rightarrow> \<exists>op \<in> set ops. ipc_fault op e t"
  using assms
proof (induction ops arbitrary: s)
  case Nil
  then show ?case by (simp add: ret_def)
next
  case (Cons op ops)
  obtain r t where step: "ipc_step api op s = (r, t)" by fastforce
  with ipc_step_outcome [OF Cons.prems, where api = api and op = op]
  have r: "case r of Ret u \<Rightarrow> ipc_ok {} t | Throw n \<Rightarrow> False | Fault e \<Rightarrow> ipc_fault op e t" by simp
  show ?case
  proof (cases r)
    case (Ret u)
    with r Cons.IH [of t] step show ?thesis by (fastforce simp: bind_act_def split: prod.splits outcome.splits)
  qed (use r step in \<open>simp_all add: bind_act_def\<close>)
qed

text \<open>
  C12: All public operations of a process: any sequence of updates, statistics, errors, commands, receives
  and \<open>setTimeout\<close>, and a \<open>shutDown\<close> at its end, whatever the library answers, throws nothing and uses no
  deleted socket; before the \<open>shutDown\<close> every non-null pointer leads to a registered live socket of its own,
  and the \<open>shutDown\<close> itself returns. Two faults can end the sequence early, and no other: the read beyond a
  state message of fewer than four bytes, and a \<open>setTimeout\<close> that dereferences the null pointer of the state
  receiver while the statistics receiver is open.
\<close>

theorem ipc_operations_safe:
  assumes "ipc_ok {} s"
  shows "case ipc_run api ops s of
      (Ret u, t) \<Rightarrow> ipc_ok {} t \<and> fst (shutDown api t) = Ret ()
    | (Throw n, t) \<Rightarrow> False
    | (Fault e, t) \<Rightarrow> Receives_state \<in> set ops \<and> e = OutOfBounds
        \<or> (\<exists>timeout. Sets_timeout timeout \<in> set ops) \<and> e = NullDeref
            \<and> socket_of t statisticsReceiver \<noteq> 0 \<and> socket_of t stateReceiver = 0"
proof -
  obtain r t where run: "ipc_run api ops s = (r, t)" by fastforce
  with ipc_run_outcome [OF assms, where api = api and ops = ops]
  have r: "case r of Ret u \<Rightarrow> ipc_ok {} t | Throw n \<Rightarrow> False | Fault e \<Rightarrow> \<exists>op \<in> set ops. ipc_fault op e t" by simp
  show ?thesis
  proof (cases r)
    case (Ret u)
    with r have ok: "ipc_ok {} t" by simp
    then have "fst (shutDown api t) = Ret ()" using shutDown_ok [OF ok, of api] by (metis fst_conv)
    with ok run Ret show ?thesis by simp
  next
    case (Throw n)
    with r show ?thesis by simp
  next
    case (Fault e)
    with r obtain op where "op \<in> set ops" "ipc_fault op e t" by auto
    with run Fault show ?thesis by (cases op) auto
  qed
qed

definition ipc_start :: "nat IPCHandler" where
  "ipc_start = \<lparr>context_ptr = LiveContext, boundAddresses = {}, running = True, numberOfActiveSockets = 0,
     allSockets = Map.empty, sockets = \<lparr>fresh = 1, live = Map.empty\<rparr>, zlib = 0,
     socket_of = (\<lambda>_. 0), active = (\<lambda>_. False)\<rparr>"

lemma ipc_ok_start: "ipc_ok {} ipc_start"
  by (simp add: ipc_ok_def sockets_ok_def ipc_start_def heap_ok_def own_sockets_def)

theorem ipc_operations_safe_witness:
  "\<exists>t. ipc_run numbering_zmq [Sets_timeout 100, Receives_statistics, Sets_timeout 7] ipc_start = (Ret (), t)
     \<and> ipc_ok {} t \<and> fst (shutDown numbering_zmq t) = Ret ()"
proof -
  have "fst (ipc_run numbering_zmq [Sets_timeout 100, Receives_statistics, Sets_timeout 7] ipc_start) = Ret ()"
    by (simp add: setTimeout_def tryToReceiveStatistics_def opened_def bindServer_def generate_def on_ipc_def
        receive_def set_active_def set_socket_def try_catch_def ret_def IsRunning_def ipc_start_def
        numbering_step)
  then obtain t where "ipc_run numbering_zmq [Sets_timeout 100, Receives_statistics, Sets_timeout 7] ipc_start
      = (Ret (), t)" by (metis prod.collapse)
  with ipc_operations_safe [OF ipc_ok_start, where api = numbering_zmq and ops =
      "[Sets_timeout 100, Receives_statistics, Sets_timeout 7]"] show ?thesis by simp
qed

section \<open>What shutting down leaves\<close>

text \<open>
  C23: \<open>shutDown\<close> closes and frees exactly the open sockets whose flag is not set, and keeps the pointers;
  so when there was any, a second \<open>shutDown\<close> uses a deleted socket.
\<close>

theorem shutDown_closes_inactive:
  assumes "ipc_ok {} s"
  shows "\<exists>t. shutDown api s = (Ret (), t)
    \<and> allSockets t = (allSockets s) |` (- {socket_of s x |x. \<not> active s x})
    \<and> live (sockets t) = (live (sockets s)) |` (- {socket_of s x |x. \<not> active s x})
    \<and> socket_of t = socket_of s
    \<and> ((\<exists>x. \<not> active s x \<and> socket_of s x \<noteq> 0) \<longrightarrow> fst (shutDown api t) = Fault UseAfterFree)"
proof -
  obtain t where t: "shutDown api s = (Ret (), t)" "socket_of t = socket_of s" "active t = active s"
    "allSockets t = (allSockets s) |` (- closes s shutdown_order)"
    "live (sockets t) = (live (sockets s)) |` (- closes s shutdown_order)"
    by (rule shutDown_ok [OF assms])
  have null: "live (sockets s) 0 = None" using assms by (auto simp: ipc_ok_def sockets_ok_def heap_ok_def)
  moreover have "dom (allSockets s) \<subseteq> dom (live (sockets s))" using assms by (simp add: ipc_ok_def sockets_ok_def)
  ultimately have null': "allSockets s 0 = None" by auto
  have "m |` (- closes s shutdown_order) = m |` (- {socket_of s x |x. \<not> active s x})"
    if "m 0 = None" for m :: "nat \<rightharpoonup> 'v"
    using that by (auto simp: fun_eq_iff restrict_map_def closes_def shutdown_order_all)
  note restr = this [of "live (sockets s)", OF null] this [of "allSockets s", OF null']
  have "closes t shutdown_order = closes s shutdown_order" using t by (simp add: closes_def)
  moreover have "closes s shutdown_order \<noteq> {}" if "\<exists>x. \<not> active s x \<and> socket_of s x \<noteq> 0"
    using that by (auto simp: closes_def shutdown_order_all)
  ultimately have "(\<exists>x. \<not> active s x \<and> socket_of s x \<noteq> 0) \<longrightarrow> fst (shutDown api t) = Fault UseAfterFree"
    using t by (auto simp: shutDown_all intro!: destroy_all_dead)
  with t restr show ?thesis by (simp add: restr)
qed

definition ipc_open :: "nat IPCHandler" where
  "ipc_open = ipc_start\<lparr>numberOfActiveSockets := 6,
     allSockets := [1 \<mapsto> ''a'', 2 \<mapsto> ''b'', 3 \<mapsto> ''c'', 4 \<mapsto> ''d'', 5 \<mapsto> ''e'', 6 \<mapsto> ''f''],
     sockets := \<lparr>fresh = 7, live = [1 \<mapsto> 1, 2 \<mapsto> 2, 3 \<mapsto> 3, 4 \<mapsto> 4, 5 \<mapsto> 5, 6 \<mapsto> 6]\<rparr>,
     socket_of := (\<lambda>x. case x of stateSender \<Rightarrow> 1 | statisticsSender \<Rightarrow> 2 | commandReceiver \<Rightarrow> 3
       | stateReceiver \<Rightarrow> 4 | statisticsReceiver \<Rightarrow> 5 | commandSender \<Rightarrow> 6)\<rparr>"

lemma ipc_ok_open_all: "ipc_ok UNIV ipc_open"
proof -
  have dom: "dom (allSockets ipc_open) = {1, 2, 3, 4, 5, 6}" "dom (live (sockets ipc_open)) = {1, 2, 3, 4, 5, 6}"
    by (auto simp: ipc_open_def split: if_splits)
  have "socket_of ipc_open x \<noteq> 0 \<and> socket_of ipc_open x \<in> {1, 2, 3, 4, 5, 6}" for x
    by (cases x) (simp_all add: ipc_open_def)
  moreover have "socket_of ipc_open x = socket_of ipc_open y \<Longrightarrow> x = y" for x y
    by (cases x; cases y) (simp_all add: ipc_open_def)
  moreover have "sockets_ok ipc_open" unfolding sockets_ok_def heap_ok_def dom
    by (simp add: ipc_open_def)
  moreover have "context_ptr ipc_open = LiveContext" by (simp add: ipc_open_def ipc_start_def)
  ultimately show ?thesis unfolding ipc_ok_def own_sockets_def dom by blast
qed

theorem shutDown_closes_inactive_witness:
  "\<exists>t. shutDown numbering_zmq (ipc_open\<lparr>active := (\<lambda>x. x = commandReceiver)\<rparr>) = (Ret (), t)
     \<and> live (sockets t) 3 = Some 3 \<and> live (sockets t) 1 = None
     \<and> fst (shutDown numbering_zmq t) = Fault UseAfterFree"
proof -
  let ?s = "ipc_open\<lparr>active := (\<lambda>x. x = commandReceiver)\<rparr>"
  let ?c = "{socket_of ?s x |x. \<not> active ?s x}"
  have "ipc_ok {} ?s" using ipc_ok_empty [OF ipc_ok_open_all] by simp
  then obtain t where t: "shutDown numbering_zmq ?s = (Ret (), t)" "live (sockets t) = (live (sockets ?s)) |` (- ?c)"
    "(\<exists>x. \<not> active ?s x \<and> socket_of ?s x \<noteq> 0) \<longrightarrow> fst (shutDown numbering_zmq t) = Fault UseAfterFree"
    using shutDown_closes_inactive by blast
  have "socket_of ?s stateSender = 1" "\<not> active ?s stateSender" by (simp_all add: ipc_open_def)
  then have "1 \<in> ?c" and dead: "fst (shutDown numbering_zmq t) = Fault UseAfterFree" using t(3) by force+
  moreover have "3 \<notin> ?c"
  proof
    assume "3 \<in> ?c"
    then obtain x where "3 = socket_of ?s x" "x \<noteq> commandReceiver" by auto
    then show False by (cases x) (simp_all add: ipc_open_def)
  qed
  moreover have "live (sockets ?s) 3 = Some 3" by (simp add: ipc_open_def)
  ultimately have "live (sockets t) 1 = None" "live (sockets t) 3 = Some 3"
    unfolding t(2) restrict_map_def by (simp_all only: Compl_iff simp_thms if_True if_False)
  with t(1) dead show ?thesis by blast
qed

end
