(* ===== verification/IPCMessages.thy ===== *)
theory IPCMessages
  imports IPCHandler
begin

text \<open>
  What \<open>monitoring/IPCHandler.cpp\<close> puts into messages and reads from them, and how its flags and
  pointers behave when a message arrives, a call fails or the sockets are connected again.
\<close>

section \<open>Messages\<close>

lemma opened_open [simp]:
  "heap_read (socket_of s x) (sockets s) = Inr h \<Longrightarrow> opened x open_sockets d body s = body s"
  by (auto simp: opened_def heap_read_def)

lemma updateState_message:
  assumes "running s" "heap_read (socket_of s stateSender) (sockets s) = Inr h"
  shows "updateState api v s = (Ret (), s\<lparr>zlib := snd (zmq_send api h (le32 (STATE_val v)) 0 (zlib s))\<rparr>)"
  using assms by (simp add: updateState_def IsRunning_def try_catch_def on_ipc_def on_socket_def ret_def split: prod.splits)

lemma tryToReceiveState_message:
  assumes "running r" "heap_read (socket_of r stateReceiver) (sockets r) = Inr k"
    and "zmq_recv api k (zlib r) = (Inr msg, z)"
  shows "tryToReceiveState api r = (case msg of
      Some m \<Rightarrow> (if length m < 4 then Fault OutOfBounds else Ret (rd32 m 0),
        r\<lparr>zlib := z, active := (active r)(stateReceiver := True)\<rparr>)
    | None \<Rightarrow> (Ret (STATE_val TIMEOUT), r\<lparr>zlib := z, active := (active r)(stateReceiver := False)\<rparr>))"
  using assms
  by (simp add: tryToReceiveState_def IsRunning_def try_catch_def bind_act_def receive_def set_active_def
      ret_def split: option.splits)

lemma STATE_val_eq [simp]: "STATE_val v = STATE_val w \<longleftrightarrow> v = w"
  by (cases v; cases w) simp_all

text \<open>
  C22: A state handed to \<open>updateState\<close> is sent as four bytes, and a process that receives these bytes
  with \<open>tryToReceiveState\<close> gets the same state and no other; a message of fewer than four bytes is read
  beyond its end.
\<close>

theorem state_roundtrip:
  assumes "running s" and "heap_read (socket_of s stateSender) (sockets s) = Inr h"
    and "running r" and "heap_read (socket_of r stateReceiver) (sockets r) = Inr k"
    and "zmq_recv api' k (zlib r) = (Inr (Some m), z)"
  shows "updateState api v s = (Ret (), s\<lparr>zlib := snd (zmq_send api h (le32 (STATE_val v)) 0 (zlib s))\<rparr>)
    \<and> (m = le32 (STATE_val v) \<longrightarrow> (\<forall>w. fst (tryToReceiveState api' r) = Ret (STATE_val w) \<longleftrightarrow> w = v))
    \<and> (length m < 4 \<longrightarrow> fst (tryToReceiveState api' r) = Fault OutOfBounds)"
  using updateState_message [OF assms(1,2)] tryToReceiveState_message [OF assms(3-5)]
    rd32_le32 [of "STATE_val v" "[]"]
  by auto

text \<open>A library that keeps the messages in order; \<open>zlib\<close> is the list of those under way.\<close>

definition pipe_zmq :: "byte list list zmq_api" where
  "pipe_zmq = \<lparr>zmq_socket = (\<lambda>_ q. (Inr 1, q)), zmq_setsockopt = (\<lambda>_ _ _ q. (0, q)),
     zmq_bind = (\<lambda>_ _ q. (0, q)), zmq_connect = (\<lambda>_ _ q. (0, q)), zmq_connected = (\<lambda>_ _. True),
     zmq_send = (\<lambda>_ m _ q. (0, q @ [m])),
     zmq_recv = (\<lambda>_ q. case q of [] \<Rightarrow> (Inr None, []) | m # q \<Rightarrow> (Inr (Some m), q)),
     zmq_close = (\<lambda>_ q. q), zmq_ctx_new = (\<lambda>_ q. (0, q)), zmq_ctx_term = (\<lambda>q. q)\<rparr>"

definition pipe_open :: "byte list list \<Rightarrow> byte list list IPCHandler" where
  "pipe_open q = \<lparr>context_ptr = context_ptr ipc_open, boundAddresses = {}, running = True,
     numberOfActiveSockets = numberOfActiveSockets ipc_open,
     allSockets = allSockets ipc_open, sockets = sockets ipc_open, zlib = q, socket_of = socket_of ipc_open,
     active = (\<lambda>_. False)\<rparr>"

lemma pipe_open_simps:
  "running (pipe_open q)" "zlib (pipe_open q) = q"
  "heap_read (socket_of (pipe_open q) stateSender) (sockets (pipe_open q)) = Inr 1"
  "heap_read (socket_of (pipe_open q) statisticsSender) (sockets (pipe_open q)) = Inr 2"
  "heap_read (socket_of (pipe_open q) stateReceiver) (sockets (pipe_open q)) = Inr 4"
  "heap_read (socket_of (pipe_open q) statisticsReceiver) (sockets (pipe_open q)) = Inr 5"
  by (simp_all add: pipe_open_def ipc_open_def heap_read_def)

lemma pipe_simps [simp]:
  "zmq_send pipe_zmq h m flags q = (0, q @ [m])"
  "zmq_recv pipe_zmq h (m # q) = (Inr (Some m), q)"
  "zmq_recv pipe_zmq h [] = (Inr None, [])"
  by (simp_all add: pipe_zmq_def)

theorem state_roundtrip_witness:
  "\<exists>t. updateState pipe_zmq RUNNING (pipe_open []) = (Ret (), t) \<and> zlib t = [[2, 0, 0, 0]]
     \<and> fst (tryToReceiveState pipe_zmq (pipe_open (zlib t))) = Ret (STATE_val RUNNING)"
proof -
  have m: "le32 (STATE_val RUNNING) = [2, 0, 0, 0]" by (simp add: le32_def)
  have "zmq_recv pipe_zmq 4 (zlib (pipe_open [[2, 0, 0, 0]])) = (Inr (Some [2, 0, 0, 0]), [])"
    by (simp add: pipe_open_simps)
  note rt = state_roundtrip [OF pipe_open_simps(1) pipe_open_simps(3) [of "[]"] pipe_open_simps(1,5) this,
      where api = pipe_zmq and v = RUNNING]
  then have "updateState pipe_zmq RUNNING (pipe_open [])
      = (Ret (), pipe_open []\<lparr>zlib := snd (zmq_send pipe_zmq 1 (le32 (STATE_val RUNNING)) 0 (zlib (pipe_open [])))\<rparr>)"
    by (rule conjunct1)
  moreover have "fst (tryToReceiveState pipe_zmq (pipe_open [[2, 0, 0, 0]])) = Ret (STATE_val RUNNING)"
    using conjunct1 [OF conjunct2 [OF rt]] m by metis
  ultimately show ?thesis
    using m by (intro exI [of _ "pipe_open []\<lparr>zlib := [[2, 0, 0, 0]]\<rparr>"]) (simp add: pipe_open_simps)
qed

section \<open>Statistics\<close>

lemma of_char_byte: "unat (of_char c :: byte) = of_char c"
proof -
  have "(of_char c :: byte) = of_nat (of_char c)" by (simp add: of_nat_of_char)
  moreover have "(of_char c :: nat) < 2 ^ 8" by simp
  ultimately show ?thesis by (simp add: unat_of_nat)
qed

lemma string_of_chars [simp]: "string_of (chars xs) = xs"
  by (simp add: string_of_def chars_def comp_def of_char_byte)

lemma sendStatistics_message:
  assumes "running s" "heap_read (socket_of s statisticsSender) (sockets s) = Inr h"
  shows "sendStatistics api name values s = (Ret (), if name = [] \<or> values = [] then s
     else s\<lparr>zlib := snd (zmq_send api h (chars (name @ '':'' @ values)) 0 (zlib s))\<rparr>)"
proof -
  have "socket_of s statisticsSender \<noteq> 0" using assms(2) by (simp add: heap_read_def split: if_splits)
  with assms show ?thesis
    by (simp add: sendStatistics_def IsRunning_def try_catch_def on_ipc_def on_socket_def ret_def split: prod.splits)
qed

lemma tryToReceiveStatistics_message:
  assumes "running r" "heap_read (socket_of r statisticsReceiver) (sockets r) = Inr k"
    and "zmq_recv api k (zlib r) = (Inr msg, z)"
  shows "tryToReceiveStatistics api r = (case msg of
      Some m \<Rightarrow> (Ret (string_of m), r\<lparr>zlib := z, active := (active r)(statisticsReceiver := True)\<rparr>)
    | None \<Rightarrow> (Ret [], r\<lparr>zlib := z, active := (active r)(statisticsReceiver := False)\<rparr>))"
  using assms
  by (simp add: tryToReceiveStatistics_def IsRunning_def try_catch_def bind_act_def receive_def set_active_def
      ret_def split: option.splits)

text \<open>
  C21: What \<open>sendStatistics\<close> sends is received as \<open>name:values\<close>, and for a name without a colon nothing
  else has this form: cut at the first colon it gives back the name and the values, whatever the values
  contain. Empty names and values are not sent at all.
\<close>

theorem statistics_roundtrip:
  assumes "running s" and "heap_read (socket_of s statisticsSender) (sockets s) = Inr h"
    and "running r" and "heap_read (socket_of r statisticsReceiver) (sockets r) = Inr k"
    and "zmq_recv api' k (zlib r) = (Inr (Some (chars (name @ '':'' @ values))), z)"
    and "CHR '':'' \<notin> set name" and "name \<noteq> []" and "values \<noteq> []"
  shows "sendStatistics api name values s
      = (Ret (), s\<lparr>zlib := snd (zmq_send api h (chars (name @ '':'' @ values)) 0 (zlib s))\<rparr>)
    \<and> (\<exists>received. fst (tryToReceiveStatistics api' r) = Ret received
        \<and> takeWhile (\<lambda>c. c \<noteq> CHR '':'') received = name
        \<and> (\<forall>n v. CHR '':'' \<notin> set n \<and> received = n @ '':'' @ v \<longrightarrow> n = name \<and> v = values))
    \<and> sendStatistics api [] values s = (Ret (), s) \<and> sendStatistics api name [] s = (Ret (), s)"
proof -
  let ?m = "name @ '':'' @ values"
  have cut: "takeWhile (\<lambda>c. c \<noteq> CHR '':'') ?m = name"
    using assms(6) by (subst takeWhile_append2) auto
  have "n = name \<and> v = values" if "CHR '':'' \<notin> set n" "?m = n @ '':'' @ v" for n v
    using that(2) cut_unique [OF assms(6) that(1), of "values" v] by simp
  then have unique: "\<forall>n v. CHR '':'' \<notin> set n \<and> ?m = n @ '':'' @ v \<longrightarrow> n = name \<and> v = values" by blast
  have "fst (tryToReceiveStatistics api' r) = Ret ?m"
    using assms by (simp add: tryToReceiveStatistics_message)
  with cut unique have "\<exists>received. fst (tryToReceiveStatistics api' r) = Ret received
        \<and> takeWhile (\<lambda>c. c \<noteq> CHR '':'') received = name
        \<and> (\<forall>n v. CHR '':'' \<notin> set n \<and> received = n @ '':'' @ v \<longrightarrow> n = name \<and> v = values)" by blast
  with assms show ?thesis by (simp add: sendStatistics_message)
qed

theorem statistics_roundtrip_witness:
  "\<exists>t. sendStatistics pipe_zmq ''rate'' ''a:1'' (pipe_open []) = (Ret (), t)
     \<and> (\<exists>received. fst (tryToReceiveStatistics pipe_zmq (pipe_open [chars ''rate:a:1''])) = Ret received
        \<and> takeWhile (\<lambda>c. c \<noteq> CHR '':'') received = ''rate'')"
proof -
  have "zmq_recv pipe_zmq 5 (zlib (pipe_open [chars (''rate'' @ '':'' @ ''a:1'')]))
      = (Inr (Some (chars (''rate'' @ '':'' @ ''a:1''))), [])" by (simp add: pipe_open_simps)
  from statistics_roundtrip [OF pipe_open_simps(1) pipe_open_simps(4) [of "[]"] pipe_open_simps(1,6) this,
      where api = pipe_zmq]
  show ?thesis by auto
qed

section \<open>Behaviours of the flags and pointers\<close>

text \<open>
  C37: The flag of the state receiver is set while \<open>recv\<close> waits and reset only when it times out: after a
  state has been received \<open>shutDown\<close> leaves the socket open and registered, after a timeout it closes it.
\<close>

theorem received_state_keeps_socket:
  assumes "ipc_ok {stateReceiver} r" and "running r"
    and "heap_read (socket_of r stateReceiver) (sockets r) = Inr k"
    and "zmq_recv api k (zlib r) = (Inr msg, z)" and "\<forall>m. msg = Some m \<longrightarrow> 4 \<le> length m"
  shows "\<exists>v t u. tryToReceiveState api r = (Ret v, t) \<and> shutDown api t = (Ret (), u)
    \<and> (socket_of r stateReceiver \<in> dom (live (sockets u)) \<longleftrightarrow> msg \<noteq> None)
    \<and> (socket_of r stateReceiver \<in> dom (allSockets u) \<longleftrightarrow> msg \<noteq> None)"
proof -
  define b where "b = (msg \<noteq> None)"
  define t where "t = r\<lparr>zlib := z, active := (active r)(stateReceiver := b)\<rparr>"
  have "\<exists>v. tryToReceiveState api r = (Ret v, t)"
    using tryToReceiveState_message [OF assms(2-4)] assms(5) by (cases msg) (auto simp: t_def b_def)
  moreover have ok: "ipc_ok {} t" using assms(1) by (simp add: t_def ipc_ok_empty)
  moreover obtain u where u: "shutDown api t = (Ret (), u)"
    "allSockets u = (allSockets t) |` (- closes t shutdown_order)"
    "live (sockets u) = (live (sockets t)) |` (- closes t shutdown_order)"
    by (rule shutDown_ok [OF ok])
  have p: "socket_of r stateReceiver \<noteq> 0" using assms(1) by (simp add: ipc_ok_def)
  have own: "own_sockets (socket_of r)" using assms(1) by (simp add: ipc_ok_def)
  have "socket_of r stateReceiver \<in> closes t shutdown_order \<longleftrightarrow> \<not> b"
  proof -
    have "x = stateReceiver" if "socket_of r x = socket_of r stateReceiver" for x
      using own_sockets_other [OF own p, of x] that by metis
    with p show ?thesis by (force simp: closes_def shutdown_order_all t_def)
  qed
  moreover have "socket_of r stateReceiver \<in> dom (allSockets t)" "socket_of r stateReceiver \<in> dom (live (sockets t))"
    using ipc_ok_registered [OF ok, of stateReceiver] p by (simp_all add: t_def)
  ultimately show ?thesis using u by (auto simp: b_def)
qed

theorem received_state_keeps_socket_witness:
  "\<exists>v t u. tryToReceiveState pipe_zmq (pipe_open [[2, 0, 0, 0]]) = (Ret v, t) \<and> shutDown pipe_zmq t = (Ret (), u)
     \<and> 4 \<in> dom (live (sockets u))"
proof -
  have "ipc_ok {stateReceiver} (pipe_open q)" for q
    using ipc_ok_mono [OF ipc_ok_open_all, of "{stateReceiver}"]
    by (simp add: ipc_ok_def sockets_ok_def pipe_open_def)
  moreover have "socket_of (pipe_open q) stateReceiver = 4" for q by (simp add: pipe_open_def ipc_open_def)
  ultimately show ?thesis
    using received_state_keeps_socket [OF _ pipe_open_simps(1,5), of "[[2, 0, 0, 0]]" pipe_zmq "Some [2, 0, 0, 0]" "[]"]
    by (simp add: pipe_open_simps) blast
qed

lemma destroy_and_forget_open:
  assumes "ipc_ok {x} s" "n \<noteq> EINTR"
  obtains t where "destroy_and_forget api x n s = (Ret (), t)" "socket_of t = (socket_of s)(x := 0)"
    "ipc_ok {} t" "running t = running s" "zlib t = zmq_close api (the (live (sockets s) (socket_of s x))) (zlib s)"
    "live (sockets t) = (live (sockets s))(socket_of s x := None)"
proof -
  have p: "socket_of s x \<noteq> 0" using assms(1) by (simp add: ipc_ok_def)
  have ok: "sockets_ok s" using assms(1) by (simp add: ipc_ok_def)
  obtain name where "allSockets s (socket_of s x) = Some name" using ipc_ok_registered [OF assms(1) p] by auto
  then obtain h u where u: "live (sockets s) (socket_of s x) = Some h" "DestroySocket api (socket_of s x) s = (Ret (), u)"
    "live (sockets u) = (live (sockets s))(socket_of s x := None)" "zlib u = zmq_close api h (zlib s)"
    "running u = running s"
    by (rule DestroySocket_registered [OF ok, where api = api])
  have d: "destroy_and_forget api x n s = (Ret (), u\<lparr>socket_of := (socket_of s)(x := 0)\<rparr>)"
    using assms(2) u(2) DestroySocket_frame [OF u(2)]
    by (simp add: destroy_and_forget_def bind_act_def set_socket_def)
  have "ipc_ok {} (u\<lparr>socket_of := (socket_of s)(x := 0)\<rparr>)"
    using destroy_and_forget_triple [of "\<lambda>_. False" "{}" api x n "\<lambda>_ _. False"] ipc_ok_empty [OF assms(1)] d
    unfolding triple_def by fastforce
  with d u show ?thesis by (intro that [of "u\<lparr>socket_of := (socket_of s)(x := 0)\<rparr>"]) simp_all
qed

text \<open>
  When receiving a state fails with an error other than \<open>EINTR\<close>, the socket is destroyed and its pointer
  is null; \<open>setTimeout\<close> tests only the statistics receiver and then dereferences that null pointer.
\<close>

theorem setTimeout_null_receiver:
  assumes "ipc_ok {stateReceiver, statisticsReceiver} r" and "running r"
    and "heap_read (socket_of r stateReceiver) (sockets r) = Inr k"
    and "zmq_recv api k (zlib r) = (Inl n, z)" and "n \<noteq> EINTR"
    and "\<forall>h q. fst (zmq_setsockopt api h ZMQ_RCVTIMEO timeout q) = 0"
  shows "\<exists>t. tryToReceiveState api r = (Ret (STATE_val TIMEOUT), t) \<and> socket_of t stateReceiver = 0
    \<and> fst (setTimeout api timeout t) = Fault NullDeref"
proof -
  define s where "s = r\<lparr>active := (active r)(stateReceiver := True), zlib := z\<rparr>"
  have "ipc_ok {stateReceiver} s" using assms(1) ipc_ok_mono [of _ r "{stateReceiver}"] by (simp add: s_def)
  then obtain t where t: "destroy_and_forget api stateReceiver n s = (Ret (), t)"
    "socket_of t = (socket_of s)(stateReceiver := 0)" "ipc_ok {} t"
    using destroy_and_forget_open [OF _ assms(5)] by metis
  have run: "tryToReceiveState api r = (Ret (STATE_val TIMEOUT), t)"
    using assms(2-4) t(1)
    by (simp add: tryToReceiveState_def IsRunning_def try_catch_def bind_act_def receive_def set_active_def s_def ret_def)
  have "socket_of t statisticsReceiver \<noteq> 0"
    using assms(1) by (simp add: t(2) s_def ipc_ok_def)
  then obtain h where "heap_read (socket_of t statisticsReceiver) (sockets t) = Inr h"
    using ipc_ok_read [OF t(3)] by blast
  moreover obtain q where "zmq_setsockopt api h ZMQ_RCVTIMEO timeout (zlib t) = (0, q)"
    using assms(6) by (metis prod.collapse)
  ultimately have "fst (setTimeout api timeout t) = Fault NullDeref"
    using t(2)
    by (simp add: setTimeout_def try_catch_def bind_act_def on_ipc_def on_socket_def heap_read_def split: prod.splits)
  then show ?thesis using run by (simp add: t(2))
qed

definition failing_zmq :: "nat zmq_api" where
  "failing_zmq = numbering_zmq\<lparr>zmq_recv := (\<lambda>_ z. (Inl 156384763, z))\<rparr>"

theorem setTimeout_null_receiver_witness:
  "\<exists>t. tryToReceiveState failing_zmq ipc_open = (Ret 4, t) \<and> fst (setTimeout failing_zmq 100 t) = Fault NullDeref"
proof -
  have "running ipc_open" "heap_read (socket_of ipc_open stateReceiver) (sockets ipc_open) = Inr 4"
    by (simp_all add: ipc_open_def ipc_start_def heap_read_def)
  from setTimeout_null_receiver [OF ipc_ok_mono [OF ipc_ok_open_all] this, of failing_zmq 156384763 "zlib ipc_open" 100]
  show ?thesis by (auto simp: failing_zmq_def numbering_zmq_def EINTR_def ZMQ_RCVTIMEO_def ZMQ_SNDHWM_def)
qed

section \<open>Connecting again\<close>

text \<open>
  Since the state \<open>s0\<close> the sockets in \<open>A\<close> have got new objects, the other pointers are as they were, and
  nothing has been closed.
\<close>

definition since :: "'z IPCHandler \<Rightarrow> ipc_socket set \<Rightarrow> 'z IPCHandler \<Rightarrow> bool" where
  "since s0 A s \<longleftrightarrow> ipc_ok A s \<and> dom (allSockets s0) \<subseteq> dom (allSockets s)
     \<and> (\<forall>x \<in> A. socket_of s x \<notin> dom (allSockets s0)) \<and> (\<forall>x. x \<notin> A \<longrightarrow> socket_of s x = socket_of s0 x)"

lemma generate_since:
  "triple F (since s0 A) (generate api x name socketType) (\<lambda>_. since s0 (insert x A)) (\<lambda>_ _. True)"
  unfolding triple_def
proof (intro allI impI)
  fix s assume s: "since s0 A s"
  then have ok: "ipc_ok A s" by (simp add: since_def)
  obtain r t where g: "generate api x name socketType s = (r, t)" by fastforce
  have trip: "case r of Ret u \<Rightarrow> ipc_ok (insert x A) t | Throw n \<Rightarrow> True | Fault e \<Rightarrow> False"
    using generate_triple [of "\<lambda>_. False" A api x name socketType] ok g
    unfolding triple_def by (cases r) fastforce+
  have books: "sockets_ok s" "context_ptr s = LiveContext" using ok by (simp_all add: ipc_ok_def)
  show "case generate api x name socketType s of (Ret u, t) \<Rightarrow> since s0 (insert x A) t | (Throw n, t) \<Rightarrow> True
      | (Fault e, t) \<Rightarrow> F e"
  proof (cases r)
    case (Ret u)
    obtain r1 t1 where g1: "GenerateSocket api name socketType 10000000 s = (r1, t1)" by fastforce
    note fr = GenerateSocket_frame [OF g1]
    from Ret g g1 obtain p where p: "r1 = Ret p" "t = t1\<lparr>socket_of := (socket_of s)(x := p)\<rparr>"
      using fr by (cases r1) (auto simp: generate_def bind_act_def set_socket_def)
    with GenerateSocket_outcomes_lemma [OF books g1]
    have "live (sockets s) p = None" "allSockets t = (allSockets s)(p \<mapsto> name)" by simp_all
    moreover from this have "p \<notin> dom (allSockets s)" using books(1) by (auto simp: sockets_ok_def)
    ultimately have "since s0 (insert x A) t" using s trip Ret p(2) by (auto simp: since_def)
    with g Ret show ?thesis by simp
  qed (use g trip in simp_all)
qed

lemma on_ipc_since: "x \<in> A \<Longrightarrow> triple F (since s0 A) (on_ipc x f) (\<lambda>_. since s0 A) (\<lambda>_ _. True)"
  unfolding triple_def
proof (intro allI impI)
  fix s assume x: "x \<in> A" and s: "since s0 A s"
  then have ok: "ipc_ok A s" "socket_of s x \<noteq> 0" by (auto simp: since_def ipc_ok_def)
  then obtain h where "heap_read (socket_of s x) (sockets s) = Inr h" using ipc_ok_read by blast
  moreover have "since s0 A (s\<lparr>zlib := z\<rparr>)" for z using s by (simp add: since_def)
  ultimately show "case on_ipc x f s of (Ret u, t) \<Rightarrow> since s0 A t | (Throw n, t) \<Rightarrow> True | (Fault e, t) \<Rightarrow> F e"
    by (simp add: on_ipc_def on_socket_def split: prod.splits)
qed

lemma connectClient_since:
  "triple F (since s0 {}) (connectClient api)
     (\<lambda>ok. if ok then since s0 {commandReceiver, statisticsSender, stateSender} else (\<lambda>_. True)) E"
  unfolding connectClient_def
  by (rule triple_guard triple_catch [where R = "\<lambda>_ _. True"] triple_bind generate_since on_ipc_since
      triple_ret | simp)+

text \<open>
  C38: \<open>connectClient\<close> runs whenever one of the pointers is null. When it succeeds while the state sender
  is still open, e.g. after an error destroyed only the command receiver, the pointer is overwritten: the
  old socket stays allocated and registered, and no pointer leads to it any more.
\<close>

theorem connectClient_loses_sockets:
  assumes "ipc_ok {stateSender} s" and "connectClient api s = (Ret True, t)"
  shows "socket_of s stateSender \<in> dom (allSockets t) \<and> socket_of s stateSender \<in> dom (live (sockets t))
    \<and> (\<forall>x. socket_of t x \<noteq> socket_of s stateSender)"
proof -
  have "since s {} s" using ipc_ok_empty [OF assms(1)] by (simp add: since_def)
  with connectClient_since [of "\<lambda>_. False" s api "\<lambda>_ _. False"] assms(2)
  have t: "since s {commandReceiver, statisticsSender, stateSender} t" unfolding triple_def by fastforce
  have p: "socket_of s stateSender \<noteq> 0" "own_sockets (socket_of s)" using assms(1) by (simp_all add: ipc_ok_def)
  have reg: "socket_of s stateSender \<in> dom (allSockets s)" using ipc_ok_registered [OF assms(1) p(1)] by blast
  then have "socket_of s stateSender \<in> dom (allSockets t)" using t unfolding since_def by blast
  moreover have "dom (allSockets t) \<subseteq> dom (live (sockets t))" using t by (simp add: since_def ipc_ok_def sockets_ok_def)
  moreover have "socket_of t x \<noteq> socket_of s stateSender" for x
  proof (cases "x \<in> {commandReceiver, statisticsSender, stateSender}")
    case True
    with t reg show ?thesis unfolding since_def by metis
  next
    case False
    with t have "socket_of t x = socket_of s x" "x \<noteq> stateSender" unfolding since_def by blast+
    with own_sockets_other [OF p(2,1)] show ?thesis by simp
  qed
  ultimately show ?thesis by blast
qed

theorem connectClient_loses_sockets_witness:
  "\<exists>t. connectClient numbering_zmq ipc_open = (Ret True, t) \<and> 1 \<in> dom (live (sockets t))
     \<and> (\<forall>x. socket_of t x \<noteq> 1)"
proof -
  have "fst (connectClient numbering_zmq ipc_open) = Ret True"
    by (simp add: connectClient_def generate_def on_ipc_def numbering_step ipc_open_def ipc_start_def IsRunning_def
        set_socket_def try_catch_def ret_def StateAddress_def StatisticsAddress_def)
  then obtain t where t: "connectClient numbering_zmq ipc_open = (Ret True, t)" by (metis prod.collapse)
  moreover have "socket_of ipc_open stateSender = 1" by (simp add: ipc_open_def)
  ultimately show ?thesis
    using connectClient_loses_sockets [OF ipc_ok_mono [OF ipc_ok_open_all] t] by simp
qed

end
