(* ===== verification/Spec2Isabelle.thy ===== *)
theory Spec2Isabelle
  imports L1Delivery MRPLittleEndian DimListener Inproc IPCMessages
begin

text \<open>
  A model of the networking library of the NA62 farm (namespace \<open>na62\<close>, files under \<open>src/\<close>), and
  the theorems that make it correct. The library sends and receives Ethernet frames for the processes
  of a trigger farm, asks the detectors' read-out for data, and carries state, statistics and commands
  between the processes.

  \<^bold>\<open>The program.\<close> \<open>structs/Network.h\<close> and \<open>l1/MRP.h\<close> define packed structs that are laid over byte
  buffers. \<open>socket/EthernetUtils.h\<close> and \<open>.cpp\<close> build and check frames. \<open>socket/NetworkHandler.h\<close> is the
  static interface to the network: threads call \<open>AsyncSendFrame\<close>, which enqueues a buffer, and packet
  handler threads call \<open>DoSendQueuedFrames\<close>, which dequeues, sends and frees it, and \<open>GetNextFrame\<close>. It has two
  implementations, \<open>PFringHandler.cpp\<close> over the wrapper \<open>PFring.h\<close> of the pf_ring library, and
  \<open>PCapHandler.cpp\<close> over a packet socket; the build chooses one (\<open>USE_PFRING\<close>).
  \<open>l1/L1DistributionHandler.cpp\<close> takes requests for triggers from the event builder threads over a queue,
  collects them into multi request packets and hands these to \<open>AsyncSendFrame\<close>. Apart from that,
  \<open>socket/ZMQHandler.cpp\<close> manages ZeroMQ sockets, \<open>monitoring/IPCHandler.cpp\<close> uses them for monitoring, and
  \<open>dim/DimListener.cpp\<close> passes run control updates to callbacks.

  \<^bold>\<open>The theories.\<close>
  \<^item> \<open>Prelude\<close>: words and their bytes on the little-endian host, faults and results, the heap of \<open>new\<close> and
    \<open>delete\<close> with indeterminate new bytes (\<open>junk\<close>), and the locale \<open>packed_struct\<close> of a struct laid over a
    buffer, interpreted for every struct of the code.
  \<^item> \<open>Network\<close>, \<open>MRP\<close>: the structs as records with \<open>pack\<close> and \<open>unpack\<close>, and their methods.
    \<open>MRPLittleEndian\<close>: the host-order branch of \<open>MRP.h\<close>, which the header itself switches off, and how the two
    branches are related.
  \<^item> \<open>Checksum\<close>, \<open>EthernetUtils\<close>, \<open>FrameUtils\<close>: the functions of \<open>EthernetUtils\<close>; the one's complement
    routines the code calls are the locale \<open>inet_checksum\<close>, with the documented behaviour of RFC 1071 as
    its laws and an executable RFC 1071 sum as its interpretation.
  \<^item> \<open>PFring\<close>: the ring wrapper over \<open>pfring_api\<close>. \<open>send_packet\<close> is a loop that may not end; it is an option,
    and the theorem says when it returns.
  \<^item> \<open>Tbb_Queue\<close>, \<open>NetworkHandler\<close>: the concurrent queue as a locale \<open>tbb_fifo\<close>, \<open>send_queue\<close> for frames, and
    the contract \<open>frame_sender\<close> that both back ends fulfil (what happens to the queue, to memory and to the
    frame at its head).
  \<^item> \<open>PFringHandler\<close>, \<open>PCapHandler\<close>: the two back ends, every operation, and the proof of that contract.
    Names that occur in both have the suffix \<open>_pcap\<close> in the second.
  \<^item> \<open>SenderThreads\<close>: several packet handler threads in \<open>DoSendQueuedFrames\<close> at once, as a step relation, with
    the locale \<open>transmitter\<close> of what a back end's \<open>SendFrameConcurrently\<close> guarantees; its steps in a row are
    the function.
  \<^item> \<open>L1Distribution\<close>: requests, \<open>Initialize\<close> and \<open>Async_SendMRP\<close> with the buffers and triggers on their heaps.
  \<^item> \<open>L1Thread\<close>: \<open>thread()\<close> as a step relation among event builders, burst handler and sender, with the
    locale \<open>l1_environment\<close>, interpreted on both back ends, which extends \<open>l1_client\<close>, what the thread itself
    needs of the network. The steps are the accesses to shared state, work on the thread's own memory joined to
    the one before; the sleeps between them are the interleaving. An event builder makes three steps in
    \<open>Async_RequestL1DataMulticast\<close> (test of the flag, new trigger, push), so that it may push after the flag
    went up; a lemma shows that in a row they are the function.
  \<^item> \<open>L1Refinement\<close>: the specification of the distribution, a machine of three lists, and the proof that the
    thread refines it label by label.
  \<^item> \<open>ArpThreads\<close>: \<open>NetworkHandler::thread()\<close> of both back ends as a step among other threads, and the locale
    \<open>announcer\<close> of what it may do.
  \<^item> \<open>FarmThreads\<close>: the distribution thread, the packet handler threads and the ARP thread interleaved on one
    queue and one memory. The locale \<open>delivery\<close> carries the common invariant, \<open>observed\<close> what the kernel or the
    pf_ring library sees.
  \<^item> \<open>FarmLiveness\<close>: the locale \<open>responsive\<close>, a back end whose calls return, and that the threads can finish.
  \<^item> \<open>L1Delivery\<close>: these locales interpreted on both back ends, the end-to-end properties, and a run with a
    request and announcements on each back end.
  \<^item> \<open>Actions\<close>: state, result and exception, with sequencing, catching and triples.
  \<^item> \<open>ZMQHandler\<close>, \<open>Inproc\<close>: the sockets as a heap with the handler's register, \<open>sendMessage\<close>, and the two
    in-process functions as steps of threads that share a mutex; a schedule is a list, so runs compute.
    What a client may rely on is the locale \<open>socket_provider\<close>, interpreted on \<open>GenerateSocket\<close> and
    \<open>DestroySocket\<close>; the proofs about \<open>IPCHandler\<close> rest on it.
  \<^item> \<open>IPCHandler\<close>, \<open>IPCMessages\<close>: the six sockets of monitoring, each operation with its handlers, and what
    the messages and flags do.
  \<^item> \<open>DimListener\<close>: registration and dispatch.
  \<^item> This theory: what follows from an L1 packet and a back end together.

  \<^bold>\<open>What is shown.\<close> Frames: checksums that are generated verify, the checks are the RFC's sums, headers hold
  the right addresses and lengths, for up to 5457 triggers per packet (the 16-bit length wraps beyond).
  Memory: on every path of both senders, of \<open>Async_SendMRP\<close> and of the L1 thread no dead block is touched
  and owned blocks are freed once, under every interleaving of the thread's environment. Order: packets,
  vector and queue are the requests in their order. End to end, on both back ends: once everything has come to
  rest, the kernel (or the library) has seen one good frame for each packet and destination, in order, the ARP
  announcements between them (a member of \<open>shuffles\<close>) and nothing else, and the packets
  are the accepted requests; at any earlier moment all of them are accounted for. The first holds with one packet
  handler thread, since several may overtake each other between taking a frame and sending it: then each
  frame is still sent once, by its taker. On pf_ring it says that \<open>send_packet\<close> was called for each frame;
  what that call refuses is below. Progress, on pf_ring: as long as no burst is flushed, the library
  accepts frames, the rings are open, the send queue has some capacity and packets one to 120 triggers, no interleaving
  leads into a dead end; the threads can always go on until the library has been given every frame (that they do
  so is a matter of the scheduler, which is not modelled). Sockets: the register and its count agree, a socket is
  connected only after its address was bound; the monitoring operations catch what is thrown and, until
  \<open>shutDown\<close> leaves its pointers dangling, keep them good, but for \<open>setTimeout\<close>, which may dereference a null pointer. Some theorems show what the code does where that is hardly meant: frames of more than
  120 triggers lost on pf_ring, the thread that waits for ever after a flush, a mutex kept after an
  exception, sockets and blocks that leak, reads beyond the end of short data, null dereferences.

  \<^bold>\<open>Conventions.\<close> A fault (null or dangling pointer, access out of bounds, \<open>exit\<close>) is \<open>Inl\<close>, or \<open>Fault\<close> where
  exceptions occur too. Machine integers are words of their width. A call that may not return is an
  option, \<open>None\<close> when it does not; loops of this kind are \<open>partial_function\<close>s, so no fuel occurs anywhere.
  Libraries (pf_ring, the kernel, ZeroMQ, TBB queues, DIM, the host's address functions) are parameters:
  records of functions on an opaque state, without laws unless a locale states them. Reads and writes of
  one statement are atomic; data races inside a statement and weak memory are outside the model.

  \<^bold>\<open>Not modelled.\<close> Log output other than the rows of \<open>PrintStats\<close>, sleeps and thread priorities have no effect
  on the state and are left out. \<open>Event\<close> and \<open>BurstIdHandler\<close> of other libraries are parameters. \<open>.cproject\<close> and \<open>.project\<close> hold no program logic.
\<close>

section \<open>Requests across the handlers\<close>

text \<open>
  C36: A packet with more than 120 triggers never leaves the host on the pf_ring back end: the wrapper
  refuses its frame because it has more than 1500 bytes, the library is not called, and yet the frame
  is counted as sent and its block freed, so that nothing reports the loss but a result of \<open>-1\<close> for
  the caller.
\<close>

theorem long_packet_lost:
  assumes "send_queue Q elems cap" and "threadNum < length (queueRings s)"
    and "queue_safe (d # ds) (bufs s)" and "elems (asyncSendData s) = d # ds"
    and "frame_for cs payload (live (bufs s)) hdr d" and "length payload = 12 * k" and "120 < k"
  shows "\<exists>t. DoSendQueuedFrames Q api junk threadNum s = Some (Inr (- 1, t))
    \<and> lib t = lib s \<and> GetFramesSent t = GetFramesSent s + 1 \<and> elems (asyncSendData t) = ds
    \<and> live (bufs t) = (live (bufs s))(dc_data d := None)"
proof -
  obtain pkt where pkt: "live (bufs s) (dc_data d) = Some pkt" "dc_length d \<le> length pkt"
    using queue_safe_head [OF assms(3)] by metis
  obtain q h where q: "elems q = ds" "live h = release d (live (bufs s))" and
    run: "DoSendQueuedFrames Q api junk threadNum s =
      (case send_packet api (queueRings s ! threadNum) (on_wire pkt (dc_length d)) True True (lib s) of
         None \<Rightarrow> None
       | Some (rc, r) \<Rightarrow> Some (Inr (rc, s\<lparr>framesSent := framesSent s + 1, asyncSendData := q, bufs := h, lib := r\<rparr>)))"
    by (rule send_queue.DoSendQueuedFrames_head [OF assms(1-4) pkt(1), of api junk])
  have "1500 < length (on_wire pkt (dc_length d))"
    using assms(5-7) pkt(2) by (simp add: length_on_wire frame_for_def)
  then have "send_packet api (queueRings s ! threadNum) (on_wire pkt (dc_length d)) True True (lib s)
      = Some (- 1, lib s)"
    by (auto simp: send_packet_def split: option.splits)
  moreover have "ownerMayFreeData d" using assms(5) by (simp add: frame_for_def)
  ultimately show ?thesis using run q by (simp add: release_def GetFramesSent_def)
qed

theorem long_packet_lost_witness:
  "\<exists>frame t. length frame = 1506
     \<and> DoSendQueuedFrames list_queue counting_api (\<lambda>_ _. 0) 0
         (example_state\<lparr>asyncSendData := ([\<lparr>dc_data = 1, dc_length = 1506, ownerMayFreeData = True\<rparr>], Some 1000),
            bufs := \<lparr>fresh = 2, live = [1 \<mapsto> frame]\<rparr>\<rparr>) = Some (Inr (- 1, t))
     \<and> live (bufs t) = Map.empty \<and> GetFramesSent t = 1"
proof -
  let ?p = "replicate (12 * 121) 0 :: byte list"
  obtain frame where f: "mrp_frame_ok rfc1071 example_header ?p frame"
    using rfc1071.build_frame_ok [OF request_hdr_ok_example, of "replicate 54 0" ?p 121 "replicate (54 + 12 * 121) 0"]
    by auto
  then have len: "length frame = 1506" by (simp add: mrp_frame_ok_def Let_def)
  let ?d = "\<lparr>dc_data = 1, dc_length = 1506, ownerMayFreeData = True\<rparr>"
  let ?s = "example_state\<lparr>asyncSendData := ([?d], Some 1000), bufs := \<lparr>fresh = 2, live = [1 \<mapsto> frame]\<rparr>\<rparr>"
  have "queue_safe (?d # []) (bufs ?s)"
    using len by (simp add: queue_safe_def container_ok_def heap_ok_def)
  moreover have "0 < length (queueRings ?s)" "fst (asyncSendData ?s) = ?d # []"
    "frame_for rfc1071 ?p (live (bufs ?s)) example_header ?d" "length ?p = 12 * 121" "120 < (121 :: nat)"
    using example_state_safe(3) f by (simp_all add: frame_for_def)
  ultimately obtain t where "DoSendQueuedFrames list_queue counting_api (\<lambda>_ _. 0) 0 ?s = Some (Inr (- 1, t))"
    "GetFramesSent t = GetFramesSent ?s + 1" "live (bufs t) = (live (bufs ?s))(dc_data ?d := None)"
    using long_packet_lost [OF list_send_queue.send_queue_axioms, of 0 ?s ?d "[]" rfc1071 ?p example_header 121
        counting_api "\<lambda>_ _. 0"] by blast
  with len show ?thesis
    by (intro exI [of _ frame] exI [of _ t]) (simp add: example_state_def GetFramesSent_def)
qed

end
